(* ===== verification/Mmap_Prelude.thy ===== *)
theory Mmap_Prelude
  imports Main "HOL-Library.Word" "HOL-Library.Monad_Syntax"
begin

text \<open>
  Shared vocabulary of the development: \<open>std::size_t\<close> arithmetic on natural numbers with the
  wrap-around of 64-bit machine words written out, the bit tricks the sources use to round sizes,
  the standard-library helpers the sources call (\<open>std::has_single_bit\<close>, \<open>std::align\<close>), and the
  generic lemmas on options, lists and maps the component theories share.

  A computation that the program may abort, or that would access storage holding no object of the
  expected type, is an \<open>option\<close>: \<open>None\<close> means that the C++ call does not return normally.
\<close>

unbundle bit_operations_syntax

type_synonym addr = nat      \<comment> \<open>a pointer value; \<open>0\<close> is \<open>nullptr\<close>\<close>
type_synonym size_t = nat    \<comment> \<open>\<open>std::size_t\<close>, kept below \<open>2 ^ 64\<close> by the operations below\<close>

abbreviation (input) nullptr :: addr where
  "nullptr \<equiv> 0"

text \<open>Collections the component theories fill: single accesses to the node store, constants, callbacks of the server.\<close>

named_theorems heap_ops "reads and writes of node fields"
named_theorems fl_consts "the size constants of the allocator"
named_theorems callback_defs "the callbacks of the web server, unfolded in the case analysis over events"

subsection \<open>Machine arithmetic\<close>

definition add64 :: "size_t \<Rightarrow> size_t \<Rightarrow> size_t" where
  "add64 a b = (a + b) mod 2 ^ 64"

definition sub64 :: "size_t \<Rightarrow> size_t \<Rightarrow> size_t" where
  "sub64 a b = (a + (2 ^ 64 - b mod 2 ^ 64)) mod 2 ^ 64"

definition mul64 :: "size_t \<Rightarrow> size_t \<Rightarrow> size_t" where
  "mul64 a b = (a * b) mod 2 ^ 64"

text \<open>\<open>x & ~(m - 1)\<close> on 64-bit words, for a mask \<open>m - 1\<close>.\<close>

definition and_not64 :: "size_t \<Rightarrow> size_t \<Rightarrow> size_t" where
  "and_not64 x m = unat ((of_nat x :: 64 word) AND NOT (of_nat m))"

text \<open>C++20 \<open>std::has_single_bit\<close>.\<close>

definition has_single_bit :: "nat \<Rightarrow> bool" where
  "has_single_bit n \<longleftrightarrow> n \<noteq> 0 \<and> n AND (n - 1) = 0"

text \<open>
  \<open>std::align(alignment, size, ptr, space)\<close>: the first address at or after \<open>ptr\<close> that is a
  multiple of \<open>alignment\<close>, if \<open>size\<close> bytes still fit into the \<open>space\<close> bytes starting at \<open>ptr\<close>. The
  outer \<open>None\<close> is the undefined behaviour for an alignment that is not a power of two; the
  inner one is the null pointer \<open>std::align\<close> returns when the request does not fit.
\<close>

definition align_up :: "nat \<Rightarrow> nat \<Rightarrow> nat" where
  "align_up al p = (p + (al - 1)) div al * al"

definition std_align :: "size_t \<Rightarrow> size_t \<Rightarrow> addr \<Rightarrow> size_t \<Rightarrow> addr option option" where
  "std_align al sz p space =
     (if \<not> has_single_bit al then None
      else Some (if sz \<le> space \<and> align_up al p - p \<le> space - sz then Some (align_up al p) else None))"

subsection \<open>Assertions\<close>

definition assert_opt :: "bool \<Rightarrow> unit option" where
  "assert_opt P = (if P then Some () else None)"

lemma assert_opt_bind [simp]: "Option.bind (assert_opt P) f = (if P then f () else None)"
  by (simp add: assert_opt_def)

lemma assert_opt_True [simp]: "assert_opt True = Some ()"
  by (simp add: assert_opt_def)

subsection \<open>Laws of the machine arithmetic\<close>

lemma add64_eq [simp]: "a + b < 2 ^ 64 \<Longrightarrow> add64 a b = a + b"
  by (simp add: add64_def)

lemma sub64_eq [simp]: "b \<le> a \<Longrightarrow> a < 2 ^ 64 \<Longrightarrow> sub64 a b = a - b"
  by (simp add: sub64_def mod_if)

lemma mul64_eq [simp]: "a * b < 2 ^ 64 \<Longrightarrow> mul64 a b = a * b"
  by (simp add: mul64_def)

lemma add64_word: "add64 a b = unat ((of_nat a :: 64 word) + of_nat b)"
  by (simp add: add64_def unat_word_ariths unat_of_nat mod_simps)

lemma sub64_word: "sub64 a b = unat ((of_nat a :: 64 word) - of_nat b)"
proof -
  define k where "k = 2 ^ 64 - b mod 2 ^ 64"
  have "k + b mod 2 ^ 64 = 2 ^ 64" by (simp add: k_def)
  then have "(of_nat (k + b mod 2 ^ 64) :: 64 word) = of_nat (2 ^ 64)" by simp
  moreover have "(of_nat (2 ^ 64) :: 64 word) = 0"
    by (simp add: word_unat_eq_iff unat_of_nat)
  moreover have "(of_nat (b mod 2 ^ 64) :: 64 word) = of_nat b"
    by (simp add: word_unat_eq_iff unat_of_nat)
  ultimately have "(of_nat k :: 64 word) + of_nat b = 0"
    by (metis of_nat_add)
  then have k: "(of_nat k :: 64 word) = - of_nat b"
    by (simp add: eq_neg_iff_add_eq_0)
  have "sub64 a b = unat (of_nat (a + k) :: 64 word)"
    unfolding sub64_def k_def [symmetric] by (simp add: unat_of_nat del: of_nat_add)
  also have "\<dots> = unat ((of_nat a :: 64 word) - of_nat b)"
    by (simp add: k)
  finally show ?thesis .
qed

lemma add64_less [simp]: "add64 a b < 2 ^ 64"
  by (simp add: add64_def)

lemma sub64_less [simp]: "sub64 a b < 2 ^ 64"
  by (simp add: sub64_def)

text \<open>Clearing the low \<open>k\<close> bits rounds down to a multiple of \<open>2 ^ k\<close>.\<close>

lemma and_not_mask_word: "(w :: 'a::len word) AND NOT (mask k) = push_bit k (drop_bit k w)"
  by (rule bit_eqI) (auto simp: bit_simps)

lemma and_not64_mask:
  assumes "x < 2 ^ 64" "k \<le> 64"
  shows "and_not64 x (2 ^ k - 1) = x div 2 ^ k * 2 ^ k"
proof -
  have "(of_nat (2 ^ k - 1) :: 64 word) = mask k"
    by (simp add: mask_eq_exp_minus_1 of_nat_diff)
  then have "and_not64 x (2 ^ k - 1) = unat (push_bit k (drop_bit k (of_nat x :: 64 word)))"
    by (simp only: and_not64_def and_not_mask_word)
  also have "\<dots> = take_bit 64 (push_bit k (drop_bit k x))"
    using assms(1) by (simp add: unsigned_push_bit_eq unsigned_drop_bit_eq unsigned_of_nat take_bit_nat_eq_self)
  also have "push_bit k (drop_bit k x) = x div 2 ^ k * 2 ^ k"
    by (simp add: push_bit_eq_mult drop_bit_eq_div)
  also have "take_bit 64 (x div 2 ^ k * 2 ^ k) = x div 2 ^ k * 2 ^ k"
    using assms(1) div_times_less_eq_dividend [of x "2 ^ k"] by (intro take_bit_nat_eq_self) linarith
  finally show ?thesis .
qed

lemma has_single_bit_power: "has_single_bit (2 ^ k)"
proof -
  have "(2 ^ k :: nat) AND (2 ^ k - 1) = take_bit k (2 ^ k)"
    by (simp add: take_bit_eq_mask mask_eq_exp_minus_1)
  then show ?thesis by (simp add: has_single_bit_def)
qed

lemma has_single_bit_pos: "has_single_bit n \<Longrightarrow> 0 < n"
  by (simp add: has_single_bit_def)

lemma and_pred_double: "(2 * n) AND (2 * n - 1) = 2 * (n AND (n - 1))" for n :: nat
proof (cases n)
  case 0
  then show ?thesis by simp
next
  case (Suc m)
  then have "2 * n - 1 = 1 + 2 * (n - 1)" by simp
  moreover have "(2 * n) AND (1 + 2 * (n - 1)) = 2 * (n AND (n - 1))"
    by (simp add: and_nat_rec [of "2 * n"])
  ultimately show ?thesis by simp
qed

text \<open>A number with a single bit is a power of two, so \<open>std::align\<close> rounds to one.\<close>

lemma has_single_bit_iff: "has_single_bit n \<longleftrightarrow> (\<exists>k. n = 2 ^ k)"
proof
  show "has_single_bit n \<Longrightarrow> \<exists>k. n = 2 ^ k"
  proof (induction n rule: less_induct)
    case (less n)
    show ?case
    proof (cases "even n")
      case True
      then obtain m where m: "n = 2 * m" by (rule evenE)
      with less.prems have "has_single_bit m" and "m < n"
        by (auto simp: has_single_bit_def and_pred_double [simplified])
      then obtain k where "m = 2 ^ k" using less.IH by blast
      with m have "n = 2 ^ Suc k" by simp
      then show ?thesis by blast
    next
      case False
      then obtain m where m: "n = 2 * m + 1" by (rule oddE)
      have "n AND (n - 1) = 2 * m"
        unfolding m by (simp add: and_nat_rec [of "Suc (2 * m)"])
      with less.prems m have "n = 2 ^ 0"
        by (simp add: has_single_bit_def)
      then show ?thesis by blast
    qed
  qed
  show "\<exists>k. n = 2 ^ k \<Longrightarrow> has_single_bit n"
    using has_single_bit_power by blast
qed

end
