(* ===== verification/Alloc_Log.thy ===== *)
theory Alloc_Log
  imports Mmap_Prelude "HOL-Library.Signed_Division"
begin

text \<open>
  The debug log of the allocator (\<open>OpLogEntry\<close>, \<open>AllocLog\<close> and \<open>g_log\<close> in
  \<open>src/src/allocator/free_list.cpp\<close>): a circular buffer of the last 256 tree operations, indexed by
  a signed 32-bit counter. \<open>g_log\<close> is thread-local; the allocator model threads it through its
  state. The contents of \<open>entries\<close> outside the array bounds stand for whatever memory surrounds
  the array.
\<close>

record OpLogEntry =
  op :: string
  op_node :: addr
  op_parent :: addr
  op_left :: addr
  op_right :: addr
  op_size :: size_t

definition kMaxLog :: int where
  "kMaxLog = 256"

record AllocLog =
  entries :: "int \<Rightarrow> OpLogEntry"
  tail :: int

text \<open>A C++ \<open>int\<close> holds 32 bits; the increment past \<open>2 ^ 31 - 1\<close> is taken to wrap around.\<close>

definition wrap32 :: "int \<Rightarrow> int" where
  "wrap32 x = (x + 2 ^ 31) mod 2 ^ 32 - 2 ^ 31"

definition log_add :: "AllocLog \<Rightarrow> string \<Rightarrow> addr \<Rightarrow> addr \<Rightarrow> addr \<Rightarrow> addr \<Rightarrow> size_t \<Rightarrow> AllocLog" where
  "log_add g o' n p l r s =
     g\<lparr>entries := (entries g)(tail g smod kMaxLog :=
         \<lparr>op = o', op_node = n, op_parent = p, op_left = l, op_right = r, op_size = s\<rparr>),
       tail := wrap32 (tail g + 1)\<rparr>"

text \<open>The lines \<open>dump\<close> prints, in order: the index and the entry of each.\<close>

definition log_dump :: "AllocLog \<Rightarrow> (int \<times> OpLogEntry) list" where
  "log_dump g =
     (let count = min (tail g) kMaxLog;
          start = (if tail g > kMaxLog then tail g smod kMaxLog else 0)
      in map (\<lambda>i. let idx = (start + int i) smod kMaxLog in (idx, entries g idx)) [0..<nat count])"

text \<open>A zero-initialised log.\<close>

definition zero_log :: AllocLog where
  "zero_log = \<lparr>entries = \<lambda>_. \<lparr>op = [], op_node = 0, op_parent = 0, op_left = 0, op_right = 0, op_size = 0\<rparr>,
     tail = 0\<rparr>"

definition log_entry :: "AllocLog \<Rightarrow> OpLogEntry \<Rightarrow> AllocLog" where
  "log_entry g e = log_add g (op e) (op_node e) (op_parent e) (op_left e) (op_right e) (op_size e)"

lemma smod_nonneg: "0 \<le> x \<Longrightarrow> x smod 256 = x mod (256 :: int)"
  by (cases "x = 0") (auto simp: signed_modulo_int_def)

lemma log_entry_eq:
  assumes "0 \<le> tail g" "tail g < 2 ^ 31 - 1"
  shows "log_entry g e = \<lparr>entries = (entries g)(tail g mod 256 := e), tail = tail g + 1\<rparr>"
proof -
  have "tail g smod 256 = tail g mod 256" using assms(1) by (rule smod_nonneg)
  moreover have "wrap32 (tail g + 1) = tail g + 1" using assms by (simp add: wrap32_def)
  ultimately show ?thesis by (cases g; cases e) (simp add: log_entry_def log_add_def kMaxLog_def)
qed

text \<open>After logging \<open>es\<close> the array holds the last 256 entries of it.\<close>

lemma log_holds_last:
  assumes "tail g = 0" "length es < 2 ^ 31"
  shows "tail (foldl log_entry g es) = int (length es) \<and>
    (\<forall>j < length es. length es \<le> j + 256 \<longrightarrow> entries (foldl log_entry g es) (int j mod 256) = es ! j)"
  using assms(2)
proof (induction es rule: rev_induct)
  case Nil
  then show ?case using assms(1) by simp
next
  case (snoc e es)
  let ?g = "foldl log_entry g es" and ?n = "length es"
  have t: "tail ?g = int ?n" and old: "\<And>j. j < ?n \<Longrightarrow> ?n \<le> j + 256 \<Longrightarrow> entries ?g (int j mod 256) = es ! j"
    using snoc by auto
  have step: "foldl log_entry g (es @ [e]) = \<lparr>entries = (entries ?g)(int ?n mod 256 := e), tail = int ?n + 1\<rparr>"
    using log_entry_eq [of ?g e] t snoc.prems by simp
  have "entries (foldl log_entry g (es @ [e])) (int j mod 256) = (es @ [e]) ! j"
    if j: "j < length (es @ [e])" "length (es @ [e]) \<le> j + 256" for j
  proof (cases "j = ?n")
    case True
    then show ?thesis unfolding step by simp
  next
    case False
    then have lt: "j < ?n" "?n < j + 256" using j by auto
    have "int j mod 256 \<noteq> int ?n mod 256"
    proof
      assume "int j mod 256 = int ?n mod 256"
      then have "256 dvd int ?n - int j" by (metis mod_eq_dvd_iff)
      then show False using lt by (auto dest: zdvd_imp_le)
    qed
    then show ?thesis unfolding step using old [OF lt(1)] lt by (simp add: nth_append)
  qed
  then show ?case unfolding step by simp
qed

text \<open>When the allocator aborts, the dump shows the recent history faithfully: as long as fewer than
  \<open>2 ^ 31\<close> operations were logged, \<open>dump\<close> prints the last 256 of them (all, if there are fewer), oldest
  first.\<close>

lemma log_dump_shows_last:
  assumes "tail g = 0" "length es < 2 ^ 31"
  shows "map snd (log_dump (foldl log_entry g es)) = drop (length es - 256) es"
proof -
  let ?g = "foldl log_entry g es" and ?n = "length es"
  have t: "tail ?g = int ?n" and e: "\<And>j. j < ?n \<Longrightarrow> ?n \<le> j + 256 \<Longrightarrow> entries ?g (int j mod 256) = es ! j"
    using log_holds_last [OF assms] by auto
  let ?start = "if 256 < int ?n then int ?n mod 256 else 0"
  have dump: "map snd (log_dump ?g) = map (\<lambda>i. entries ?g ((?start + int i) mod 256)) [0..<nat (min (int ?n) 256)]"
  proof -
    have "int ?n smod 256 = int ?n mod 256" "(?start + int i) smod 256 = (?start + int i) mod 256" for i
      by (simp_all add: smod_nonneg)
    then show ?thesis unfolding log_dump_def Let_def kMaxLog_def t by (simp only: map_map comp_def snd_conv)
  qed
  show ?thesis unfolding dump
  proof (rule nth_equalityI)
    show "length (map (\<lambda>i. entries ?g ((?start + int i) mod 256)) [0..<nat (min (int ?n) 256)]) = length (drop (?n - 256) es)"
      by (simp add: min_def)
    fix i assume "i < length (map (\<lambda>i. entries ?g ((?start + int i) mod 256)) [0..<nat (min (int ?n) 256)])"
    then have i: "i < ?n" "i < 256" by (auto simp: min_def split: if_splits)
    let ?j = "?n - 256 + i"
    have "(?start + int i) mod 256 = int ?j mod 256"
    proof (cases "256 < ?n")
      case True
      then have "int ?j = int ?n + int i - 256" by simp
      then show ?thesis using True by (simp add: mod_simps)
    next
      case False
      then show ?thesis by simp
    qed
    then show "map (\<lambda>i. entries ?g ((?start + int i) mod 256)) [0..<nat (min (int ?n) 256)] ! i = drop (?n - 256) es ! i"
      using e [of ?j] i by (simp add: min_def split: if_splits)
  qed
qed

end
