(* ===== verification/Free_Block_Tree.thy ===== *)
theory Free_Block_Tree
  imports Alloc_Log
begin

text \<open>
  The intrusive, address-ordered red-black tree of free blocks
  (\<open>src/src/allocator/free_list.hpp\<close> and \<open>free_list.cpp\<close>): the \<open>FreeBlock\<close> nodes live in a typed
  store from addresses to nodes, the operations read and write it field by field in the order of
  the source. Reading or writing a field at an address that holds no \<open>FreeBlock\<close> and every
  \<open>std::abort\<close> of the source are the result \<open>None\<close>.
\<close>

subsection \<open>Nodes and allocator state\<close>

datatype Color = Red | Black

record FreeBlock =
  bsize :: size_t
  parent :: addr
  left :: addr
  right :: addr
  subtree_max :: size_t
  color :: Color

definition kMinBlockSize :: size_t where
  "kMinBlockSize = 48"

definition kSmallBlockQuantum :: size_t where
  "kSmallBlockQuantum = 16"

definition kNumSmallClasses :: nat where
  "kNumSmallClasses = 8"

definition kMaxSmallBlockSize :: size_t where
  "kMaxSmallBlockSize = kSmallBlockQuantum * kNumSmallClasses"

text \<open>
  The data members of \<open>FreeListAllocator\<close>, with the storage they point into: \<open>fl_mem\<close> is the
  store of \<open>FreeBlock\<close> nodes, \<open>fl_next\<close> that of the \<open>FreeNode\<close>s of the segregated lists, \<open>fl_log\<close> the
  calling thread's \<open>g_log\<close>.
\<close>

record fl_state =
  fl_base :: addr
  fl_size :: size_t
  fl_root :: addr
  fl_nil :: addr
  fl_lists :: "addr list"
  fl_allocated :: size_t
  fl_blocks :: size_t
  fl_mem :: "addr \<rightharpoonup> FreeBlock"
  fl_next :: "addr \<rightharpoonup> addr"
  fl_log :: AllocLog

definition rd :: "(FreeBlock \<Rightarrow> 'a) \<Rightarrow> fl_state \<Rightarrow> addr \<Rightarrow> 'a option" where
  "rd f s p = map_option f (fl_mem s p)"

definition wr :: "fl_state \<Rightarrow> addr \<Rightarrow> (FreeBlock \<Rightarrow> FreeBlock) \<Rightarrow> fl_state option" where
  "wr s p f = (case fl_mem s p of None \<Rightarrow> None
     | Some b \<Rightarrow> Some (s\<lparr>fl_mem := (fl_mem s)(p \<mapsto> f b)\<rparr>))"

definition ASSERT_NOT_NULL :: "addr \<Rightarrow> unit option" where
  "ASSERT_NOT_NULL p = assert_opt (p \<noteq> nullptr)"

definition SET_PARENT :: "fl_state \<Rightarrow> addr \<Rightarrow> addr \<Rightarrow> fl_state option" where
  "SET_PARENT s n p = do {
     ASSERT_NOT_NULL p;
     if n \<noteq> fl_nil s then wr s n (\<lambda>b. b\<lparr>parent := p\<rparr>) else Some s }"

definition SET_LEFT :: "fl_state \<Rightarrow> addr \<Rightarrow> addr \<Rightarrow> fl_state option" where
  "SET_LEFT s n l = do {
     ASSERT_NOT_NULL n;
     ASSERT_NOT_NULL l;
     wr s n (\<lambda>b. b\<lparr>left := l\<rparr>) }"

definition SET_RIGHT :: "fl_state \<Rightarrow> addr \<Rightarrow> addr \<Rightarrow> fl_state option" where
  "SET_RIGHT s n r = do {
     ASSERT_NOT_NULL n;
     ASSERT_NOT_NULL r;
     wr s n (\<lambda>b. b\<lparr>right := r\<rparr>) }"

definition SET_COLOR :: "fl_state \<Rightarrow> addr \<Rightarrow> Color \<Rightarrow> fl_state option" where
  "SET_COLOR s n c = wr s n (\<lambda>b. b\<lparr>color := c\<rparr>)"

definition SET_MAX :: "fl_state \<Rightarrow> addr \<Rightarrow> size_t \<Rightarrow> fl_state option" where
  "SET_MAX s n m = wr s n (\<lambda>b. b\<lparr>subtree_max := m\<rparr>)"

text \<open>\<open>g_log.add(op, x, x->parent, x->left, x->right, x->size)\<close>.\<close>

definition log_node :: "fl_state \<Rightarrow> string \<Rightarrow> addr \<Rightarrow> fl_state option" where
  "log_node s o' x = do {
     b \<leftarrow> fl_mem s x;
     Some (s\<lparr>fl_log := log_add (fl_log s) o' x (parent b) (left b) (right b) (bsize b)\<rparr>) }"

subsection \<open>The subtree maximum\<close>

definition update_max :: "fl_state \<Rightarrow> addr \<Rightarrow> fl_state option" where
  "update_max s x =
     (if x = fl_nil s \<or> x = nullptr then Some s
      else do {
        sz \<leftarrow> rd bsize s x;
        s \<leftarrow> SET_MAX s x sz;
        l \<leftarrow> rd left s x;
        s \<leftarrow> (if l \<noteq> fl_nil s then do {
                 m \<leftarrow> rd subtree_max s x;
                 ml \<leftarrow> rd subtree_max s l;
                 SET_MAX s x (max m ml) }
              else Some s);
        r \<leftarrow> rd right s x;
        if r \<noteq> fl_nil s then do {
          m \<leftarrow> rd subtree_max s x;
          mr \<leftarrow> rd subtree_max s r;
          SET_MAX s x (max m mr) }
        else Some s })"

partial_function (option) update_max_upwards :: "fl_state \<Rightarrow> addr \<Rightarrow> fl_state option" where
  "update_max_upwards s x =
     (if x \<noteq> fl_nil s \<and> x \<noteq> nullptr then do {
        old_max \<leftarrow> rd subtree_max s x;
        s \<leftarrow> update_max s x;
        x \<leftarrow> rd parent s x;
        update_max_upwards s x }
      else Some s)"

subsection \<open>Rotations\<close>

definition left_rotate :: "fl_state \<Rightarrow> addr \<Rightarrow> fl_state option" where
  "left_rotate s x = do {
     y \<leftarrow> rd right s x;
     ASSERT_NOT_NULL y;
     yl \<leftarrow> rd left s y;
     s \<leftarrow> SET_RIGHT s x yl;
     yl \<leftarrow> rd left s y;
     s \<leftarrow> (if yl \<noteq> fl_nil s then SET_PARENT s yl x else Some s);
     xp \<leftarrow> rd parent s x;
     s \<leftarrow> SET_PARENT s y xp;
     xp \<leftarrow> rd parent s x;
     s \<leftarrow> (if xp = fl_nil s then Some (s\<lparr>fl_root := y\<rparr>)
           else do {
             xpl \<leftarrow> rd left s xp;
             if x = xpl then SET_LEFT s xp y else SET_RIGHT s xp y });
     s \<leftarrow> SET_LEFT s y x;
     s \<leftarrow> SET_PARENT s x y;
     s \<leftarrow> log_node s ''left_rotate'' x;
     m \<leftarrow> rd subtree_max s x;
     s \<leftarrow> SET_MAX s y m;
     s \<leftarrow> update_max s x;
     update_max s y }"

definition right_rotate :: "fl_state \<Rightarrow> addr \<Rightarrow> fl_state option" where
  "right_rotate s x = do {
     y \<leftarrow> rd left s x;
     ASSERT_NOT_NULL y;
     yr \<leftarrow> rd right s y;
     s \<leftarrow> SET_LEFT s x yr;
     yr \<leftarrow> rd right s y;
     s \<leftarrow> (if yr \<noteq> fl_nil s then SET_PARENT s yr x else Some s);
     xp \<leftarrow> rd parent s x;
     s \<leftarrow> SET_PARENT s y xp;
     xp \<leftarrow> rd parent s x;
     s \<leftarrow> (if xp = fl_nil s then Some (s\<lparr>fl_root := y\<rparr>)
           else do {
             xpr \<leftarrow> rd right s xp;
             if x = xpr then SET_RIGHT s xp y else SET_LEFT s xp y });
     s \<leftarrow> SET_RIGHT s y x;
     s \<leftarrow> SET_PARENT s x y;
     s \<leftarrow> log_node s ''right_rotate'' x;
     m \<leftarrow> rd subtree_max s x;
     s \<leftarrow> SET_MAX s y m;
     s \<leftarrow> update_max s x;
     update_max s y }"

subsection \<open>Insertion\<close>

partial_function (option) rb_insert_fixup_loop :: "fl_state \<Rightarrow> addr \<Rightarrow> fl_state option" where
  "rb_insert_fixup_loop s z = do {
     red_parent \<leftarrow> (if z = nullptr then Some False else do {
        p \<leftarrow> rd parent s z;
        if p = nullptr then Some False else do {
          c \<leftarrow> rd color s p;
          Some (c = Red) } });
     if \<not> red_parent then Some s
     else do {
       p \<leftarrow> rd parent s z;
       pp \<leftarrow> rd parent s p;
       ASSERT_NOT_NULL pp;
       ppl \<leftarrow> rd left s pp;
       if p = ppl then do {
         y \<leftarrow> rd right s pp;
         yc \<leftarrow> rd color s y;
         if yc = Red then do {
           s \<leftarrow> SET_COLOR s p Black;
           s \<leftarrow> SET_COLOR s y Black;
           s \<leftarrow> SET_COLOR s pp Red;
           rb_insert_fixup_loop s pp }
         else do {
           pr \<leftarrow> rd right s p;
           (s, z) \<leftarrow> (if z = pr then do {
              s \<leftarrow> left_rotate s p;
              Some (s, p) } else Some (s, z));
           p \<leftarrow> rd parent s z;
           s \<leftarrow> SET_COLOR s p Black;
           pp \<leftarrow> rd parent s p;
           s \<leftarrow> SET_COLOR s pp Red;
           s \<leftarrow> right_rotate s pp;
           rb_insert_fixup_loop s z } }
       else do {
         y \<leftarrow> rd left s pp;
         yc \<leftarrow> rd color s y;
         if yc = Red then do {
           s \<leftarrow> SET_COLOR s p Black;
           s \<leftarrow> SET_COLOR s y Black;
           s \<leftarrow> SET_COLOR s pp Red;
           rb_insert_fixup_loop s pp }
         else do {
           pl \<leftarrow> rd left s p;
           (s, z) \<leftarrow> (if z = pl then do {
              s \<leftarrow> right_rotate s p;
              Some (s, p) } else Some (s, z));
           p \<leftarrow> rd parent s z;
           s \<leftarrow> SET_COLOR s p Black;
           pp \<leftarrow> rd parent s p;
           s \<leftarrow> SET_COLOR s pp Red;
           s \<leftarrow> left_rotate s pp;
           rb_insert_fixup_loop s z } } } }"

definition rb_insert_fixup :: "fl_state \<Rightarrow> addr \<Rightarrow> fl_state option" where
  "rb_insert_fixup s z = do {
     s \<leftarrow> rb_insert_fixup_loop s z;
     SET_COLOR s (fl_root s) Black }"

text \<open>The search loop of \<open>insert_node\<close>: the last node \<open>y\<close> before the search from \<open>x\<close> reaches \<open>nil\<close>.\<close>

partial_function (option) insert_descend :: "fl_state \<Rightarrow> addr \<Rightarrow> addr \<Rightarrow> addr \<Rightarrow> addr option" where
  "insert_descend s z y x =
     (if x \<noteq> fl_nil s then do {
        ASSERT_NOT_NULL x;
        x' \<leftarrow> (if z < x then rd left s x else rd right s x);
        insert_descend s z x x' }
      else Some y)"

definition insert_node :: "fl_state \<Rightarrow> addr \<Rightarrow> fl_state option" where
  "insert_node s z =
     (if z = nullptr \<or> z = fl_nil s then Some s
      else do {
        sz \<leftarrow> rd bsize s z;
        assert_opt (\<not> (sz > 1024 * 1024 * 1024 \<or> sz = 0));
        assert_opt (z mod 16 = 0);
        y \<leftarrow> insert_descend s z (fl_nil s) (fl_root s);
        ASSERT_NOT_NULL y;
        s \<leftarrow> wr s z (\<lambda>b. b\<lparr>parent := y\<rparr>);
        s \<leftarrow> (if y = fl_nil s then Some (s\<lparr>fl_root := z\<rparr>)
              else if z < y then wr s y (\<lambda>b. b\<lparr>left := z\<rparr>)
              else wr s y (\<lambda>b. b\<lparr>right := z\<rparr>));
        ASSERT_NOT_NULL (fl_nil s);
        s \<leftarrow> wr s z (\<lambda>b. b\<lparr>left := fl_nil s\<rparr>);
        s \<leftarrow> wr s z (\<lambda>b. b\<lparr>right := fl_nil s\<rparr>);
        s \<leftarrow> SET_COLOR s z Red;
        sz \<leftarrow> rd bsize s z;
        s \<leftarrow> SET_MAX s z sz;
        s \<leftarrow> log_node s ''insert_node'' z;
        s \<leftarrow> update_max_upwards s z;
        rb_insert_fixup s z })"

subsection \<open>Order queries\<close>

partial_function (option) minimum :: "fl_state \<Rightarrow> addr \<Rightarrow> addr option" where
  "minimum s x = do {
     l \<leftarrow> rd left s x;
     if l \<noteq> fl_nil s then minimum s l else Some x }"

partial_function (option) maximum :: "fl_state \<Rightarrow> addr \<Rightarrow> addr option" where
  "maximum s x = do {
     r \<leftarrow> rd right s x;
     if r \<noteq> fl_nil s then maximum s r else Some x }"

text \<open>The upward loops of \<open>predecessor\<close> and \<open>successor\<close>.\<close>

partial_function (option) climb_left :: "fl_state \<Rightarrow> addr \<Rightarrow> addr \<Rightarrow> addr option" where
  "climb_left s x y =
     (if y \<noteq> fl_nil s then do {
        l \<leftarrow> rd left s y;
        if x = l then do {
          y' \<leftarrow> rd parent s y;
          climb_left s y y' }
        else Some y }
      else Some y)"

partial_function (option) climb_right :: "fl_state \<Rightarrow> addr \<Rightarrow> addr \<Rightarrow> addr option" where
  "climb_right s x y =
     (if y \<noteq> fl_nil s then do {
        r \<leftarrow> rd right s y;
        if x = r then do {
          y' \<leftarrow> rd parent s y;
          climb_right s y y' }
        else Some y }
      else Some y)"

definition predecessor :: "fl_state \<Rightarrow> addr \<Rightarrow> addr option" where
  "predecessor s x = do {
     l \<leftarrow> rd left s x;
     if l \<noteq> fl_nil s then maximum s l
     else do {
       y \<leftarrow> rd parent s x;
       climb_left s x y } }"

definition successor :: "fl_state \<Rightarrow> addr \<Rightarrow> addr option" where
  "successor s x = do {
     r \<leftarrow> rd right s x;
     if r \<noteq> fl_nil s then minimum s r
     else do {
       y \<leftarrow> rd parent s x;
       climb_right s x y } }"

subsection \<open>First fit\<close>

partial_function (option) find_first_fit_from :: "fl_state \<Rightarrow> size_t \<Rightarrow> addr \<Rightarrow> addr option" where
  "find_first_fit_from s sz x =
     (if x \<noteq> fl_nil s then do {
        l \<leftarrow> rd left s x;
        go_left \<leftarrow> (if l \<noteq> fl_nil s then do {
             m \<leftarrow> rd subtree_max s l;
             Some (m \<ge> sz) } else Some False);
        if go_left then find_first_fit_from s sz l
        else do {
          xs \<leftarrow> rd bsize s x;
          if xs \<ge> sz then Some x
          else do {
            r \<leftarrow> rd right s x;
            go_right \<leftarrow> (if r \<noteq> fl_nil s then do {
                 m \<leftarrow> rd subtree_max s r;
                 Some (m \<ge> sz) } else Some False);
            if go_right then find_first_fit_from s sz r else Some (fl_nil s) } } }
      else Some (fl_nil s))"

definition find_first_fit :: "fl_state \<Rightarrow> size_t \<Rightarrow> addr option" where
  "find_first_fit s sz = find_first_fit_from s sz (fl_root s)"

subsection \<open>Deletion\<close>

definition rb_transplant :: "fl_state \<Rightarrow> addr \<Rightarrow> addr \<Rightarrow> fl_state option" where
  "rb_transplant s u v = do {
     up \<leftarrow> rd parent s u;
     s \<leftarrow> (if up = fl_nil s then Some (s\<lparr>fl_root := v\<rparr>)
           else do {
             upl \<leftarrow> rd left s up;
             if u = upl then SET_LEFT s up v else SET_RIGHT s up v });
     if v \<noteq> fl_nil s then do {
       up \<leftarrow> rd parent s u;
       SET_PARENT s v up }
     else Some s }"

partial_function (option) rb_delete_fixup_loop ::
    "fl_state \<Rightarrow> addr \<Rightarrow> addr \<Rightarrow> (fl_state \<times> addr) option" where
  "rb_delete_fixup_loop s x x_parent = do {
     continue \<leftarrow> (if x = fl_root s then Some False
        else if x = fl_nil s then Some True
        else if x = nullptr then Some False
        else do {
          c \<leftarrow> rd color s x;
          Some (c = Black) });
     if \<not> continue then Some (s, x)
     else do {
       ASSERT_NOT_NULL x_parent;
       xpl \<leftarrow> rd left s x_parent;
       if x = xpl then do {
         w \<leftarrow> rd right s x_parent;
         wc \<leftarrow> rd color s w;
         (s, w) \<leftarrow> (if wc = Red then do {
            s \<leftarrow> SET_COLOR s w Black;
            s \<leftarrow> SET_COLOR s x_parent Red;
            s \<leftarrow> left_rotate s x_parent;
            w \<leftarrow> rd right s x_parent;
            Some (s, w) } else Some (s, w));
         wl \<leftarrow> rd left s w;
         wlc \<leftarrow> rd color s wl;
         both_black \<leftarrow> (if wlc = Black then do {
            wr' \<leftarrow> rd right s w;
            wrc \<leftarrow> rd color s wr';
            Some (wrc = Black) } else Some False);
         if both_black then do {
           s \<leftarrow> (if w \<noteq> fl_nil s then SET_COLOR s w Red else Some s);
           xpp \<leftarrow> rd parent s x_parent;
           rb_delete_fixup_loop s x_parent xpp }
         else do {
           wr' \<leftarrow> rd right s w;
           wrc \<leftarrow> rd color s wr';
           (s, w) \<leftarrow> (if wrc = Black then do {
              wl \<leftarrow> rd left s w;
              s \<leftarrow> SET_COLOR s wl Black;
              s \<leftarrow> SET_COLOR s w Red;
              s \<leftarrow> right_rotate s w;
              w \<leftarrow> rd right s x_parent;
              Some (s, w) } else Some (s, w));
           xpc \<leftarrow> rd color s x_parent;
           s \<leftarrow> SET_COLOR s w xpc;
           s \<leftarrow> SET_COLOR s x_parent Black;
           wr' \<leftarrow> rd right s w;
           s \<leftarrow> SET_COLOR s wr' Black;
           s \<leftarrow> left_rotate s x_parent;
           rb_delete_fixup_loop s (fl_root s) x_parent } }
       else do {
         w \<leftarrow> rd left s x_parent;
         wc \<leftarrow> rd color s w;
         (s, w) \<leftarrow> (if wc = Red then do {
            s \<leftarrow> SET_COLOR s w Black;
            s \<leftarrow> SET_COLOR s x_parent Red;
            s \<leftarrow> right_rotate s x_parent;
            w \<leftarrow> rd left s x_parent;
            Some (s, w) } else Some (s, w));
         wr' \<leftarrow> rd right s w;
         wrc \<leftarrow> rd color s wr';
         both_black \<leftarrow> (if wrc = Black then do {
            wl \<leftarrow> rd left s w;
            wlc \<leftarrow> rd color s wl;
            Some (wlc = Black) } else Some False);
         if both_black then do {
           s \<leftarrow> (if w \<noteq> fl_nil s then SET_COLOR s w Red else Some s);
           xpp \<leftarrow> rd parent s x_parent;
           rb_delete_fixup_loop s x_parent xpp }
         else do {
           wl \<leftarrow> rd left s w;
           wlc \<leftarrow> rd color s wl;
           (s, w) \<leftarrow> (if wlc = Black then do {
              wr' \<leftarrow> rd right s w;
              s \<leftarrow> SET_COLOR s wr' Black;
              s \<leftarrow> SET_COLOR s w Red;
              s \<leftarrow> left_rotate s w;
              w \<leftarrow> rd left s x_parent;
              Some (s, w) } else Some (s, w));
           xpc \<leftarrow> rd color s x_parent;
           s \<leftarrow> SET_COLOR s w xpc;
           s \<leftarrow> SET_COLOR s x_parent Black;
           wl \<leftarrow> rd left s w;
           s \<leftarrow> SET_COLOR s wl Black;
           s \<leftarrow> right_rotate s x_parent;
           rb_delete_fixup_loop s (fl_root s) x_parent } } } }"

definition rb_delete_fixup :: "fl_state \<Rightarrow> addr \<Rightarrow> addr \<Rightarrow> fl_state option" where
  "rb_delete_fixup s x x_parent = do {
     (s, x) \<leftarrow> rb_delete_fixup_loop s x x_parent;
     if x \<noteq> fl_nil s then SET_COLOR s x Black else Some s }"

text \<open>
  The three ways \<open>delete_node\<close> unlinks \<open>z\<close>; the result holds the local variables \<open>y\<close>, \<open>x\<close>,
  \<open>y_original_color\<close>, \<open>x_parent\<close> and \<open>fix_start\<close>.
\<close>

definition delete_splice ::
    "fl_state \<Rightarrow> addr \<Rightarrow> (fl_state \<times> addr \<times> addr \<times> Color \<times> addr \<times> addr) option" where
  "delete_splice s z = do {
     yc \<leftarrow> rd color s z;
     zl \<leftarrow> rd left s z;
     if zl = fl_nil s then do {
       x \<leftarrow> rd right s z;
       x_parent \<leftarrow> rd parent s z;
       s \<leftarrow> rb_transplant s z x;
       fix_start \<leftarrow> rd parent s z;
       Some (s, z, x, yc, x_parent, fix_start) }
     else do {
       zr \<leftarrow> rd right s z;
       if zr = fl_nil s then do {
         x \<leftarrow> rd left s z;
         x_parent \<leftarrow> rd parent s z;
         s \<leftarrow> rb_transplant s z x;
         fix_start \<leftarrow> rd parent s z;
         Some (s, z, x, yc, x_parent, fix_start) }
       else do {
         y \<leftarrow> minimum s zr;
         yc \<leftarrow> rd color s y;
         x \<leftarrow> rd right s y;
         yp \<leftarrow> rd parent s y;
         (s, x_parent, fix_start) \<leftarrow> (if yp = z then Some (s, y, y)
            else do {
              s \<leftarrow> rb_transplant s y x;
              zr \<leftarrow> rd right s z;
              s \<leftarrow> SET_RIGHT s y zr;
              yr \<leftarrow> rd right s y;
              s \<leftarrow> SET_PARENT s yr y;
              fix_start \<leftarrow> rd parent s y;
              Some (s, yp, fix_start) });
         s \<leftarrow> rb_transplant s z y;
         zl \<leftarrow> rd left s z;
         s \<leftarrow> SET_LEFT s y zl;
         yl \<leftarrow> rd left s y;
         s \<leftarrow> SET_PARENT s yl y;
         zc \<leftarrow> rd color s z;
         s \<leftarrow> SET_COLOR s y zc;
         Some (s, y, x, yc, x_parent, fix_start) } } }"

definition delete_node :: "fl_state \<Rightarrow> addr \<Rightarrow> fl_state option" where
  "delete_node s z = do {
     (s, y, x, y_original_color, x_parent, fix_start) \<leftarrow> delete_splice s z;
     s \<leftarrow> log_node s ''delete_node'' z;
     s \<leftarrow> (if y \<noteq> z then update_max s y else Some s);
     s \<leftarrow> update_max_upwards s fix_start;
     if y_original_color = Black then rb_delete_fixup s x x_parent else Some s }"

subsection \<open>The self-check\<close>

partial_function (option) verify_tree :: "fl_state \<Rightarrow> addr \<Rightarrow> unit option" where
  "verify_tree s x =
     (if x = fl_nil s \<or> x = nullptr then Some ()
      else do {
        assert_opt (x mod 16 = 0);
        l \<leftarrow> rd left s x;
        (if l \<noteq> fl_nil s then do {
           lp \<leftarrow> rd parent s l;
           assert_opt (lp = x);
           verify_tree s l } else Some ());
        r \<leftarrow> rd right s x;
        (if r \<noteq> fl_nil s then do {
           rp \<leftarrow> rd parent s r;
           assert_opt (rp = x);
           verify_tree s r } else Some ());
        sz \<leftarrow> rd bsize s x;
        expected_max \<leftarrow> (if l \<noteq> fl_nil s then do {
             m \<leftarrow> rd subtree_max s l;
             Some (max sz m) } else Some sz);
        expected_max \<leftarrow> (if r \<noteq> fl_nil s then do {
             m \<leftarrow> rd subtree_max s r;
             Some (max expected_max m) } else Some expected_max);
        xm \<leftarrow> rd subtree_max s x;
        assert_opt (xm = expected_max) })"

end
