(* ===== verification/RB_Shape.thy ===== *)
theory RB_Shape
  imports Free_Block_Tree
begin

text \<open>
  What the pointer structure of \<open>Free_Block_Tree\<close> means: the functional tree a heap holds, contexts
  (the path from a node up to the root with the subtrees hanging off it), the predicate \<open>tree_at\<close>
  that relates a state to the tree it stores, the red-black and maximum invariants of trees and of
  contexts, and the frame relation between the states before and after a tree operation.
\<close>

subsection \<open>Trees and contexts\<close>

datatype rbt = Lf | Nd Color rbt addr size_t size_t rbt

datatype frame = FL Color addr size_t size_t rbt | FR Color rbt addr size_t size_t

fun ptr :: "addr \<Rightarrow> rbt \<Rightarrow> addr" where
  "ptr nl Lf = nl"
| "ptr nl (Nd c l a s x r) = a"

fun blocks :: "rbt \<Rightarrow> (addr \<times> size_t) list" where
  "blocks Lf = []"
| "blocks (Nd c l a s x r) = blocks l @ (a, s) # blocks r"

fun addrs :: "rbt \<Rightarrow> addr list" where
  "addrs Lf = []"
| "addrs (Nd c l a s x r) = addrs l @ a # addrs r"

fun plug :: "frame list \<Rightarrow> rbt \<Rightarrow> rbt" where
  "plug [] t = t"
| "plug (FL c a s x r # k) t = plug k (Nd c t a s x r)"
| "plug (FR c l a s x # k) t = plug k (Nd c l a s x t)"

fun par :: "addr \<Rightarrow> frame list \<Rightarrow> addr" where
  "par nl [] = nl"
| "par nl (FL c a s x r # k) = a"
| "par nl (FR c l a s x # k) = a"

text \<open>The addresses a context holds before and after its hole, in address order.\<close>

fun cpre :: "frame list \<Rightarrow> (addr \<times> size_t) list" where
  "cpre [] = []"
| "cpre (FL c a s x r # k) = cpre k"
| "cpre (FR c l a s x # k) = cpre k @ blocks l @ [(a, s)]"

fun cpost :: "frame list \<Rightarrow> (addr \<times> size_t) list" where
  "cpost [] = []"
| "cpost (FL c a s x r # k) = (a, s) # blocks r @ cpost k"
| "cpost (FR c l a s x # k) = cpost k"

fun cset :: "frame list \<Rightarrow> addr set" where
  "cset [] = {}"
| "cset (FL c a s x r # k) = insert a (set (addrs r) \<union> cset k)"
| "cset (FR c l a s x # k) = insert a (set (addrs l) \<union> cset k)"

subsection \<open>Representation in the heap\<close>

fun rep :: "addr \<Rightarrow> (addr \<rightharpoonup> FreeBlock) \<Rightarrow> addr \<Rightarrow> rbt \<Rightarrow> bool" where
  "rep nl m p Lf = True"
| "rep nl m p (Nd c l a s x r) =
     (m a = Some \<lparr>bsize = s, parent = p, left = ptr nl l, right = ptr nl r,
                  subtree_max = x, color = c\<rparr> \<and> rep nl m a l \<and> rep nl m a r)"

fun rep_ctx :: "addr \<Rightarrow> (addr \<rightharpoonup> FreeBlock) \<Rightarrow> addr \<Rightarrow> addr \<Rightarrow> frame list \<Rightarrow> bool" where
  "rep_ctx nl m rt p [] = (rt = p)"
| "rep_ctx nl m rt p (FL c a s x r # k) =
     (m a = Some \<lparr>bsize = s, parent = par nl k, left = p, right = ptr nl r,
                  subtree_max = x, color = c\<rparr> \<and> rep nl m a r \<and> rep_ctx nl m rt a k)"
| "rep_ctx nl m rt p (FR c l a s x # k) =
     (m a = Some \<lparr>bsize = s, parent = par nl k, left = ptr nl l, right = p,
                  subtree_max = x, color = c\<rparr> \<and> rep nl m a l \<and> rep_ctx nl m rt a k)"

definition nil_block :: "addr \<Rightarrow> FreeBlock" where
  "nil_block nl = \<lparr>bsize = 0, parent = nl, left = nl, right = nl, subtree_max = 0, color = Black\<rparr>"

definition tree_at :: "fl_state \<Rightarrow> rbt \<Rightarrow> bool" where
  "tree_at s T \<longleftrightarrow>
     fl_root s = ptr (fl_nil s) T \<and> rep (fl_nil s) (fl_mem s) (fl_nil s) T \<and>
     sorted_wrt (<) (addrs T) \<and> fl_nil s \<notin> set (addrs T) \<and> 0 \<notin> set (addrs T) \<and>
     fl_nil s \<noteq> 0 \<and> fl_mem s (fl_nil s) = Some (nil_block (fl_nil s))"

text \<open>A tree operation changes the nodes at \<open>A\<close>, the root pointer and the log, nothing else.\<close>

definition fl_frame :: "addr set \<Rightarrow> fl_state \<Rightarrow> fl_state \<Rightarrow> bool" where
  "fl_frame A s s' \<longleftrightarrow>
     (\<forall>b. b \<notin> A \<longrightarrow> fl_mem s' b = fl_mem s b) \<and>
     fl_base s' = fl_base s \<and> fl_size s' = fl_size s \<and> fl_nil s' = fl_nil s \<and>
     fl_lists s' = fl_lists s \<and> fl_allocated s' = fl_allocated s \<and>
     fl_blocks s' = fl_blocks s \<and> fl_next s' = fl_next s"

subsection \<open>Red-black and maximum invariants\<close>

fun rc :: "rbt \<Rightarrow> Color" where
  "rc Lf = Black"
| "rc (Nd c l a s x r) = c"

fun bh :: "rbt \<Rightarrow> nat" where
  "bh Lf = 0"
| "bh (Nd c l a s x r) = (if c = Black then Suc (bh l) else bh l)"

fun invc :: "rbt \<Rightarrow> bool" where
  "invc Lf = True"
| "invc (Nd c l a s x r) =
     ((c = Red \<longrightarrow> rc l = Black \<and> rc r = Black) \<and> invc l \<and> invc r)"

fun invh :: "rbt \<Rightarrow> bool" where
  "invh Lf = True"
| "invh (Nd c l a s x r) = (bh l = bh r \<and> invh l \<and> invh r)"

fun tmax :: "rbt \<Rightarrow> size_t" where
  "tmax Lf = 0"
| "tmax (Nd c l a s x r) = x"

fun mok :: "rbt \<Rightarrow> bool" where
  "mok Lf = True"
| "mok (Nd c l a s x r) = (x = max (max s (tmax l)) (tmax r) \<and> mok l \<and> mok r)"

fun hctx :: "nat \<Rightarrow> frame list \<Rightarrow> bool" where
  "hctx h [] = True"
| "hctx h (FL c a s x r # k) =
     (bh r = h \<and> invh r \<and> hctx (if c = Black then Suc h else h) k)"
| "hctx h (FR c l a s x # k) =
     (bh l = h \<and> invh l \<and> hctx (if c = Black then Suc h else h) k)"

fun cctx :: "Color \<Rightarrow> frame list \<Rightarrow> bool" where
  "cctx d [] = True"
| "cctx d (FL c a s x r # k) =
     ((c = Red \<longrightarrow> d = Black \<and> rc r = Black) \<and> invc r \<and> cctx c k)"
| "cctx d (FR c l a s x # k) =
     ((c = Red \<longrightarrow> d = Black \<and> rc l = Black) \<and> invc l \<and> cctx c k)"

fun mctx :: "size_t \<Rightarrow> frame list \<Rightarrow> bool" where
  "mctx m [] = True"
| "mctx m (FL c a s x r # k) = (x = max (max s m) (tmax r) \<and> mok r \<and> mctx x k)"
| "mctx m (FR c l a s x # k) = (x = max (max s (tmax l)) m \<and> mok l \<and> mctx x k)"

fun fcol :: "frame \<Rightarrow> Color" where
  "fcol (FL c a s x r) = c"
| "fcol (FR c l a s x) = c"

definition cbot :: "frame list \<Rightarrow> bool" where
  "cbot k \<longleftrightarrow> (k \<noteq> [] \<longrightarrow> fcol (last k) = Black)"

definition rbt_ok :: "rbt \<Rightarrow> bool" where
  "rbt_ok T \<longleftrightarrow> invc T \<and> invh T \<and> mok T \<and> rc T = Black"

fun paint :: "Color \<Rightarrow> rbt \<Rightarrow> rbt" where
  "paint c Lf = Lf"
| "paint c (Nd d l a s x r) = Nd c l a s x r"

subsection \<open>Trees, contexts and plugging\<close>

text \<open>The conditional rules for \<open>max\<close> blow up on the nested maxima of the tree invariants.\<close>

declare max.absorb1 [simp del] max.absorb2 [simp del] max.absorb3 [simp del] max.absorb4 [simp del]

lemma addrs_blocks: "addrs t = map fst (blocks t)"
  by (induction t) auto

lemma blocks_plug: "blocks (plug k t) = cpre k @ blocks t @ cpost k"
  by (induction k t rule: plug.induct) auto

lemma addrs_plug: "addrs (plug k t) = map fst (cpre k) @ addrs t @ map fst (cpost k)"
  by (simp add: addrs_blocks blocks_plug)

lemma cset_eq: "cset k = fst ` set (cpre k) \<union> fst ` set (cpost k)"
  by (induction k rule: cset.induct) (auto simp: addrs_blocks)

lemma set_addrs_plug: "set (addrs (plug k t)) = cset k \<union> set (addrs t)"
  by (auto simp: addrs_plug cset_eq)

lemma plug_append: "plug (k @ k') t = plug k' (plug k t)"
  by (induction k t rule: plug.induct) auto

lemma cpre_append [simp]: "cpre (k @ k') = cpre k' @ cpre k"
  by (induction k rule: cpre.induct) auto

lemma cpost_append [simp]: "cpost (k @ k') = cpost k @ cpost k'"
  by (induction k rule: cpost.induct) auto

lemma plug_not_Lf: "k \<noteq> [] \<Longrightarrow> plug k t \<noteq> Lf"
proof (induction k t rule: plug.induct)
  case (2 c a s x r k t)
  then show ?case by (cases k) auto
next
  case (3 c l a s x k t)
  then show ?case by (cases k) auto
qed simp

lemma invc_plug: "invc (plug k t) \<longleftrightarrow> invc t \<and> cctx (rc t) k"
  by (induction k t rule: plug.induct) auto

lemma invh_plug: "invh (plug k t) \<longleftrightarrow> invh t \<and> hctx (bh t) k"
  by (induction k t rule: plug.induct) auto

lemma mok_plug: "mok (plug k t) \<longleftrightarrow> mok t \<and> mctx (tmax t) k"
  by (induction k t rule: plug.induct) auto

lemma rc_plug: "rc (plug k t) = (if k = [] then rc t else fcol (last k))"
  by (induction k t rule: plug.induct) auto

lemma rbt_ok_plug:
  "rbt_ok (plug k t) \<longleftrightarrow> invc t \<and> cctx (rc t) k \<and> invh t \<and> hctx (bh t) k \<and> mok t \<and>
     mctx (tmax t) k \<and> (if k = [] then rc t = Black else fcol (last k) = Black)"
  by (auto simp: rbt_ok_def invc_plug invh_plug mok_plug rc_plug)

subsection \<open>Focusing the representation\<close>

lemma rep_plug:
  "ptr nl (plug k t) = rt \<and> rep nl m nl (plug k t) \<longleftrightarrow>
   rep nl m (par nl k) t \<and> rep_ctx nl m rt (ptr nl t) k"
  by (induction k t rule: plug.induct) auto

lemma rep_upd [simp]: "a \<notin> set (addrs t) \<Longrightarrow> rep nl (m(a := v)) p t = rep nl m p t"
  by (induction t arbitrary: p) auto

lemma rep_ctx_upd [simp]: "a \<notin> cset k \<Longrightarrow> rep_ctx nl (m(a := v)) rt p k = rep_ctx nl m rt p k"
  by (induction k arbitrary: p rule: cset.induct) auto

lemma rep_cong: "(\<And>a. a \<in> set (addrs t) \<Longrightarrow> m' a = m a) \<Longrightarrow> rep nl m' p t = rep nl m p t"
  by (induction t arbitrary: p) auto

lemma rep_dom: "rep nl m p t \<Longrightarrow> a \<in> set (addrs t) \<Longrightarrow> \<exists>b. m a = Some b"
  by (induction t arbitrary: p) auto

lemma ptr_in: "t \<noteq> Lf \<Longrightarrow> ptr nl t \<in> set (addrs t)"
  by (cases t) auto

lemma ptr_nil_iff: "nl \<notin> set (addrs t) \<Longrightarrow> ptr nl t = nl \<longleftrightarrow> t = Lf"
  by (cases t) auto

end
