(* ===== verification/RB_Steps.thy ===== *)
theory RB_Steps
  imports RB_Shape
begin

text \<open>
  Symbolic execution of the pointer operations on a focused tree: single field writes, colour
  changes, \<open>update_max\<close> and the two rotations, each as a step from a state that holds
  \<open>plug k t\<close> to one that holds the rearranged tree in the same context.
\<close>

fun dctx :: "frame list \<Rightarrow> bool" where
  "dctx [] = True"
| "dctx (FL c a s x r # k) =
     (a \<notin> set (addrs r) \<and> a \<notin> cset k \<and> distinct (addrs r) \<and> set (addrs r) \<inter> cset k = {} \<and> dctx k)"
| "dctx (FR c l a s x # k) =
     (a \<notin> set (addrs l) \<and> a \<notin> cset k \<and> distinct (addrs l) \<and> set (addrs l) \<inter> cset k = {} \<and> dctx k)"

lemma distinct_plug:
  "distinct (addrs (plug k t)) \<longleftrightarrow> distinct (addrs t) \<and> dctx k \<and> set (addrs t) \<inter> cset k = {}"
  by (induction k t rule: plug.induct) (auto simp: Int_Un_distrib)

lemma sorted_wrt_less_distinct: "sorted_wrt (<) (xs :: nat list) \<Longrightarrow> distinct xs"
  by (simp add: strict_sorted_iff)

lemma tree_at_plug:
  "tree_at s (plug k t) \<longleftrightarrow>
     rep (fl_nil s) (fl_mem s) (par (fl_nil s) k) t \<and>
     rep_ctx (fl_nil s) (fl_mem s) (fl_root s) (ptr (fl_nil s) t) k \<and>
     sorted_wrt (<) (addrs (plug k t)) \<and>
     distinct (addrs t) \<and> dctx k \<and> set (addrs t) \<inter> cset k = {} \<and>
     fl_nil s \<notin> set (addrs t) \<and> fl_nil s \<notin> cset k \<and> 0 \<notin> set (addrs t) \<and> 0 \<notin> cset k \<and>
     fl_nil s \<noteq> 0 \<and> fl_mem s (fl_nil s) = Some (nil_block (fl_nil s))"
  unfolding tree_at_def
  using rep_plug [of "fl_nil s" k t "fl_root s" "fl_mem s"] distinct_plug [of k t]
    sorted_wrt_less_distinct [of "addrs (plug k t)"]
  by (auto simp: set_addrs_plug)

definition tmx :: "addr \<Rightarrow> (addr \<rightharpoonup> FreeBlock) \<Rightarrow> addr \<Rightarrow> size_t" where
  "tmx nl m p = (if p = nl then 0 else case m p of None \<Rightarrow> 0 | Some b \<Rightarrow> subtree_max b)"

lemma tmx_rep: "rep nl m p t \<Longrightarrow> nl \<notin> set (addrs t) \<Longrightarrow> tmx nl m (ptr nl t) = tmax t"
  by (cases t) (auto simp: tmx_def)

lemma tmx_upd: "a \<noteq> p \<Longrightarrow> tmx nl (m(a := v)) p = tmx nl m p"
  by (auto simp: tmx_def)

lemma tmx_same: "p \<noteq> nl \<Longrightarrow> tmx nl (m(p \<mapsto> b)) p = subtree_max b"
  by (auto simp: tmx_def)

lemma update_max_eq:
  assumes "fl_mem s a = Some b" "a \<noteq> fl_nil s" "a \<noteq> 0" "left b \<noteq> a" "right b \<noteq> a"
    "fl_mem s (left b) \<noteq> None" "fl_mem s (right b) \<noteq> None"
  shows "update_max s a = Some (s\<lparr>fl_mem := (fl_mem s)(a \<mapsto> b\<lparr>subtree_max :=
     max (max (bsize b) (tmx (fl_nil s) (fl_mem s) (left b))) (tmx (fl_nil s) (fl_mem s) (right b))\<rparr>)\<rparr>)"
  using assms
  by (auto simp: update_max_def rd_def wr_def SET_MAX_def tmx_def)

lemma rep_sub:
  assumes "rep nl m p t" "nl \<notin> set (addrs t)" "m nl = Some b"
  shows "m (ptr nl t) \<noteq> None" "tmx nl m (ptr nl t) = tmax t"
  using assms by (auto simp: tmx_rep) (cases t; auto)

lemma ptr_neq: "a \<notin> set (addrs t) \<Longrightarrow> a \<noteq> nl \<Longrightarrow> ptr nl t \<noteq> a"
  by (cases t) auto

lemmas [heap_ops] = rd_def wr_def SET_PARENT_def SET_LEFT_def SET_RIGHT_def ASSERT_NOT_NULL_def
  log_node_def SET_MAX_def SET_COLOR_def

fun set_child :: "(addr \<rightharpoonup> FreeBlock) \<Rightarrow> frame list \<Rightarrow> addr \<Rightarrow> (addr \<rightharpoonup> FreeBlock)" where
  "set_child m [] v = m"
| "set_child m (FL c a s x r # k) v = m(a := map_option (\<lambda>b. b\<lparr>left := v\<rparr>) (m a))"
| "set_child m (FR c l a s x # k) v = m(a := map_option (\<lambda>b. b\<lparr>right := v\<rparr>) (m a))"

fun set_par :: "(addr \<rightharpoonup> FreeBlock) \<Rightarrow> rbt \<Rightarrow> addr \<Rightarrow> (addr \<rightharpoonup> FreeBlock)" where
  "set_par m Lf p = m"
| "set_par m (Nd c l a s x r) p = m(a := map_option (\<lambda>b. b\<lparr>parent := p\<rparr>) (m a))"

definition set_root :: "addr \<Rightarrow> frame list \<Rightarrow> addr \<Rightarrow> addr" where
  "set_root rt k v = (if k = [] then v else rt)"

lemma set_child_other [simp]: "a \<notin> cset k \<Longrightarrow> set_child m k v a = m a"
  by (cases "(m, k, v)" rule: set_child.cases) auto

lemma set_par_other [simp]: "a \<notin> set (addrs t) \<Longrightarrow> set_par m t p a = m a"
  by (cases t) auto

lemma rep_set_child [simp]:
  "set (addrs t) \<inter> cset k = {} \<Longrightarrow> rep nl (set_child m k v) p t = rep nl m p t"
  by (rule rep_cong, rule set_child_other) blast

lemma rep_set_par_other [simp]:
  "set (addrs t) \<inter> set (addrs u) = {} \<Longrightarrow> rep nl (set_par m u q) p t = rep nl m p t"
  by (rule rep_cong, rule set_par_other) blast

lemma rep_ctx_cong: "(\<And>a. a \<in> cset k \<Longrightarrow> m' a = m a) \<Longrightarrow> rep_ctx nl m' rt p k = rep_ctx nl m rt p k"
  by (induction k arbitrary: p rule: cset.induct) (auto cong: rep_cong)

lemma rep_ctx_set_par [simp]:
  "set (addrs u) \<inter> cset k = {} \<Longrightarrow> rep_ctx nl (set_par m u q) rt p k = rep_ctx nl m rt p k"
  by (rule rep_ctx_cong, rule set_par_other) blast

lemma rep_set_par: "rep nl m q t \<Longrightarrow> distinct (addrs t) \<Longrightarrow> rep nl (set_par m t p) p t"
  by (cases t) auto

lemma rep_ctx_set_child:
  "rep_ctx nl m rt q k \<Longrightarrow> dctx k \<Longrightarrow> rep_ctx nl (set_child m k v) (set_root rt k v) v k"
  by (cases "(m, k, v)" rule: set_child.cases) (auto simp: set_root_def)

lemma relink_left:
  assumes "rep_ctx nl (fl_mem s) (fl_root s) x k" "fl_nil s = nl" "v \<noteq> 0" "x \<notin> cset k" "x \<noteq> nl"
    "nl \<notin> cset k" "0 \<notin> cset k"
  shows "(if par nl k = nl then Some (s\<lparr>fl_root := v\<rparr>)
     else rd left s (par nl k) \<bind> (\<lambda>xpl. if x = xpl then SET_LEFT s (par nl k) v else SET_RIGHT s (par nl k) v)) =
     Some (s\<lparr>fl_root := set_root (fl_root s) k v, fl_mem := set_child (fl_mem s) k v\<rparr>)"
proof (cases k)
  case (Cons f k')
  show ?thesis
  proof (cases f)
    case (FR c l a z m)
    then have "ptr nl l \<noteq> x" using assms Cons by (simp add: ptr_neq)
    then show ?thesis using assms Cons FR by (auto simp: heap_ops set_root_def)
  qed (use assms Cons in \<open>auto simp: heap_ops set_root_def\<close>)
qed (use assms in \<open>simp add: set_root_def\<close>)

lemma relink_right:
  assumes "rep_ctx nl (fl_mem s) (fl_root s) x k" "fl_nil s = nl" "v \<noteq> 0" "x \<notin> cset k" "x \<noteq> nl"
    "nl \<notin> cset k" "0 \<notin> cset k"
  shows "(if par nl k = nl then Some (s\<lparr>fl_root := v\<rparr>)
     else rd right s (par nl k) \<bind> (\<lambda>xpr. if x = xpr then SET_RIGHT s (par nl k) v else SET_LEFT s (par nl k) v)) =
     Some (s\<lparr>fl_root := set_root (fl_root s) k v, fl_mem := set_child (fl_mem s) k v\<rparr>)"
proof (cases k)
  case (Cons f k')
  show ?thesis
  proof (cases f)
    case (FL c a z m r)
    then have "ptr nl r \<noteq> x" using assms Cons by (simp add: ptr_neq)
    then show ?thesis using assms Cons FL by (auto simp: heap_ops set_root_def)
  qed (use assms Cons in \<open>auto simp: heap_ops set_root_def\<close>)
qed (use assms in \<open>simp add: set_root_def\<close>)

lemma bind_weak: "m = m' \<Longrightarrow> Option.bind m f = Option.bind m' f"
  by simp

lemma heap_exec:
  "fl_mem s p = Some b \<Longrightarrow> rd f s p = Some (f b)"
  "fl_mem s p = Some b \<Longrightarrow> wr s p g = Some (s\<lparr>fl_mem := (fl_mem s)(p \<mapsto> g b)\<rparr>)"
  "v \<noteq> 0 \<Longrightarrow> ASSERT_NOT_NULL v = Some ()"
  "fl_mem s p = Some b \<Longrightarrow> p \<noteq> 0 \<Longrightarrow> v \<noteq> 0 \<Longrightarrow> SET_LEFT s p v = Some (s\<lparr>fl_mem := (fl_mem s)(p \<mapsto> b\<lparr>left := v\<rparr>)\<rparr>)"
  "fl_mem s p = Some b \<Longrightarrow> p \<noteq> 0 \<Longrightarrow> v \<noteq> 0 \<Longrightarrow> SET_RIGHT s p v = Some (s\<lparr>fl_mem := (fl_mem s)(p \<mapsto> b\<lparr>right := v\<rparr>)\<rparr>)"
  "fl_mem s p = Some b \<Longrightarrow> p \<noteq> fl_nil s \<Longrightarrow> v \<noteq> 0 \<Longrightarrow> SET_PARENT s p v = Some (s\<lparr>fl_mem := (fl_mem s)(p \<mapsto> b\<lparr>parent := v\<rparr>)\<rparr>)"
  "fl_mem s p = Some b \<Longrightarrow> SET_MAX s p v = Some (s\<lparr>fl_mem := (fl_mem s)(p \<mapsto> b\<lparr>subtree_max := v\<rparr>)\<rparr>)"
  "fl_mem s p = Some b \<Longrightarrow> SET_COLOR s p d = Some (s\<lparr>fl_mem := (fl_mem s)(p \<mapsto> b\<lparr>color := d\<rparr>)\<rparr>)"
  "fl_mem s p = Some b \<Longrightarrow> log_node s o' p =
     Some (s\<lparr>fl_log := log_add (fl_log s) o' p (parent b) (left b) (right b) (bsize b)\<rparr>)"
  by (simp_all add: heap_ops)

lemma SET_PARENT_if:
  assumes "fl_nil s = nl" "fl_mem s (ptr nl t) \<noteq> None" "nl \<notin> set (addrs t)" "p \<noteq> 0"
  shows "(if ptr nl t \<noteq> nl then SET_PARENT s (ptr nl t) p else Some s) = Some (s\<lparr>fl_mem := set_par (fl_mem s) t p\<rparr>)"
  using assms by (cases t) (auto simp: heap_ops)

lemma SET_PARENT_at:
  assumes "fl_nil s = nl" "fl_mem s (ptr nl t) \<noteq> None" "nl \<notin> set (addrs t)" "p \<noteq> 0"
  shows "SET_PARENT s (ptr nl t) p = Some (s\<lparr>fl_mem := set_par (fl_mem s) t p\<rparr>)"
  using assms by (cases t) (auto simp: heap_ops)

lemma par_nz: "nl \<noteq> 0 \<Longrightarrow> 0 \<notin> cset k \<Longrightarrow> par nl k \<noteq> 0"
  by (cases "(nl, k)" rule: par.cases) auto

lemma ptr_nz: "nl \<noteq> 0 \<Longrightarrow> 0 \<notin> set (addrs t) \<Longrightarrow> ptr nl t \<noteq> 0"
  by (cases t) auto

lemma update_max_node:
  assumes "rep nl (fl_mem s) p (Nd c l a z x r)" "fl_nil s = nl" "a \<noteq> nl" "a \<noteq> 0"
    "a \<notin> set (addrs l)" "a \<notin> set (addrs r)" "nl \<notin> set (addrs l)" "nl \<notin> set (addrs r)"
    "fl_mem s nl = Some b"
  shows "update_max s a = Some (s\<lparr>fl_mem := (fl_mem s)(a \<mapsto>
     \<lparr>bsize = z, parent = p, left = ptr nl l, right = ptr nl r,
      subtree_max = max (max z (tmax l)) (tmax r), color = c\<rparr>)\<rparr>)"
proof -
  have "ptr nl l \<noteq> a" "ptr nl r \<noteq> a" using assms by (simp_all add: ptr_neq)
  moreover have "rep nl (fl_mem s) a l" "rep nl (fl_mem s) a r" using assms by simp_all
  ultimately show ?thesis
    using assms rep_sub [of nl "fl_mem s" a l b] rep_sub [of nl "fl_mem s" a r b]
    by (simp add: update_max_eq del: not_None_eq)
qed

lemma tree_node:
  assumes "tree_at s (plug k (Nd c l a z x r))"
  shows "fl_mem s a = Some \<lparr>bsize = z, parent = par (fl_nil s) k, left = ptr (fl_nil s) l,
    right = ptr (fl_nil s) r, subtree_max = x, color = c\<rparr>"
    "a \<noteq> fl_nil s" "a \<noteq> 0"
  using assms by (auto simp: tree_at_plug)

lemma node_upd:
  assumes "tree_at s (plug k (Nd c l a z x r))"
  shows "tree_at (s\<lparr>fl_mem := (fl_mem s)(a \<mapsto> \<lparr>bsize = z', parent = par (fl_nil s) k,
    left = ptr (fl_nil s) l, right = ptr (fl_nil s) r, subtree_max = x', color = c'\<rparr>)\<rparr>)
    (plug k (Nd c' l a z' x' r))"
  using assms by (auto simp: tree_at_plug addrs_plug)

lemma fl_frame_upd: "a \<in> A \<Longrightarrow> fl_frame A s (s\<lparr>fl_mem := (fl_mem s)(a := v)\<rparr>)"
  by (auto simp: fl_frame_def)

lemma fl_frame_trans: "fl_frame A s s' \<Longrightarrow> fl_frame B s' s'' \<Longrightarrow> A \<subseteq> C \<Longrightarrow> B \<subseteq> C \<Longrightarrow> fl_frame C s s''"
  unfolding fl_frame_def by (metis subsetD)

lemma fl_frame_trans1 [trans]: "fl_frame A s s' \<Longrightarrow> fl_frame A s' s'' \<Longrightarrow> fl_frame A s s''"
  by (rule fl_frame_trans) auto

lemma fl_frame_mono: "fl_frame A s s' \<Longrightarrow> A \<subseteq> C \<Longrightarrow> fl_frame C s s'"
  unfolding fl_frame_def by blast

lemma SET_COLOR_at:
  assumes "tree_at s (plug k (Nd c l a z x r))"
  shows "\<exists>s'. SET_COLOR s a c' = Some s' \<and> tree_at s' (plug k (Nd c' l a z x r)) \<and>
    fl_frame (set (addrs (plug k (Nd c l a z x r)))) s s'"
  using tree_node [OF assms] node_upd [OF assms, of z x c']
  by (simp add: heap_exec fl_frame_upd set_addrs_plug)

lemma update_max_at:
  assumes "tree_at s (plug k (Nd c l a z x r))"
  shows "\<exists>s'. update_max s a = Some s' \<and>
    tree_at s' (plug k (Nd c l a z (max (max z (tmax l)) (tmax r)) r)) \<and>
    fl_frame (set (addrs (plug k (Nd c l a z x r)))) s s'"
proof -
  have "update_max s a = Some (s\<lparr>fl_mem := (fl_mem s)(a \<mapsto>
     \<lparr>bsize = z, parent = par (fl_nil s) k, left = ptr (fl_nil s) l, right = ptr (fl_nil s) r,
      subtree_max = max (max z (tmax l)) (tmax r), color = c\<rparr>)\<rparr>)"
    using assms by (intro update_max_node) (auto simp: tree_at_plug)
  then show ?thesis
    using node_upd [OF assms, of z "max (max z (tmax l)) (tmax r)" c]
    by (simp add: fl_frame_upd set_addrs_plug)
qed

lemma rotate_finish_left:
  assumes F: "fl_frame S s s0" "S = set (addrs (plug k (Nd cy (Nd cx A x sx mx B) y sy my C)))"
    and t0: "tree_at s0 (plug k (Nd cy (Nd cx A x sx mx B) y sy my C))"
  defines "mx' \<equiv> max (max sx (tmax A)) (tmax B)"
  shows "\<exists>s'. update_max s0 x \<bind> (\<lambda>s. update_max s y) = Some s' \<and>
     tree_at s' (plug k (Nd cy (Nd cx A x sx mx' B) y sy (max (max sy mx') (tmax C)) C)) \<and>
     fl_frame S s s'"
proof -
  obtain s1 where 1: "update_max s0 x = Some s1" "tree_at s1 (plug k (Nd cy (Nd cx A x sx mx' B) y sy my C))"
     "fl_frame S s0 s1"
    using update_max_at [of s0 "FL cy y sy my C # k" cx A x sx mx B] t0 F(2)
    by (auto simp: mx'_def)
  obtain s2 where 2: "update_max s1 y = Some s2"
     "tree_at s2 (plug k (Nd cy (Nd cx A x sx mx' B) y sy (max (max sy mx') (tmax C)) C))"
     "fl_frame S s1 s2"
    using update_max_at [OF 1(2)] F(2) by (auto simp: set_addrs_plug)
  from F(1) 1(3) 2(3) have "fl_frame S s s2" by (meson fl_frame_trans order_refl)
  with 1 2 show ?thesis by simp
qed

lemma rotate_finish_right:
  assumes F: "fl_frame S s s0" "S = set (addrs (plug k (Nd cy C y sy my (Nd cx B x sx mx A))))"
    and t0: "tree_at s0 (plug k (Nd cy C y sy my (Nd cx B x sx mx A)))"
  defines "mx' \<equiv> max (max sx (tmax B)) (tmax A)"
  shows "\<exists>s'. update_max s0 x \<bind> (\<lambda>s. update_max s y) = Some s' \<and>
     tree_at s' (plug k (Nd cy C y sy (max (max sy (tmax C)) mx') (Nd cx B x sx mx' A))) \<and>
     fl_frame S s s'"
proof -
  obtain s1 where 1: "update_max s0 x = Some s1" "tree_at s1 (plug k (Nd cy C y sy my (Nd cx B x sx mx' A)))"
     "fl_frame S s0 s1"
    using update_max_at [of s0 "FR cy C y sy my # k" cx B x sx mx A] t0 F(2)
    by (auto simp: mx'_def)
  obtain s2 where 2: "update_max s1 y = Some s2"
     "tree_at s2 (plug k (Nd cy C y sy (max (max sy (tmax C)) mx') (Nd cx B x sx mx' A)))"
     "fl_frame S s1 s2"
    using update_max_at [OF 1(2)] F(2) by (auto simp: set_addrs_plug)
  from F(1) 1(3) 2(3) have "fl_frame S s s2" by (meson fl_frame_trans order_refl)
  with 1 2 show ?thesis by simp
qed

lemma left_rotate_at:
  assumes T: "tree_at s (plug k (Nd cx A x sx mx (Nd cy B y sy my C)))"
  defines "mx' \<equiv> max (max sx (tmax A)) (tmax B)"
  defines "my' \<equiv> max (max sy mx') (tmax C)"
  shows "\<exists>s'. left_rotate s x = Some s' \<and>
     tree_at s' (plug k (Nd cy (Nd cx A x sx mx' B) y sy my' C)) \<and>
     fl_frame (set (addrs (plug k (Nd cx A x sx mx (Nd cy B y sy my C))))) s s'"
proof -
  note T' = T [unfolded tree_at_plug]
  define nl where "nl = fl_nil s"
  define m where "m = fl_mem s"
  have f: "m x = Some \<lparr>bsize = sx, parent = par nl k, left = ptr nl A, right = y, subtree_max = mx, color = cx\<rparr>"
    "m y = Some \<lparr>bsize = sy, parent = x, left = ptr nl B, right = ptr nl C, subtree_max = my, color = cy\<rparr>"
    "rep nl m x A" "rep nl m y B" "rep nl m y C" "rep_ctx nl m (fl_root s) x k"
    "m nl = Some (nil_block nl)"
    using T' by (simp_all add: nl_def m_def)
  have d: "x \<noteq> y" "x \<noteq> nl" "y \<noteq> nl" "x \<noteq> 0" "y \<noteq> 0" "nl \<noteq> 0" "x \<notin> cset k" "y \<notin> cset k" "nl \<notin> cset k" "0 \<notin> cset k"
    "x \<notin> set (addrs A)" "x \<notin> set (addrs B)" "x \<notin> set (addrs C)"
    "y \<notin> set (addrs A)" "y \<notin> set (addrs B)" "y \<notin> set (addrs C)"
    "nl \<notin> set (addrs A)" "nl \<notin> set (addrs B)" "nl \<notin> set (addrs C)" "0 \<notin> set (addrs B)"
    "set (addrs A) \<inter> set (addrs B) = {}" "set (addrs C) \<inter> set (addrs B) = {}"
    "set (addrs A) \<inter> cset k = {}" "set (addrs B) \<inter> cset k = {}" "set (addrs C) \<inter> cset k = {}"
    "dctx k" "distinct (addrs B)"
    using T' by (auto simp: nl_def m_def)
  have g: "ptr nl A \<noteq> x" "ptr nl A \<noteq> y" "ptr nl B \<noteq> x" "ptr nl B \<noteq> y" "ptr nl C \<noteq> x" "ptr nl C \<noteq> y"
    "m (ptr nl B) \<noteq> None" "par nl k \<noteq> 0" "ptr nl B \<noteq> 0"
    using f d by (simp_all add: ptr_neq rep_sub par_nz ptr_nz)
  define M where "M = (set_child ((set_par (m(x \<mapsto> \<lparr>bsize = sx, parent = par nl k, left = ptr nl A,
        right = ptr nl B, subtree_max = mx, color = cx\<rparr>)) B x)
      (y \<mapsto> \<lparr>bsize = sy, parent = par nl k, left = ptr nl B, right = ptr nl C,
              subtree_max = my, color = cy\<rparr>)) k y)
    (x \<mapsto> \<lparr>bsize = sx, parent = y, left = ptr nl A, right = ptr nl B, subtree_max = mx, color = cx\<rparr>,
     y \<mapsto> \<lparr>bsize = sy, parent = par nl k, left = x, right = ptr nl C, subtree_max = mx, color = cy\<rparr>)"
  define s0 where "s0 = s\<lparr>fl_root := set_root (fl_root s) k y,
    fl_log := log_add (fl_log s) ''left_rotate'' x y (ptr nl A) (ptr nl B) sx, fl_mem := M\<rparr>"
  have run: "left_rotate s x = update_max s0 x \<bind> (\<lambda>s. update_max s y)"
    using f d g
    by (simp add: left_rotate_def nl_def [symmetric] m_def [symmetric] heap_exec SET_PARENT_if
        relink_left s0_def M_def cong: bind_weak del: not_None_eq)
  have "rep nl M (par nl k) (Nd cy (Nd cx A x sx mx B) y sy mx C)" "M nl = Some (nil_block nl)"
    "rep_ctx nl M (set_root (fl_root s) k y) y k"
    using f d by (simp_all add: M_def rep_set_par rep_ctx_set_child)
  then have t0: "tree_at s0 (plug k (Nd cy (Nd cx A x sx mx B) y sy mx C))"
    using T' by (simp add: tree_at_plug s0_def nl_def addrs_plug Int_ac)
  have "fl_frame (set (addrs (plug k (Nd cx A x sx mx (Nd cy B y sy my C))))) s s0"
    by (simp add: fl_frame_def s0_def M_def m_def set_addrs_plug)
  then show ?thesis
    unfolding run mx'_def my'_def
    by (rule rotate_finish_left [OF _ _ t0]) (simp add: set_addrs_plug insert_commute)
qed

lemma right_rotate_at:
  assumes T: "tree_at s (plug k (Nd cx (Nd cy C y sy my B) x sx mx A))"
  defines "mx' \<equiv> max (max sx (tmax B)) (tmax A)"
  defines "my' \<equiv> max (max sy (tmax C)) mx'"
  shows "\<exists>s'. right_rotate s x = Some s' \<and>
     tree_at s' (plug k (Nd cy C y sy my' (Nd cx B x sx mx' A))) \<and>
     fl_frame (set (addrs (plug k (Nd cx (Nd cy C y sy my B) x sx mx A)))) s s'"
proof -
  note T' = T [unfolded tree_at_plug]
  define nl where "nl = fl_nil s"
  define m where "m = fl_mem s"
  have f: "m x = Some \<lparr>bsize = sx, parent = par nl k, left = y, right = ptr nl A, subtree_max = mx, color = cx\<rparr>"
    "m y = Some \<lparr>bsize = sy, parent = x, left = ptr nl C, right = ptr nl B, subtree_max = my, color = cy\<rparr>"
    "rep nl m x A" "rep nl m y B" "rep nl m y C" "rep_ctx nl m (fl_root s) x k"
    "m nl = Some (nil_block nl)"
    using T' by (simp_all add: nl_def m_def)
  have d: "x \<noteq> y" "x \<noteq> nl" "y \<noteq> nl" "x \<noteq> 0" "y \<noteq> 0" "nl \<noteq> 0" "x \<notin> cset k" "y \<notin> cset k" "nl \<notin> cset k" "0 \<notin> cset k"
    "x \<notin> set (addrs A)" "x \<notin> set (addrs B)" "x \<notin> set (addrs C)"
    "y \<notin> set (addrs A)" "y \<notin> set (addrs B)" "y \<notin> set (addrs C)"
    "nl \<notin> set (addrs A)" "nl \<notin> set (addrs B)" "nl \<notin> set (addrs C)" "0 \<notin> set (addrs B)"
    "set (addrs A) \<inter> set (addrs B) = {}" "set (addrs C) \<inter> set (addrs B) = {}"
    "set (addrs A) \<inter> cset k = {}" "set (addrs B) \<inter> cset k = {}" "set (addrs C) \<inter> cset k = {}"
    "dctx k" "distinct (addrs B)"
    using T' by (auto simp: nl_def m_def)
  have g: "ptr nl A \<noteq> x" "ptr nl A \<noteq> y" "ptr nl B \<noteq> x" "ptr nl B \<noteq> y" "ptr nl C \<noteq> x" "ptr nl C \<noteq> y"
    "m (ptr nl B) \<noteq> None" "par nl k \<noteq> 0" "ptr nl B \<noteq> 0"
    using f d by (simp_all add: ptr_neq rep_sub par_nz ptr_nz)
  define M where "M = (set_child ((set_par (m(x \<mapsto> \<lparr>bsize = sx, parent = par nl k, left = ptr nl B,
        right = ptr nl A, subtree_max = mx, color = cx\<rparr>)) B x)
      (y \<mapsto> \<lparr>bsize = sy, parent = par nl k, left = ptr nl C, right = ptr nl B,
              subtree_max = my, color = cy\<rparr>)) k y)
    (x \<mapsto> \<lparr>bsize = sx, parent = y, left = ptr nl B, right = ptr nl A, subtree_max = mx, color = cx\<rparr>,
     y \<mapsto> \<lparr>bsize = sy, parent = par nl k, left = ptr nl C, right = x, subtree_max = mx, color = cy\<rparr>)"
  define s0 where "s0 = s\<lparr>fl_root := set_root (fl_root s) k y,
    fl_log := log_add (fl_log s) ''right_rotate'' x y (ptr nl B) (ptr nl A) sx, fl_mem := M\<rparr>"
  have run: "right_rotate s x = update_max s0 x \<bind> (\<lambda>s. update_max s y)"
    using f d g
    by (simp add: right_rotate_def nl_def [symmetric] m_def [symmetric] heap_exec SET_PARENT_if
        relink_right s0_def M_def cong: bind_weak del: not_None_eq)
  have "rep nl M (par nl k) (Nd cy C y sy mx (Nd cx B x sx mx A))" "M nl = Some (nil_block nl)"
    "rep_ctx nl M (set_root (fl_root s) k y) y k"
    using f d by (simp_all add: M_def rep_set_par rep_ctx_set_child)
  then have t0: "tree_at s0 (plug k (Nd cy C y sy mx (Nd cx B x sx mx A)))"
    using T' by (simp add: tree_at_plug s0_def nl_def addrs_plug Int_ac)
  have "fl_frame (set (addrs (plug k (Nd cx (Nd cy C y sy my B) x sx mx A)))) s s0"
    by (simp add: fl_frame_def s0_def M_def m_def set_addrs_plug)
  then show ?thesis
    unfolding run mx'_def my'_def
    by (rule rotate_finish_right [OF _ _ t0]) (simp add: set_addrs_plug insert_commute)
qed

end
