(* ===== verification/RB_Search.thy ===== *)
theory RB_Search
  imports RB_Steps
begin

text \<open>
  The read-only operations of the tree: \<open>minimum\<close>, \<open>maximum\<close>, \<open>successor\<close>, \<open>predecessor\<close>,
  \<open>find_first_fit\<close> and \<open>verify_tree\<close> return on every well-formed tree, with the values the in-order
  list of blocks determines.
\<close>

subsection \<open>Extremal nodes\<close>

lemma minimum_at:
  assumes "tree_at s (plug k t)" "t \<noteq> Lf"
  shows "\<exists>k' c y sz x r. minimum s (ptr (fl_nil s) t) = Some y \<and> plug k' (Nd c Lf y sz x r) = t \<and>
     cpre k' = []"
  using assms
proof (induction t arbitrary: k)
  case (Nd c l a sz x r)
  show ?case
  proof (cases "l = Lf")
    case True
    then show ?thesis using tree_node [OF Nd.prems(1)]
      by (subst minimum.simps) (auto simp: heap_exec intro!: exI [of _ "[]"])
  next
    case False
    have "ptr (fl_nil s) l \<noteq> fl_nil s"
      using Nd.prems(1) False by (auto simp: tree_at_plug ptr_nil_iff)
    then have "minimum s a = minimum s (ptr (fl_nil s) l)"
      using tree_node [OF Nd.prems(1)] by (subst minimum.simps) (simp add: heap_exec)
    moreover obtain k' c' y sz' x' r' where "minimum s (ptr (fl_nil s) l) = Some y"
      "plug k' (Nd c' Lf y sz' x' r') = l" "cpre k' = []"
      using Nd.IH(1) [of "FL c a sz x r # k"] Nd.prems(1) False by auto
    ultimately show ?thesis
      by (intro exI [of _ "k' @ [FL c a sz x r]"] exI [of _ c'] exI [of _ y] exI [of _ sz']
          exI [of _ x'] exI [of _ r'])
        (auto simp: plug_append)
  qed
qed simp

lemma minimum_hd:
  assumes "tree_at s (plug k t)" "t \<noteq> Lf"
  shows "minimum s (ptr (fl_nil s) t) = Some (fst (hd (blocks t)))"
  using minimum_at [OF assms] by (auto simp: blocks_plug)

lemma maximum_last:
  assumes "tree_at s (plug k t)" "t \<noteq> Lf"
  shows "maximum s (ptr (fl_nil s) t) = Some (fst (last (blocks t)))"
  using assms
proof (induction t arbitrary: k)
  case (Nd c l a sz x r)
  show ?case
  proof (cases "r = Lf")
    case True
    then show ?thesis using tree_node [OF Nd.prems(1)]
      by (subst maximum.simps) (auto simp: heap_exec)
  next
    case False
    then have "ptr (fl_nil s) r \<noteq> fl_nil s" "blocks r \<noteq> []"
      using Nd.prems(1) by (auto simp: tree_at_plug ptr_nil_iff) (cases r; simp)
    then show ?thesis
      using tree_node [OF Nd.prems(1)] Nd.IH(2) [of "FR c l a sz x # k"] Nd.prems(1) False
      by (subst maximum.simps) (simp add: heap_exec)
  qed
qed simp

subsection \<open>Neighbours in address order\<close>

definition first_addr :: "addr \<Rightarrow> (addr \<times> size_t) list \<Rightarrow> addr" where
  "first_addr nl bs = (case bs of [] \<Rightarrow> nl | b # _ \<Rightarrow> fst b)"

definition last_addr :: "addr \<Rightarrow> (addr \<times> size_t) list \<Rightarrow> addr" where
  "last_addr nl bs = (if bs = [] then nl else fst (last bs))"

lemma climb_right_at:
  assumes "tree_at s (plug k t)" "t \<noteq> Lf"
  shows "climb_right s (ptr (fl_nil s) t) (par (fl_nil s) k) = Some (first_addr (fl_nil s) (cpost k))"
  using assms
proof (induction k arbitrary: t)
  case Nil
  then show ?case by (subst climb_right.simps) (simp add: first_addr_def)
next
  case (Cons f k)
  show ?case
  proof (cases f)
    case (FL c a sz x r)
    then have T: "tree_at s (plug k (Nd c t a sz x r))" using Cons.prems by simp
    have "ptr (fl_nil s) t \<noteq> ptr (fl_nil s) r"
      using T Cons.prems(2) by (cases t; cases r) (auto simp: tree_at_plug)
    with tree_node [OF T] FL show ?thesis
      by (subst climb_right.simps) (simp add: heap_exec first_addr_def)
  next
    case (FR c l a sz x)
    then have T: "tree_at s (plug k (Nd c l a sz x t))" using Cons.prems by simp
    from Cons.IH [OF T] tree_node [OF T] FR show ?thesis
      by (subst climb_right.simps) (simp add: heap_exec)
  qed
qed

lemma climb_left_at:
  assumes "tree_at s (plug k t)" "t \<noteq> Lf"
  shows "climb_left s (ptr (fl_nil s) t) (par (fl_nil s) k) = Some (last_addr (fl_nil s) (cpre k))"
  using assms
proof (induction k arbitrary: t)
  case Nil
  then show ?case by (subst climb_left.simps) (simp add: last_addr_def)
next
  case (Cons f k)
  show ?case
  proof (cases f)
    case (FR c l a sz x)
    then have T: "tree_at s (plug k (Nd c l a sz x t))" using Cons.prems by simp
    have "ptr (fl_nil s) t \<noteq> ptr (fl_nil s) l"
      using T Cons.prems(2) by (cases t; cases l) (auto simp: tree_at_plug)
    with tree_node [OF T] FR show ?thesis
      by (subst climb_left.simps) (simp add: heap_exec last_addr_def)
  next
    case (FL c a sz x r)
    then have T: "tree_at s (plug k (Nd c t a sz x r))" using Cons.prems by simp
    from Cons.IH [OF T] tree_node [OF T] FL show ?thesis
      by (subst climb_left.simps) (simp add: heap_exec)
  qed
qed

lemma successor_at:
  assumes T: "tree_at s (plug k (Nd c l a sz x r))"
  shows "successor s a = Some (first_addr (fl_nil s) (blocks r @ cpost k))"
proof (cases "r = Lf")
  case True
  then show ?thesis using climb_right_at [OF T] tree_node [OF T]
    by (simp add: successor_def heap_exec)
next
  case False
  then have "ptr (fl_nil s) r \<noteq> fl_nil s" "blocks r \<noteq> []"
    using T by (auto simp: tree_at_plug ptr_nil_iff) (cases r; simp)
  then show ?thesis
    using minimum_hd [of s "FR c l a sz x # k" r] T tree_node [OF T] False
    by (cases "blocks r") (auto simp: successor_def heap_exec first_addr_def)
qed

lemma predecessor_at:
  assumes T: "tree_at s (plug k (Nd c l a sz x r))"
  shows "predecessor s a = Some (last_addr (fl_nil s) (cpre k @ blocks l))"
proof (cases "l = Lf")
  case True
  then show ?thesis using climb_left_at [OF T] tree_node [OF T]
    by (simp add: predecessor_def heap_exec)
next
  case False
  then have "ptr (fl_nil s) l \<noteq> fl_nil s" "blocks l \<noteq> []"
    using T by (auto simp: tree_at_plug ptr_nil_iff) (cases l; simp)
  then show ?thesis
    using maximum_last [of s "FL c a sz x r # k" l] T tree_node [OF T] False
    by (auto simp: predecessor_def heap_exec last_addr_def)
qed

subsection \<open>First fit\<close>

definition first_fit :: "addr \<Rightarrow> size_t \<Rightarrow> (addr \<times> size_t) list \<Rightarrow> addr" where
  "first_fit nl sz bs = first_addr nl (filter (\<lambda>b. sz \<le> snd b) bs)"

lemma mok_fits: "mok t \<Longrightarrow> t \<noteq> Lf \<Longrightarrow> sz \<le> tmax t \<longleftrightarrow> (\<exists>b \<in> set (blocks t). sz \<le> snd b)"
proof (induction t)
  case (Nd c l a s x r)
  then show ?case by (cases "l = Lf"; cases "r = Lf") (auto simp: le_max_iff_disj)
qed simp

lemma tmax_Max: "mok t \<Longrightarrow> t \<noteq> Lf \<Longrightarrow> tmax t = Max (snd ` set (blocks t))"
proof (induction t)
  case (Nd c l a s x r)
  have ne: "t \<noteq> Lf \<Longrightarrow> blocks t \<noteq> []" for t by (cases t) auto
  from Nd show ?case
    by (cases "l = Lf"; cases "r = Lf")
      (simp_all add: image_Un Max.union ne ac_simps)
qed simp

lemma find_first_fit_from_at:
  assumes "tree_at s (plug k t)" "mok t"
  shows "find_first_fit_from s sz (ptr (fl_nil s) t) = Some (first_fit (fl_nil s) sz (blocks t))"
  using assms
proof (induction t arbitrary: k)
  case Lf
  then show ?case
    by (subst find_first_fit_from.simps) (simp add: first_fit_def first_addr_def)
next
  case (Nd c l a z x r)
  note N = tree_node [OF Nd.prems(1)]
  have l: "tree_at s (plug (FL c a z x r # k) l)" "mok l"
    and r: "tree_at s (plug (FR c l a z x # k) r)" "mok r" using Nd.prems by auto
  have pl: "ptr (fl_nil s) l \<noteq> fl_nil s \<longleftrightarrow> l \<noteq> Lf" and pr: "ptr (fl_nil s) r \<noteq> fl_nil s \<longleftrightarrow> r \<noteq> Lf"
    using Nd.prems(1) by (auto simp: tree_at_plug ptr_nil_iff)
  have ml: "l \<noteq> Lf \<Longrightarrow> rd subtree_max s (ptr (fl_nil s) l) = Some (tmax l)"
    using l(1) by (cases l) (auto simp: tree_at_plug heap_exec)
  have mr: "r \<noteq> Lf \<Longrightarrow> rd subtree_max s (ptr (fl_nil s) r) = Some (tmax r)"
    using r(1) by (cases r) (auto simp: tree_at_plug heap_exec)
  consider (L) "l \<noteq> Lf" "sz \<le> tmax l" | (N) "filter (\<lambda>b. sz \<le> snd b) (blocks l) = []" "\<not> (l \<noteq> Lf \<and> sz \<le> tmax l)"
    using mok_fits [OF l(2), of sz] by (cases "l = Lf") (auto simp: filter_empty_conv)
  then show ?case
  proof cases
    case L
    then obtain b bs where "filter (\<lambda>b. sz \<le> snd b) (blocks l) = b # bs"
      using mok_fits [OF l(2), of sz] by (cases "filter (\<lambda>b. sz \<le> snd b) (blocks l)") (auto simp: filter_empty_conv)
    with L N ml Nd.IH(1) [OF l] pl show ?thesis
      by (subst find_first_fit_from.simps) (simp add: heap_exec first_fit_def first_addr_def cong: bind_weak)
  next
    case N
    note NN = N
    show ?thesis
    proof (cases "z < sz \<and> r \<noteq> Lf \<and> sz \<le> tmax r")
      case True
      with NN N ml mr pl pr Nd.IH(2) [OF r] tree_node [OF Nd.prems(1)] show ?thesis
        by (subst find_first_fit_from.simps) (auto simp: heap_exec first_fit_def first_addr_def cong: bind_weak)
    next
      case False
      then have "z < sz \<Longrightarrow> filter (\<lambda>b. sz \<le> snd b) (blocks r) = []"
        using mok_fits [OF r(2), of sz] by (cases "r = Lf") (auto simp: filter_empty_conv)
      with False NN ml mr pl pr tree_node [OF Nd.prems(1)] show ?thesis
        by (subst find_first_fit_from.simps) (auto simp: heap_exec first_fit_def first_addr_def cong: bind_weak)
    qed
  qed
qed

lemma find_first_fit_at:
  assumes "tree_at s T" "mok T"
  shows "find_first_fit s sz = Some (first_fit (fl_nil s) sz (blocks T))"
  using find_first_fit_from_at [of s "[]" T sz] assms by (simp add: find_first_fit_def tree_at_def)

subsection \<open>The self-check\<close>

lemma verify_tree_at:
  assumes "tree_at s (plug k t)" "mok t" "\<forall>a \<in> set (addrs t). a mod 16 = 0"
  shows "verify_tree s (ptr (fl_nil s) t) = Some ()"
  using assms
proof (induction t arbitrary: k)
  case Lf
  then show ?case by (subst verify_tree.simps) simp
next
  case (Nd c l a z x r)
  note N = tree_node [OF Nd.prems(1)]
  have l: "tree_at s (plug (FL c a z x r # k) l)" "mok l" "\<forall>a \<in> set (addrs l). a mod 16 = 0"
    and r: "tree_at s (plug (FR c l a z x # k) r)" "mok r" "\<forall>a \<in> set (addrs r). a mod 16 = 0"
    using Nd.prems by auto
  have sub: "ptr (fl_nil s) t \<noteq> fl_nil s \<longleftrightarrow> t \<noteq> Lf"
    "t \<noteq> Lf \<Longrightarrow> rd subtree_max s (ptr (fl_nil s) t) = Some (tmax t)"
    "t \<noteq> Lf \<Longrightarrow> rd parent s (ptr (fl_nil s) t) = Some (par (fl_nil s) k)"
    if "tree_at s (plug k t)" for t k
    using that by (cases t; auto simp: tree_at_plug heap_exec)+
  have x: "x = max (max z (tmax l)) (tmax r)" "a mod 16 = 0" using Nd.prems by auto
  show ?case
    using N sub [OF l(1)] sub [OF r(1)] Nd.IH(1) [OF l] Nd.IH(2) [OF r] x
    by (cases "l = Lf"; cases "r = Lf"; subst verify_tree.simps) (simp_all add: heap_exec cong: bind_weak)
qed

lemma verify_root:
  assumes "tree_at s T" "mok T" "\<forall>a \<in> set (addrs T). a mod 16 = 0"
  shows "verify_tree s (fl_root s) = Some ()"
  using verify_tree_at [of s "[]" T] assms by (simp add: tree_at_def)

end
