(* ===== verification/RB_Insert.thy ===== *)
theory RB_Insert
  imports RB_Steps
begin

text \<open>
  \<open>update_max_upwards\<close>, \<open>rb_insert_fixup\<close> and \<open>insert_node\<close> on well-formed trees: insertion
  returns, keeps every red-black, order and maximum invariant, and adds exactly the new block.
\<close>

fun remax :: "size_t \<Rightarrow> frame list \<Rightarrow> frame list" where
  "remax m [] = []"
| "remax m (FL c a s x r # k) =
     FL c a s (max (max s m) (tmax r)) r # remax (max (max s m) (tmax r)) k"
| "remax m (FR c l a s x # k) =
     FR c l a s (max (max s (tmax l)) m) # remax (max (max s (tmax l)) m) k"

fun smok :: "frame list \<Rightarrow> bool" where
  "smok [] = True"
| "smok (FL c a s x r # k) = (mok r \<and> smok k)"
| "smok (FR c l a s x # k) = (mok l \<and> smok k)"

lemma mctx_smok: "mctx m k \<Longrightarrow> smok k"
  by (induction m k rule: mctx.induct) auto

lemma mctx_remax: "smok k \<Longrightarrow> mctx m (remax m k)"
  by (induction m k rule: remax.induct) auto

lemma remax_simps [simp]:
  "cpre (remax m k) = cpre k" "cpost (remax m k) = cpost k" "cset (remax m k) = cset k"
  "hctx h (remax m k) = hctx h k" "cctx d (remax m k) = cctx d k" "remax m k = [] \<longleftrightarrow> k = []"
  "smok (remax m k) = smok k"
  by (induction m k arbitrary: h d rule: remax.induct) auto

lemma fcol_last_remax: "k \<noteq> [] \<Longrightarrow> fcol (last (remax m k)) = fcol (last k)"
  by (induction m k rule: remax.induct) auto

lemma cbot_remax [simp]: "cbot (remax m k) = cbot k"
  by (simp add: cbot_def fcol_last_remax)

lemma set_addrs_remax: "set (addrs (plug (remax m k) t)) = set (addrs (plug k t))"
  by (simp add: set_addrs_plug)

lemma update_max_upwards_ctx:
  assumes "tree_at s (plug k t)"
  shows "\<exists>s'. update_max_upwards s (par (fl_nil s) k) = Some s' \<and>
     tree_at s' (plug (remax (tmax t) k) t) \<and> fl_frame (set (addrs (plug k t))) s s'"
  using assms
proof (induction k arbitrary: s t)
  case Nil
  then show ?case by (subst update_max_upwards.simps) (simp add: fl_frame_def)
next
  case (Cons f k)
  show ?case
  proof (cases f)
    case (FL c a z x r)
    let ?x = "max (max z (tmax t)) (tmax r)"
    have T: "tree_at s (plug k (Nd c t a z x r))" using Cons.prems FL by simp
    obtain s1 where 1: "update_max s a = Some s1" "tree_at s1 (plug k (Nd c t a z ?x r))"
      "fl_frame (set (addrs (plug (f # k) t))) s s1"
      using update_max_at [OF T] FL by auto
    obtain s2 where 2: "update_max_upwards s1 (par (fl_nil s1) k) = Some s2"
      "tree_at s2 (plug (remax ?x k) (Nd c t a z ?x r))"
      "fl_frame (set (addrs (plug (f # k) t))) s1 s2"
      using Cons.IH [OF 1(2)] by (auto simp: FL set_addrs_plug)
    have "update_max_upwards s a = Some s2"
      using 1 2 tree_node [OF T] tree_node [OF 1(2)]
      by (subst update_max_upwards.simps) (simp add: heap_exec cong: bind_weak)
    moreover have "fl_frame (set (addrs (plug (f # k) t))) s s2"
      using 1(3) 2(3) by (rule fl_frame_trans1)
    ultimately show ?thesis using 2(2) FL by simp
  next
    case (FR c l a z x)
    let ?x = "max (max z (tmax l)) (tmax t)"
    have T: "tree_at s (plug k (Nd c l a z x t))" using Cons.prems FR by simp
    obtain s1 where 1: "update_max s a = Some s1" "tree_at s1 (plug k (Nd c l a z ?x t))"
      "fl_frame (set (addrs (plug (f # k) t))) s s1"
      using update_max_at [OF T] FR by auto
    obtain s2 where 2: "update_max_upwards s1 (par (fl_nil s1) k) = Some s2"
      "tree_at s2 (plug (remax ?x k) (Nd c l a z ?x t))"
      "fl_frame (set (addrs (plug (f # k) t))) s1 s2"
      using Cons.IH [OF 1(2)] by (auto simp: FR set_addrs_plug)
    have "update_max_upwards s a = Some s2"
      using 1 2 tree_node [OF T] tree_node [OF 1(2)]
      by (subst update_max_upwards.simps) (simp add: heap_exec cong: bind_weak)
    moreover have "fl_frame (set (addrs (plug (f # k) t))) s s2"
      using 1(3) 2(3) by (rule fl_frame_trans1)
    ultimately show ?thesis using 2(2) FR by simp
  qed
qed

lemma update_max_upwards_at:
  assumes "tree_at s (plug k (Nd c l a z x r))"
  defines "x' \<equiv> max (max z (tmax l)) (tmax r)"
  shows "\<exists>s'. update_max_upwards s a = Some s' \<and>
     tree_at s' (plug (remax x' k) (Nd c l a z x' r)) \<and>
     fl_frame (set (addrs (plug k (Nd c l a z x r)))) s s'"
  using update_max_upwards_ctx [of s "FL c a z x r # k" l] assms by simp

definition all_below :: "addr \<Rightarrow> (addr \<times> size_t) list \<Rightarrow> bool" where
  "all_below z bs \<longleftrightarrow> (\<forall>b \<in> set bs. fst b < z)"

definition all_above :: "addr \<Rightarrow> (addr \<times> size_t) list \<Rightarrow> bool" where
  "all_above z bs \<longleftrightarrow> (\<forall>b \<in> set bs. z < fst b)"

lemma insert_descend_at:
  assumes "tree_at s (plug k t)" "all_below z (cpre k)" "all_above z (cpost k)" "z \<notin> set (addrs t)"
  shows "\<exists>k'. insert_descend s z (par (fl_nil s) k) (ptr (fl_nil s) t) = Some (par (fl_nil s) k') \<and>
     plug k' Lf = plug k t \<and> all_below z (cpre k') \<and> all_above z (cpost k')"
  using assms
proof (induction t arbitrary: k)
  case Lf
  then show ?case by (subst insert_descend.simps) auto
next
  case (Nd c l a sz x r)
  note N = tree_node [OF Nd.prems(1)]
  have srt: "sorted_wrt (<) (addrs (plug k (Nd c l a sz x r)))"
    using Nd.prems(1) by (simp add: tree_at_plug)
  show ?case
  proof (cases "z < a")
    case True
    have "\<forall>b \<in> set (blocks r). a < fst b"
      using srt by (auto simp: blocks_plug sorted_wrt_append addrs_blocks)
    with True have "all_above z (cpost (FL c a sz x r # k))"
      using Nd.prems(3) by (auto simp: all_above_def)
    with Nd.IH(1) [of "FL c a sz x r # k"] Nd.prems True N show ?thesis
      by (subst insert_descend.simps) (simp add: heap_exec cong: bind_weak)
  next
    case False
    have "\<forall>b \<in> set (blocks l). fst b < a"
      using srt by (auto simp: blocks_plug sorted_wrt_append addrs_blocks)
    with False have "all_below z (cpre (FR c l a sz x # k))"
      using Nd.prems(2,4) by (auto simp: all_below_def)
    with Nd.IH(2) [of "FR c l a sz x # k"] Nd.prems False N show ?thesis
      by (subst insert_descend.simps) (simp add: heap_exec cong: bind_weak)
  qed
qed


lemma rd_color_at:
  assumes "tree_at s (plug k t)"
  shows "rd color s (ptr (fl_nil s) t) = Some (rc t)"
  using assms by (cases t) (auto simp: tree_at_plug heap_exec nil_block_def)

fun fpaint :: "Color \<Rightarrow> frame \<Rightarrow> frame" where
  "fpaint d (FL c a s x r) = FL d a s x r"
| "fpaint d (FR c l a s x) = FR d l a s x"

text \<open>One iteration of the insertion loop when the uncle is red.\<close>

lemma SET_COLOR_in:
  assumes "tree_at s (plug k (Nd c l a z x r))" "a \<in> S"
  shows "\<exists>s'. SET_COLOR s a c' = Some s' \<and> tree_at s' (plug k (Nd c' l a z x r)) \<and> fl_frame S s s'"
  using tree_node [OF assms(1)] node_upd [OF assms(1), of z x c'] assms(2)
  by (simp add: heap_exec fl_frame_upd)

lemma fixup_recolor_left:
  assumes T: "tree_at s (plug (f # FL cg pp sg mg (Nd Red ul u su mu ur) # k) (Nd ct l z sz x r))"
    and "fcol f = Red"
  defines "t \<equiv> Nd ct l z sz x r"
  defines "S \<equiv> set (addrs (plug (f # FL cg pp sg mg (Nd Red ul u su mu ur) # k) t))"
  shows "\<exists>s'. rb_insert_fixup_loop s z = rb_insert_fixup_loop s' pp \<and>
     tree_at s' (plug k (Nd Red (plug [fpaint Black f] t) pp sg mg (Nd Black ul u su mu ur))) \<and>
     fl_frame S s s'"
proof -
  let ?U = "Nd Red ul u su mu ur" and ?U' = "Nd Black ul u su mu ur"
  obtain L p sp mp R where P: "plug [f] t = Nd Red L p sp mp R" "plug [fpaint Black f] t = Nd Black L p sp mp R"
    "par (fl_nil s) (f # FL cg pp sg mg ?U # k) = p"
    using assms(2) by (cases f) (auto simp: t_def)
  have T1: "tree_at s (plug (FL cg pp sg mg ?U # k) (Nd Red L p sp mp R))"
    using T P by (cases f) (auto simp: t_def)
  have S: "p \<in> S" "pp \<in> S" "u \<in> S"
    using P unfolding S_def by (cases f; auto simp: t_def set_addrs_plug)+
  obtain s1 where 1: "SET_COLOR s p Black = Some s1"
     "tree_at s1 (plug (FL cg pp sg mg ?U # k) (Nd Black L p sp mp R))" "fl_frame S s s1"
    using SET_COLOR_in [OF T1 S(1)] by blast
  obtain s2 where 2: "SET_COLOR s1 u Black = Some s2"
     "tree_at s2 (plug k (Nd cg (Nd Black L p sp mp R) pp sg mg ?U'))" "fl_frame S s1 s2"
    using SET_COLOR_in [of s1 "FR cg (Nd Black L p sp mp R) pp sg mg # k" Red ul u su mu ur S Black]
      1(2) S(3) by auto
  obtain s3 where 3: "SET_COLOR s2 pp Red = Some s3"
     "tree_at s3 (plug k (Nd Red (Nd Black L p sp mp R) pp sg mg ?U'))" "fl_frame S s2 s3"
    using SET_COLOR_in [OF 2(2) S(2)] by blast
  have F: "fl_frame S s s3" using 1(3) 2(3) 3(3) by (blast intro: fl_frame_trans1)
  have "rb_insert_fixup_loop s z = rb_insert_fixup_loop s3 pp"
    using tree_node [OF T] tree_node [OF T1] tree_node [of s k cg "Nd Red L p sp mp R" pp sg mg ?U]
     tree_node [of s "FR cg (Nd Red L p sp mp R) pp sg mg # k" Red ul u su mu ur] T1 P(3) 1(1) 2(1) 3(1)
    by (subst rb_insert_fixup_loop.simps) (simp add: heap_exec cong: bind_weak)
  with 3 F P show ?thesis by auto
qed

lemma fixup_recolor_right:
  assumes T: "tree_at s (plug (f # FR cg (Nd Red ul u su mu ur) pp sg mg # k) (Nd ct l z sz x r))"
    and "fcol f = Red"
  defines "t \<equiv> Nd ct l z sz x r"
  defines "S \<equiv> set (addrs (plug (f # FR cg (Nd Red ul u su mu ur) pp sg mg # k) t))"
  shows "\<exists>s'. rb_insert_fixup_loop s z = rb_insert_fixup_loop s' pp \<and>
     tree_at s' (plug k (Nd Red (Nd Black ul u su mu ur) pp sg mg (plug [fpaint Black f] t))) \<and>
     fl_frame S s s'"
proof -
  let ?U = "Nd Red ul u su mu ur" and ?U' = "Nd Black ul u su mu ur"
  obtain L p sp mp R where P: "plug [f] t = Nd Red L p sp mp R" "plug [fpaint Black f] t = Nd Black L p sp mp R"
    "par (fl_nil s) (f # FR cg ?U pp sg mg # k) = p"
    using assms(2) by (cases f) (auto simp: t_def)
  have T1: "tree_at s (plug (FR cg ?U pp sg mg # k) (Nd Red L p sp mp R))"
    using T P by (cases f) (auto simp: t_def)
  have S: "p \<in> S" "pp \<in> S" "u \<in> S"
    using P unfolding S_def by (cases f; auto simp: t_def set_addrs_plug)+
  have "p \<noteq> u" using T1 by (auto simp: tree_at_plug)
  obtain s1 where 1: "SET_COLOR s p Black = Some s1"
     "tree_at s1 (plug (FR cg ?U pp sg mg # k) (Nd Black L p sp mp R))" "fl_frame S s s1"
    using SET_COLOR_in [OF T1 S(1)] by blast
  obtain s2 where 2: "SET_COLOR s1 u Black = Some s2"
     "tree_at s2 (plug k (Nd cg ?U' pp sg mg (Nd Black L p sp mp R)))" "fl_frame S s1 s2"
    using SET_COLOR_in [of s1 "FL cg pp sg mg (Nd Black L p sp mp R) # k" Red ul u su mu ur S Black]
      1(2) S(3) by auto
  obtain s3 where 3: "SET_COLOR s2 pp Red = Some s3"
     "tree_at s3 (plug k (Nd Red ?U' pp sg mg (Nd Black L p sp mp R)))" "fl_frame S s2 s3"
    using SET_COLOR_in [OF 2(2) S(2)] by blast
  have F: "fl_frame S s s3" using 1(3) 2(3) 3(3) by (blast intro: fl_frame_trans1)
  have "rb_insert_fixup_loop s z = rb_insert_fixup_loop s3 pp"
    using tree_node [OF T] tree_node [OF T1] tree_node [of s k cg ?U pp sg mg "Nd Red L p sp mp R"]
     tree_node [of s "FL cg pp sg mg (Nd Red L p sp mp R) # k" Red ul u su mu ur] T1 P(3) 1(1) 2(1) 3(1)
     \<open>p \<noteq> u\<close>
    by (subst rb_insert_fixup_loop.simps) (simp add: heap_exec cong: bind_weak)
  with 3 F P show ?thesis by auto
qed

text \<open>The loop stops at a node without a red parent.\<close>

lemma fixup_stop:
  assumes T: "tree_at s (plug k (Nd c l a sz x r))" and "k \<noteq> [] \<Longrightarrow> fcol (hd k) = Black"
  shows "rb_insert_fixup_loop s a = Some s"
proof (cases k)
  case Nil
  then show ?thesis
    using tree_node [OF T] T
    by (subst rb_insert_fixup_loop.simps)
      (simp add: heap_exec nil_block_def tree_at_def cong: bind_weak)
next
  case (Cons f k')
  obtain L p sp mp R where P: "plug [f] (Nd c l a sz x r) = Nd Black L p sp mp R"
     "par (fl_nil s) k = p"
    using Cons assms(2) by (cases f) auto
  then have "tree_at s (plug k' (Nd Black L p sp mp R))"
    using T Cons by (cases f) auto
  from tree_node [OF this] tree_node [OF T] P(2) show ?thesis
    by (subst rb_insert_fixup_loop.simps) (simp add: heap_exec cong: bind_weak)
qed

text \<open>The last rotation of the loop, with the node \<open>p\<close> between \<open>z\<close> and the grandparent.\<close>

lemma fixup_outer_left:
  assumes T: "tree_at s (plug k (Nd cg (Nd Red (Nd Red l z sz x r) p sp mp R) pp sg mg U))"
  defines "mg' \<equiv> max (max sg (tmax R)) (tmax U)"
  defines "S \<equiv> set (addrs (plug k (Nd cg (Nd Red (Nd Red l z sz x r) p sp mp R) pp sg mg U)))"
  shows "\<exists>s'. (do { p \<leftarrow> rd parent s z;
           s \<leftarrow> SET_COLOR s p Black;
           pp \<leftarrow> rd parent s p;
           s \<leftarrow> SET_COLOR s pp Red;
           s \<leftarrow> right_rotate s pp;
           rb_insert_fixup_loop s z }) = Some s' \<and>
     tree_at s' (plug k (Nd Black (Nd Red l z sz x r) p sp (max (max sp x) mg') (Nd Red R pp sg mg' U))) \<and>
     fl_frame S s s'"
proof -
  let ?t = "Nd Red l z sz x r"
  have S: "p \<in> S" "pp \<in> S" by (auto simp: S_def set_addrs_plug)
  obtain s1 where 1: "SET_COLOR s p Black = Some s1"
     "tree_at s1 (plug k (Nd cg (Nd Black ?t p sp mp R) pp sg mg U))" "fl_frame S s s1"
    using SET_COLOR_in [of s "FL cg pp sg mg U # k" Red ?t p sp mp R S Black] T S by auto
  obtain s2 where 2: "SET_COLOR s1 pp Red = Some s2"
     "tree_at s2 (plug k (Nd Red (Nd Black ?t p sp mp R) pp sg mg U))" "fl_frame S s1 s2"
    using SET_COLOR_in [OF 1(2) S(2)] by blast
  obtain s3 where 3: "right_rotate s2 pp = Some s3"
     "tree_at s3 (plug k (Nd Black ?t p sp (max (max sp x) mg') (Nd Red R pp sg mg' U)))" "fl_frame S s2 s3"
    using right_rotate_at [OF 2(2)] by (auto simp: mg'_def S_def set_addrs_plug)
  have F: "fl_frame S s s3" using 1(3) 2(3) 3(3) by (blast intro: fl_frame_trans1)
  have "rb_insert_fixup_loop s3 z = Some s3"
    using fixup_stop [of s3 "FL Black p sp (max (max sp x) mg') (Nd Red R pp sg mg' U) # k"] 3(2) by simp
  with 3 F 1(1) 2(1) show ?thesis
    using tree_node [of s "FL Red p sp mp R # FL cg pp sg mg U # k" Red l z] T
      tree_node [of s1 "FL cg pp sg mg U # k" Black ?t p] 1(2)
    by (simp add: heap_exec cong: bind_weak)
qed

lemma fixup_outer_right:
  assumes T: "tree_at s (plug k (Nd cg U pp sg mg (Nd Red L p sp mp (Nd Red l z sz x r))))"
  defines "mg' \<equiv> max (max sg (tmax U)) (tmax L)"
  defines "S \<equiv> set (addrs (plug k (Nd cg U pp sg mg (Nd Red L p sp mp (Nd Red l z sz x r)))))"
  shows "\<exists>s'. (do { p \<leftarrow> rd parent s z;
           s \<leftarrow> SET_COLOR s p Black;
           pp \<leftarrow> rd parent s p;
           s \<leftarrow> SET_COLOR s pp Red;
           s \<leftarrow> left_rotate s pp;
           rb_insert_fixup_loop s z }) = Some s' \<and>
     tree_at s' (plug k (Nd Black (Nd Red U pp sg mg' L) p sp (max (max sp mg') x) (Nd Red l z sz x r))) \<and>
     fl_frame S s s'"
proof -
  let ?t = "Nd Red l z sz x r"
  have S: "p \<in> S" "pp \<in> S" by (auto simp: S_def set_addrs_plug)
  obtain s1 where 1: "SET_COLOR s p Black = Some s1"
     "tree_at s1 (plug k (Nd cg U pp sg mg (Nd Black L p sp mp ?t)))" "fl_frame S s s1"
    using SET_COLOR_in [of s "FR cg U pp sg mg # k" Red L p sp mp ?t S Black] T S by auto
  obtain s2 where 2: "SET_COLOR s1 pp Red = Some s2"
     "tree_at s2 (plug k (Nd Red U pp sg mg (Nd Black L p sp mp ?t)))" "fl_frame S s1 s2"
    using SET_COLOR_in [OF 1(2) S(2)] by blast
  obtain s3 where 3: "left_rotate s2 pp = Some s3"
     "tree_at s3 (plug k (Nd Black (Nd Red U pp sg mg' L) p sp (max (max sp mg') x) ?t))" "fl_frame S s2 s3"
    using left_rotate_at [OF 2(2)] by (auto simp: mg'_def S_def set_addrs_plug)
  have F: "fl_frame S s s3" using 1(3) 2(3) 3(3) by (blast intro: fl_frame_trans1)
  have "rb_insert_fixup_loop s3 z = Some s3"
    using fixup_stop [of s3 "FR Black (Nd Red U pp sg mg' L) p sp (max (max sp mg') x) # k"] 3(2) by simp
  with 3 F 1(1) 2(1) show ?thesis
    using tree_node [of s "FR Red L p sp mp # FR cg U pp sg mg # k" Red l z] T
      tree_node [of s1 "FR cg U pp sg mg # k" Black L p sp mp ?t] 1(2)
    by (simp add: heap_exec cong: bind_weak)
qed

text \<open>Black uncle: the four rotation cases of the loop, which all end it.\<close>

lemma fixup_rotate_left:
  assumes T: "tree_at s (plug (f # FL cg pp sg mg U # k) (Nd Red l z sz x r))"
    and "fcol f = Red" "rc U = Black"
  defines "S \<equiv> set (addrs (plug (f # FL cg pp sg mg U # k) (Nd Red l z sz x r)))"
  shows "\<exists>s' A a sa ma B b sb mb C. rb_insert_fixup_loop s z = Some s' \<and>
     tree_at s' (plug k (Nd Black (Nd Red A a sa ma B) b sb mb (Nd Red C pp sg (max (max sg (tmax C)) (tmax U)) U))) \<and>
     fl_frame S s s' \<and> mb = max (max sb ma) (max (max sg (tmax C)) (tmax U)) \<and>
     (case f of FL c p sp mp R \<Rightarrow> (A, a, sa, ma, B) = (l, z, sz, x, r) \<and> b = p \<and> sb = sp \<and> C = R
      | FR c L p sp mp \<Rightarrow> (A, a, sa, ma, B) = (L, p, sp, max (max sp (tmax L)) (tmax l), l) \<and> b = z \<and> sb = sz \<and> C = r)"
proof (cases f)
  case (FL c p sp mp R)
  let ?t = "Nd Red l z sz x r"
  have T1: "tree_at s (plug k (Nd cg (Nd Red ?t p sp mp R) pp sg mg U))" using T FL assms(2) by simp
  have d: "z \<noteq> ptr (fl_nil s) R"
    using T1 by (cases R) (auto simp: tree_at_plug)
  have "rd color s (ptr (fl_nil s) U) = Some Black"
    using rd_color_at [of s "FR cg (Nd Red ?t p sp mp R) pp sg mg # k" U] T1 assms(3) by simp
  then show ?thesis
    using fixup_outer_left [OF T1] FL d assms(2)
      tree_node [OF T] tree_node [OF T1] tree_node [of s "FL cg pp sg mg U # k" Red ?t p sp mp R] T1
    by (subst rb_insert_fixup_loop.simps) (simp add: S_def heap_exec cong: bind_weak)
next
  case (FR c L p sp mp)
  let ?t = "Nd Red l z sz x r" and ?p = p
  let ?mp = "max (max sp (tmax L)) (tmax l)" and ?mg = "max (max sg (tmax r)) (tmax U)"
  have T1: "tree_at s (plug k (Nd cg (Nd Red L p sp mp ?t) pp sg mg U))" using T FR assms(2) by simp
  have u: "rd color s (ptr (fl_nil s) U) = Some Black"
    using rd_color_at [of s "FR cg (Nd Red L p sp mp ?t) pp sg mg # k" U] T1 assms(3) by simp
  obtain s1 where 1: "left_rotate s p = Some s1"
    "tree_at s1 (plug k (Nd cg (Nd Red (Nd Red L p sp (max (max sp (tmax L)) (tmax l)) l) z sz
       (max (max sz (max (max sp (tmax L)) (tmax l))) (tmax r)) r) pp sg mg U))" "fl_frame S s s1"
    using left_rotate_at [of s "FL cg pp sg mg U # k" Red L p sp mp Red l z sz x r] T1 FR
    by (auto simp: S_def set_addrs_plug)
  have S: "S = set (addrs (plug k (Nd cg (Nd Red (Nd Red L p sp (max (max sp (tmax L)) (tmax l)) l) z sz
       (max (max sz (max (max sp (tmax L)) (tmax l))) (tmax r)) r) pp sg mg U)))"
    using FR by (auto simp: S_def set_addrs_plug)
  obtain s2 where 2: "(do { p \<leftarrow> rd parent s1 p;
           s \<leftarrow> SET_COLOR s1 p Black;
           pp \<leftarrow> rd parent s p;
           s \<leftarrow> SET_COLOR s pp Red;
           s \<leftarrow> right_rotate s pp;
           rb_insert_fixup_loop s ?p }) = Some s2"
    "tree_at s2 (plug k (Nd Black (Nd Red L p sp ?mp l) z sz (max (max sz ?mp) ?mg) (Nd Red r pp sg ?mg U)))"
    "fl_frame S s1 s2"
    using fixup_outer_left [OF 1(2)] unfolding S by blast
  have "rb_insert_fixup_loop s z = Some s2"
    using 2(1) 1(1) FR u assms(2) tree_node [OF T] tree_node [OF T1]
      tree_node [of s "FL cg pp sg mg U # k" Red L p sp mp ?t] T1
    by (subst rb_insert_fixup_loop.simps) (simp add: heap_exec cong: bind_weak)
  then show ?thesis using 2 fl_frame_trans1 [OF 1(3) 2(3)] FR by auto
qed

lemma fixup_rotate_right:
  assumes T: "tree_at s (plug (f # FR cg U pp sg mg # k) (Nd Red l z sz x r))"
    and "fcol f = Red" "rc U = Black"
  defines "S \<equiv> set (addrs (plug (f # FR cg U pp sg mg # k) (Nd Red l z sz x r)))"
  shows "\<exists>s' A a sa ma B b sb mb C. rb_insert_fixup_loop s z = Some s' \<and>
     tree_at s' (plug k (Nd Black (Nd Red U pp sg (max (max sg (tmax U)) (tmax C)) C) b sb mb (Nd Red A a sa ma B))) \<and>
     fl_frame S s s' \<and> mb = max (max sb (max (max sg (tmax U)) (tmax C))) ma \<and>
     (case f of FR c L p sp mp \<Rightarrow> (A, a, sa, ma, B) = (l, z, sz, x, r) \<and> b = p \<and> sb = sp \<and> C = L
      | FL c p sp mp R \<Rightarrow> (A, a, sa, ma, B) = (r, p, sp, max (max sp (tmax r)) (tmax R), R) \<and> b = z \<and> sb = sz \<and> C = l)"
proof (cases f)
  case (FR c L p sp mp)
  let ?t = "Nd Red l z sz x r"
  have T1: "tree_at s (plug k (Nd cg U pp sg mg (Nd Red L p sp mp ?t)))" using T FR assms(2) by simp
  have d: "z \<noteq> ptr (fl_nil s) L" "p \<noteq> ptr (fl_nil s) U"
    using T1 by (cases L; cases U; auto simp: tree_at_plug)+
  have "rd color s (ptr (fl_nil s) U) = Some Black"
    using rd_color_at [of s "FL cg pp sg mg (Nd Red L p sp mp ?t) # k" U] T1 assms(3) by simp
  then show ?thesis
    using fixup_outer_right [OF T1] FR d assms(2)
      tree_node [OF T] tree_node [OF T1] tree_node [of s "FR cg U pp sg mg # k" Red L p sp mp ?t] T1
    by (subst rb_insert_fixup_loop.simps) (simp add: S_def heap_exec cong: bind_weak)
next
  case (FL c p sp mp R)
  let ?t = "Nd Red l z sz x r" and ?p = p
  let ?mp = "max (max sp (tmax r)) (tmax R)" and ?mg = "max (max sg (tmax U)) (tmax l)"
  have T1: "tree_at s (plug k (Nd cg U pp sg mg (Nd Red ?t p sp mp R)))" using T FL assms(2) by simp
  have d: "p \<noteq> ptr (fl_nil s) U"
    using T1 by (cases U; auto simp: tree_at_plug)+
  have u: "rd color s (ptr (fl_nil s) U) = Some Black"
    using rd_color_at [of s "FL cg pp sg mg (Nd Red ?t p sp mp R) # k" U] T1 assms(3) by simp
  obtain s1 where 1: "right_rotate s p = Some s1"
    "tree_at s1 (plug k (Nd cg U pp sg mg (Nd Red l z sz (max (max sz (tmax l)) ?mp) (Nd Red r p sp ?mp R))))"
    "fl_frame S s s1"
    using right_rotate_at [of s "FR cg U pp sg mg # k" Red Red l z sz x r p sp mp R] T1 FL
    by (auto simp: S_def set_addrs_plug)
  have S: "S = set (addrs (plug k (Nd cg U pp sg mg
      (Nd Red l z sz (max (max sz (tmax l)) ?mp) (Nd Red r p sp ?mp R)))))"
    using FL by (auto simp: S_def set_addrs_plug)
  obtain s2 where 2: "(do { p \<leftarrow> rd parent s1 p;
           s \<leftarrow> SET_COLOR s1 p Black;
           pp \<leftarrow> rd parent s p;
           s \<leftarrow> SET_COLOR s pp Red;
           s \<leftarrow> left_rotate s pp;
           rb_insert_fixup_loop s ?p }) = Some s2"
    "tree_at s2 (plug k (Nd Black (Nd Red U pp sg ?mg l) z sz (max (max sz ?mg) ?mp) (Nd Red r p sp ?mp R)))"
    "fl_frame S s1 s2"
    using fixup_outer_right [OF 1(2)] unfolding S by blast
  have "rb_insert_fixup_loop s z = Some s2"
    using 2(1) 1(1) FL u d assms(2) tree_node [OF T] tree_node [OF T1]
      tree_node [of s "FR cg U pp sg mg # k" Red ?t p sp mp R] T1
    by (subst rb_insert_fixup_loop.simps) (simp add: heap_exec cong: bind_weak)
  then show ?thesis using 2 fl_frame_trans1 [OF 1(3) 2(3)] FL by auto
qed

text \<open>What the loop promises: the same blocks, and all invariants but the colour of the root.\<close>

definition fixed :: "rbt \<Rightarrow> fl_state \<Rightarrow> fl_state \<Rightarrow> bool" where
  "fixed T s s' \<longleftrightarrow> (\<exists>T'. tree_at s' T' \<and> blocks T' = blocks T \<and> invc (paint Black T') \<and>
     invh T' \<and> mok T' \<and> fl_frame (set (addrs T)) s s')"

lemma invc_paint: "invc t \<Longrightarrow> invc (paint Black t)"
  by (cases t) auto

lemma fixedI:
  assumes "tree_at s' (plug k t)" "fl_frame (set (addrs T)) s s'"
    "invc t" "cctx (rc t) k" "invh t" "hctx (bh t) k" "mok t" "mctx (tmax t) k"
    "cpre k @ blocks t @ cpost k = blocks T"
  shows "fixed T s s'"
  unfolding fixed_def using assms
  by (intro exI [of _ "plug k t"]) (simp add: invc_paint invc_plug invh_plug mok_plug blocks_plug)

lemma fixup_black_uncle_left:
  assumes T: "tree_at s (plug (f # FL Black pp sg mg U # k) (Nd Red l z sz x r))"
    and "fcol f = Red" "rc U = Black"
    and inv: "invc (Nd Red l z sz x r)" "invh (Nd Red l z sz x r)" "mok (Nd Red l z sz x r)"
      "hctx (bh l) (f # FL Black pp sg mg U # k)" "cctx Black (f # FL Black pp sg mg U # k)"
      "mctx x (f # FL Black pp sg mg U # k)"
  shows "\<exists>s'. rb_insert_fixup_loop s z = Some s' \<and>
    fixed (plug (f # FL Black pp sg mg U # k) (Nd Red l z sz x r)) s s'"
proof -
  from fixup_rotate_left [OF assms(1-3)] obtain s' A a sa ma B b sb mb C where
    r: "rb_insert_fixup_loop s z = Some s'"
     "tree_at s' (plug k (Nd Black (Nd Red A a sa ma B) b sb mb
        (Nd Red C pp sg (max (max sg (tmax C)) (tmax U)) U)))"
     "fl_frame (set (addrs (plug (f # FL Black pp sg mg U # k) (Nd Red l z sz x r)))) s s'"
     "mb = max (max sb ma) (max (max sg (tmax C)) (tmax U))"
     "case f of FL c p sp mp R \<Rightarrow> (A, a, sa, ma, B) = (l, z, sz, x, r) \<and> b = p \<and> sb = sp \<and> C = R
      | FR c L p sp mp \<Rightarrow> (A, a, sa, ma, B) = (L, p, sp, max (max sp (tmax L)) (tmax l), l) \<and> b = z \<and> sb = sz \<and> C = r"
    by blast
  have mk: "mctx mg k" using inv(6) by (cases f) auto
  have mb: "mb = mg"
    using r(4,5) inv(3,6) by (cases f) (simp_all only: frame.case prod.inject mctx.simps mok.simps ac_simps)
  have "fixed (plug (f # FL Black pp sg mg U # k) (Nd Red l z sz x r)) s s'"
  proof (rule fixedI [OF r(2,3)], goal_cases)
    case 1 then show ?case using r(5) inv(1,5) assms(2,3) by (cases f) auto
  next
    case 2 then show ?case using inv(5) by (cases f) auto
  next
    case 3 then show ?case using r(5) inv(2,4) assms(2) by (cases f) auto
  next
    case 4 then show ?case using r(5) inv(2,4) assms(2) by (cases f) auto
  next
    case 5 then show ?case using r(4,5) inv(3,6)
      by (cases f) (simp_all only: mok.simps tmax.simps frame.case prod.inject mctx.simps)
  next
    case 6 then show ?case using mk mb by simp
  next
    case 7 then show ?case using r(5) by (cases f) (auto simp: blocks_plug)
  qed
  with r(1) show ?thesis by blast
qed

lemma fixup_black_uncle_right:
  assumes T: "tree_at s (plug (f # FR Black U pp sg mg # k) (Nd Red l z sz x r))"
    and "fcol f = Red" "rc U = Black"
    and inv: "invc (Nd Red l z sz x r)" "invh (Nd Red l z sz x r)" "mok (Nd Red l z sz x r)"
      "hctx (bh l) (f # FR Black U pp sg mg # k)" "cctx Black (f # FR Black U pp sg mg # k)"
      "mctx x (f # FR Black U pp sg mg # k)"
  shows "\<exists>s'. rb_insert_fixup_loop s z = Some s' \<and>
    fixed (plug (f # FR Black U pp sg mg # k) (Nd Red l z sz x r)) s s'"
proof -
  from fixup_rotate_right [OF assms(1-3)] obtain s' A a sa ma B b sb mb C where
    r: "rb_insert_fixup_loop s z = Some s'"
     "tree_at s' (plug k (Nd Black (Nd Red U pp sg (max (max sg (tmax U)) (tmax C)) C) b sb mb
        (Nd Red A a sa ma B)))"
     "fl_frame (set (addrs (plug (f # FR Black U pp sg mg # k) (Nd Red l z sz x r)))) s s'"
     "mb = max (max sb (max (max sg (tmax U)) (tmax C))) ma"
     "case f of FR c L p sp mp \<Rightarrow> (A, a, sa, ma, B) = (l, z, sz, x, r) \<and> b = p \<and> sb = sp \<and> C = L
      | FL c p sp mp R \<Rightarrow> (A, a, sa, ma, B) = (r, p, sp, max (max sp (tmax r)) (tmax R), R) \<and> b = z \<and> sb = sz \<and> C = l"
    by blast
  have mk: "mctx mg k" using inv(6) by (cases f) auto
  have mb: "mb = mg"
    using r(4,5) inv(3,6) by (cases f) (simp_all only: frame.case prod.inject mctx.simps mok.simps ac_simps)
  have "fixed (plug (f # FR Black U pp sg mg # k) (Nd Red l z sz x r)) s s'"
  proof (rule fixedI [OF r(2,3)], goal_cases)
    case 1 then show ?case using r(5) inv(1,5) assms(2,3) by (cases f) auto
  next
    case 2 then show ?case using inv(5) by (cases f) auto
  next
    case 3 then show ?case using r(5) inv(2,4) assms(2) by (cases f) auto
  next
    case 4 then show ?case using r(5) inv(2,4) assms(2) by (cases f) auto
  next
    case 5 then show ?case using r(4,5) inv(3,6)
      by (cases f) (simp_all only: mok.simps tmax.simps frame.case prod.inject mctx.simps)
  next
    case 6 then show ?case using mk mb by simp
  next
    case 7 then show ?case using r(5) by (cases f) (auto simp: blocks_plug)
  qed
  with r(1) show ?thesis by blast
qed

lemma fixed_trans:
  assumes "fixed T' s' s''" "fl_frame (set (addrs T)) s s'" "blocks T' = blocks T"
  shows "fixed T s s''"
  using assms unfolding fixed_def by (metis addrs_blocks fl_frame_trans1)

text \<open>With a red uncle the loop goes on at the grandparent; \<open>IH\<close> is what it does there.\<close>

lemma fixup_red_uncle_left:
  assumes T: "tree_at s (plug k (Nd Red l z sz x r))"
    and k: "k = f # g # k'" "g = FL cg pp sg mg U" "fcol f = Red" "cg = Black" "rc U = Red"
    and inv: "invc (Nd Red l z sz x r)" "invh (Nd Red l z sz x r)" "mok (Nd Red l z sz x r)"
      "hctx (bh l) k" "cctx Black k" "mctx x k" "cbot k"
    and IH: "\<And>k' s l z sz x r. length k' < length k \<Longrightarrow> tree_at s (plug k' (Nd Red l z sz x r)) \<Longrightarrow>
      invc (Nd Red l z sz x r) \<Longrightarrow> invh (Nd Red l z sz x r) \<Longrightarrow> mok (Nd Red l z sz x r) \<Longrightarrow>
      hctx (bh l) k' \<Longrightarrow> cctx Black k' \<Longrightarrow> mctx x k' \<Longrightarrow> cbot k' \<Longrightarrow>
      \<exists>s'. rb_insert_fixup_loop s z = Some s' \<and> fixed (plug k' (Nd Red l z sz x r)) s s'"
  shows "\<exists>s'. rb_insert_fixup_loop s z = Some s' \<and> fixed (plug k (Nd Red l z sz x r)) s s'"
proof -
  obtain ul u su mu ur where U: "U = Nd Red ul u su mu ur" using k(5) by (cases U) auto
  let ?T = "Nd Red (plug [fpaint Black f] (Nd Red l z sz x r)) pp sg mg (Nd Black ul u su mu ur)"
  obtain s1 where 1: "rb_insert_fixup_loop s z = rb_insert_fixup_loop s1 pp" "tree_at s1 (plug k' ?T)"
    "fl_frame (set (addrs (plug k (Nd Red l z sz x r)))) s s1"
    using fixup_recolor_left T k(1-4) U by blast
  have "blocks (plug k' ?T) = blocks (plug k (Nd Red l z sz x r))"
    using k(1-4) U by (cases f) (simp_all add: blocks_plug)
  moreover have "\<exists>s'. rb_insert_fixup_loop s1 pp = Some s' \<and> fixed (plug k' ?T) s1 s'"
    using 1(2) inv k(1-4) U by (intro IH; cases f) (simp_all add: cbot_def split: if_splits)
  ultimately show ?thesis using 1 fixed_trans by metis
qed

lemma fixup_red_uncle_right:
  assumes T: "tree_at s (plug k (Nd Red l z sz x r))"
    and k: "k = f # g # k'" "g = FR cg U pp sg mg" "fcol f = Red" "cg = Black" "rc U = Red"
    and inv: "invc (Nd Red l z sz x r)" "invh (Nd Red l z sz x r)" "mok (Nd Red l z sz x r)"
      "hctx (bh l) k" "cctx Black k" "mctx x k" "cbot k"
    and IH: "\<And>k' s l z sz x r. length k' < length k \<Longrightarrow> tree_at s (plug k' (Nd Red l z sz x r)) \<Longrightarrow>
      invc (Nd Red l z sz x r) \<Longrightarrow> invh (Nd Red l z sz x r) \<Longrightarrow> mok (Nd Red l z sz x r) \<Longrightarrow>
      hctx (bh l) k' \<Longrightarrow> cctx Black k' \<Longrightarrow> mctx x k' \<Longrightarrow> cbot k' \<Longrightarrow>
      \<exists>s'. rb_insert_fixup_loop s z = Some s' \<and> fixed (plug k' (Nd Red l z sz x r)) s s'"
  shows "\<exists>s'. rb_insert_fixup_loop s z = Some s' \<and> fixed (plug k (Nd Red l z sz x r)) s s'"
proof -
  obtain ul u su mu ur where U: "U = Nd Red ul u su mu ur" using k(5) by (cases U) auto
  let ?T = "Nd Red (Nd Black ul u su mu ur) pp sg mg (plug [fpaint Black f] (Nd Red l z sz x r))"
  obtain s1 where 1: "rb_insert_fixup_loop s z = rb_insert_fixup_loop s1 pp" "tree_at s1 (plug k' ?T)"
    "fl_frame (set (addrs (plug k (Nd Red l z sz x r)))) s s1"
    using fixup_recolor_right T k(1-4) U by blast
  have "blocks (plug k' ?T) = blocks (plug k (Nd Red l z sz x r))"
    using k(1-4) U by (cases f) (simp_all add: blocks_plug)
  moreover have "\<exists>s'. rb_insert_fixup_loop s1 pp = Some s' \<and> fixed (plug k' ?T) s1 s'"
    using 1(2) inv k(1-4) U by (intro IH; cases f) (simp_all add: cbot_def split: if_splits)
  ultimately show ?thesis using 1 fixed_trans by metis
qed

lemma rb_insert_fixup_loop_at:
  assumes "tree_at s (plug k (Nd Red l z sz x r))"
    "invc (Nd Red l z sz x r)" "invh (Nd Red l z sz x r)" "mok (Nd Red l z sz x r)"
    "hctx (bh l) k" "cctx Black k" "mctx x k" "cbot k"
  shows "\<exists>s'. rb_insert_fixup_loop s z = Some s' \<and> fixed (plug k (Nd Red l z sz x r)) s s'"
  using assms
proof (induction "length k" arbitrary: k s l z sz x r rule: less_induct)
  case less
  note T = less.prems(1) and inv = less.prems(2-7)
  show ?case
  proof (cases "k = [] \<or> fcol (hd k) = Black")
    case True
    then have "cctx Red k" using inv(5) by (cases "(Red, k)" rule: cctx.cases) auto
    moreover have "rb_insert_fixup_loop s z = Some s" using fixup_stop [OF T] True by blast
    ultimately show ?thesis
      using inv T fixedI [OF T, of _ s] by (auto simp: fl_frame_def blocks_plug)
  next
    case False
    then obtain f g k' where k: "k = f # g # k'" "fcol f = Red"
      using less.prems(8) by (cases k; cases "tl k") (auto simp: cbot_def intro: Color.exhaust)
    show ?thesis
    proof (cases g)
      case (FL cg pp sg mg U)
      then have cg: "cg = Black" using k inv(5) by (cases f; cases cg) auto
      show ?thesis
      proof (cases "rc U")
        case Black
        then show ?thesis using fixup_black_uncle_left less.prems(1-7) k FL cg by blast
      next
        case Red
        then show ?thesis
          using fixup_red_uncle_left [OF T k(1) FL k(2) cg] less.hyps inv less.prems(8) by blast
      qed
    next
      case (FR cg U pp sg mg)
      then have cg: "cg = Black" using k inv(5) by (cases f; cases cg) auto
      show ?thesis
      proof (cases "rc U")
        case Black
        then show ?thesis using fixup_black_uncle_right less.prems(1-7) k FR cg by blast
      next
        case Red
        then show ?thesis
          using fixup_red_uncle_right [OF T k(1) FR k(2) cg] less.hyps inv less.prems(8) by blast
      qed
    qed
  qed
qed

subsection \<open>Fix-up and insertion\<close>

lemma paint_simps [simp]:
  "blocks (paint c t) = blocks t" "addrs (paint c t) = addrs t" "invh (paint c t) = invh t"
  "mok (paint c t) = mok t" "tmax (paint c t) = tmax t" "ptr nl (paint c t) = ptr nl t"
  by (cases t; simp)+

lemma SET_COLOR_root:
  assumes "tree_at s T" "T \<noteq> Lf"
  shows "\<exists>s'. SET_COLOR s (fl_root s) c = Some s' \<and> tree_at s' (paint c T) \<and>
     fl_frame (set (addrs T)) s s'"
proof -
  obtain d l a z x r where T: "T = Nd d l a z x r" using assms(2) by (cases T) auto
  then show ?thesis using SET_COLOR_in [of s "[]" d l a z x r "set (addrs T)" c] assms(1)
    by (auto simp: tree_at_def)
qed

lemma rb_insert_fixup_at:
  assumes "tree_at s (plug k (Nd Red l z sz x r))"
    "invc (Nd Red l z sz x r)" "invh (Nd Red l z sz x r)" "mok (Nd Red l z sz x r)"
    "hctx (bh l) k" "cctx Black k" "mctx x k" "cbot k"
  defines "T \<equiv> plug k (Nd Red l z sz x r)"
  shows "\<exists>s' T'. rb_insert_fixup s z = Some s' \<and> tree_at s' T' \<and> rbt_ok T' \<and>
     blocks T' = blocks T \<and> fl_frame (set (addrs T)) s s'"
proof -
  obtain s1 T1 where 1: "rb_insert_fixup_loop s z = Some s1" "tree_at s1 T1" "blocks T1 = blocks T"
    "invc (paint Black T1)" "invh T1" "mok T1" "fl_frame (set (addrs T)) s s1"
    using rb_insert_fixup_loop_at [OF assms(1-8)] by (auto simp: fixed_def T_def)
  have "blocks T1 \<noteq> []" using 1(3) by (auto simp: T_def blocks_plug)
  then have ne: "T1 \<noteq> Lf" by auto
  then have rb: "rc (paint Black T1) = Black" by (cases T1) auto
  have "addrs T1 = addrs T" using 1(3) by (simp add: addrs_blocks)
  with SET_COLOR_root [OF 1(2) ne] obtain s2 where
    "SET_COLOR s1 (fl_root s1) Black = Some s2" "tree_at s2 (paint Black T1)" "fl_frame (set (addrs T)) s1 s2"
    by auto
  with 1 rb fl_frame_trans1 show ?thesis
    by (intro exI [of _ s2] exI [of _ "paint Black T1"]) (auto simp: rb_insert_fixup_def rbt_ok_def)
qed

lemma link_child:
  assumes "rep_ctx nl (fl_mem s) (fl_root s) nl k" "fl_nil s = nl" "nl \<notin> cset k"
    "all_below z (cpre k)" "all_above z (cpost k)"
  shows "(if par nl k = nl then Some (s\<lparr>fl_root := z\<rparr>)
      else if z < par nl k then wr s (par nl k) (\<lambda>b. b\<lparr>left := z\<rparr>)
      else wr s (par nl k) (\<lambda>b. b\<lparr>right := z\<rparr>)) =
    Some (s\<lparr>fl_root := set_root (fl_root s) k z, fl_mem := set_child (fl_mem s) k z\<rparr>)"
  using assms by (cases "(fl_mem s, k, z)" rule: set_child.cases)
    (auto simp: set_root_def heap_exec all_above_def all_below_def)

lemma insort_middle:
  "all_below z xs \<Longrightarrow> all_above z ys \<Longrightarrow> insort_key fst (z, v) (xs @ ys) = xs @ (z, v) # ys"
proof (induction xs)
  case Nil
  then show ?case by (cases ys) (auto simp: all_above_def)
next
  case (Cons a xs)
  then show ?case by (auto simp: all_below_def)
qed

text \<open>Hanging the fresh node into the tree, up to the call of \<open>update_max_upwards\<close>.\<close>

lemma insert_link:
  assumes T: "tree_at s (plug k Lf)" and z: "fl_mem s z = Some b" "z \<noteq> fl_nil s" "z \<noteq> 0"
    "z mod 16 = 0" "0 < bsize b" "bsize b \<le> 2 ^ 30"
    and k: "z \<notin> cset k" "all_below z (cpre k)" "all_above z (cpost k)"
    and y: "insert_descend s z (fl_nil s) (fl_root s) = Some (par (fl_nil s) k)"
  shows "\<exists>s'. insert_node s z = update_max_upwards s' z \<bind> (\<lambda>s. rb_insert_fixup s z) \<and>
     tree_at s' (plug k (Nd Red Lf z (bsize b) (bsize b) Lf)) \<and> fl_frame (insert z (cset k)) s s'"
proof -
  note T' = T [unfolded tree_at_plug]
  let ?nl = "fl_nil s"
  let ?y = "par ?nl k"
  let ?b = "\<lparr>bsize = bsize b, parent = ?y, left = ?nl, right = ?nl, subtree_max = bsize b, color = Red\<rparr>"
  let ?m = "(fl_mem s)(z \<mapsto> b\<lparr>parent := ?y\<rparr>)"
  let ?s' = "s\<lparr>fl_root := set_root (fl_root s) k z, fl_mem := (set_child ?m k z)(z \<mapsto> ?b),
      fl_log := log_add (fl_log s) ''insert_node'' z ?y ?nl ?nl (bsize b)\<rparr>"
  have rc: "rep_ctx ?nl ?m (fl_root s) ?nl k" using T' k(1) by simp
  have be: "b\<lparr>parent := ?y, left := ?nl, right := ?nl, color := Red, subtree_max := bsize b\<rparr> = ?b"
    by simp
  have "sorted_wrt (<) (addrs (plug k (Nd Red Lf z (bsize b) (bsize b) Lf)))"
    using T' k(2,3) by (auto simp: addrs_plug sorted_wrt_append all_below_def all_above_def)
  then have tree: "tree_at ?s' (plug k (Nd Red Lf z (bsize b) (bsize b) Lf))"
    using T' z k rep_ctx_set_child [OF rc] by (simp add: tree_at_plug)
  show ?thesis
    using T' z k y tree rc par_nz [of ?nl k]
    by (intro exI [of _ ?s'])
      (simp add: insert_node_def heap_exec link_child fl_frame_def be cong: bind_weak)
qed

lemma insert_node_at:
  assumes T: "tree_at s T" "rbt_ok T" and z: "fl_mem s z = Some b" "z \<noteq> fl_nil s" "z \<noteq> 0"
    "z \<notin> set (addrs T)" "z mod 16 = 0" "0 < bsize b" "bsize b \<le> 2 ^ 30"
  shows "\<exists>s' T'. insert_node s z = Some s' \<and> tree_at s' T' \<and> rbt_ok T' \<and>
     blocks T' = insort_key fst (z, bsize b) (blocks T) \<and> fl_frame (insert z (set (addrs T))) s s'"
proof -
  let ?S = "insert z (set (addrs T))"
  obtain k where k: "insert_descend s z (fl_nil s) (fl_root s) = Some (par (fl_nil s) k)"
     "plug k Lf = T" "all_below z (cpre k)" "all_above z (cpost k)"
    using insert_descend_at [of s "[]" T z] T z(4) by (auto simp: all_below_def all_above_def tree_at_def)
  then have zk: "z \<notin> cset k" "?S = insert z (cset k)"
    using z(4) by (auto simp: set_addrs_plug tree_at_plug)
  let ?y = "par (fl_nil s) k" and ?N = "Nd Red Lf z (bsize b) (bsize b) Lf"
  obtain s1 where 1: "insert_node s z = update_max_upwards s1 z \<bind> (\<lambda>s. rb_insert_fixup s z)"
     "tree_at s1 (plug k ?N)" "fl_frame ?S s s1"
    using insert_link [OF _ z(1-3) z(5-7) zk(1) k(3,4,1)] T(1) k(2) zk(2) by auto
  obtain s2 where 2: "update_max_upwards s1 z = Some s2"
     "tree_at s2 (plug (remax (bsize b) k) ?N)" "fl_frame ?S s1 s2"
    using update_max_upwards_at [OF 1(2)] k(2) zk by (auto simp: set_addrs_plug)
  have inv: "hctx 0 k" "cctx Black k" "smok k" "cbot k"
    using T(2) k(2) mctx_smok by (auto simp: rbt_ok_plug cbot_def)
  obtain s3 T' where 3: "rb_insert_fixup s2 z = Some s3" "tree_at s3 T'" "rbt_ok T'"
     "blocks T' = blocks (plug (remax (bsize b) k) ?N)" "fl_frame ?S s2 s3"
    using rb_insert_fixup_at [OF 2(2)] inv mctx_remax zk(2) by (auto simp: set_addrs_plug)
  have "insert_node s z = Some s3"
    using 1(1) 2(1) 3(1) by simp
  moreover have "blocks T' = insort_key fst (z, bsize b) (blocks T)"
    using 3(4) k by (simp add: blocks_plug insort_middle flip: k(2))
  moreover have "fl_frame ?S s s3" using 1(3) 2(3) 3(5) by (blast intro: fl_frame_trans1)
  ultimately show ?thesis using 3 by blast
qed
end
