(* ===== verification/RB_Rebalance.thy ===== *)
theory RB_Rebalance
  imports RB_Insert
begin

text \<open>
  The four cases of \<open>rb_delete_fixup\<close> and its mirror images as steps between focused trees, and the
  proof that the loop terminates with all invariants restored.
\<close>

subsection \<open>The loop condition\<close>

lemma ptr_plug_in: "k \<noteq> [] \<Longrightarrow> ptr nl (plug k t) \<in> cset k"
proof (induction k t rule: plug.induct)
  case (2 c a s x r k t)
  then show ?case by (cases "k = []") auto
next
  case (3 c l a s x k t)
  then show ?case by (cases "k = []") auto
qed simp

lemma del_focus:
  assumes T: "tree_at s (plug k t)" and "k \<noteq> []"
  shows "ptr (fl_nil s) t \<noteq> fl_root s" "ptr (fl_nil s) t \<noteq> 0" "par (fl_nil s) k \<noteq> 0"
proof -
  note T' = T [unfolded tree_at_plug]
  have "fl_root s \<in> cset k"
    using T ptr_plug_in [OF assms(2), of "fl_nil s" t] by (simp add: tree_at_def)
  then show "ptr (fl_nil s) t \<noteq> fl_root s" using T' by (cases t) auto
  show "ptr (fl_nil s) t \<noteq> 0" "par (fl_nil s) k \<noteq> 0" using T' by (auto simp: ptr_nz par_nz)
qed

lemma del_stop:
  assumes T: "tree_at s (plug k t)" and "k = [] \<or> rc t = Red"
  shows "rb_delete_fixup_loop s (ptr (fl_nil s) t) xp = Some (s, ptr (fl_nil s) t)"
proof (cases "k = []")
  case True
  then have "ptr (fl_nil s) t = fl_root s" using T by (simp add: tree_at_def)
  then show ?thesis by (subst rb_delete_fixup_loop.simps) simp
next
  case False
  with assms(2) obtain l a z m r where t: "t = Nd Red l a z m r" by (cases t) auto
  with T tree_node [of s k Red l a z m r] show ?thesis
    by (subst rb_delete_fixup_loop.simps) (simp add: heap_exec)
qed

subsection \<open>The cases for a left child\<close>

lemma del_case1_left:
  assumes T: "tree_at s (plug k (Nd cp t p sp mp (Nd Red wL w sw mw wR)))"
    and c: "rc t = Black" "rc wL = Black"
  defines "S \<equiv> set (addrs (plug k (Nd cp t p sp mp (Nd Red wL w sw mw wR))))"
  shows "\<exists>s' mp' mw'. rb_delete_fixup_loop s (ptr (fl_nil s) t) p = rb_delete_fixup_loop s' (ptr (fl_nil s') t) p \<and>
     tree_at s' (plug k (Nd Black (Nd Red t p sp mp' wL) w sw mw' wR)) \<and> fl_frame S s s' \<and>
     mp' = max (max sp (tmax t)) (tmax wL) \<and> mw' = max (max sw mp') (tmax wR)"
proof -
  have S: "p \<in> S" "w \<in> S" by (auto simp: S_def set_addrs_plug)
  obtain s1 where 1: "SET_COLOR s w Black = Some s1"
     "tree_at s1 (plug k (Nd cp t p sp mp (Nd Black wL w sw mw wR)))" "fl_frame S s s1"
    using SET_COLOR_in [of s "FR cp t p sp mp # k" Red wL w sw mw wR S Black] T S by auto
  obtain s2 where 2: "SET_COLOR s1 p Red = Some s2"
     "tree_at s2 (plug k (Nd Red t p sp mp (Nd Black wL w sw mw wR)))" "fl_frame S s1 s2"
    using SET_COLOR_in [OF 1(2) S(1)] by blast
  let ?mp = "max (max sp (tmax t)) (tmax wL)"
  obtain s3 where 3: "left_rotate s2 p = Some s3"
     "tree_at s3 (plug k (Nd Black (Nd Red t p sp ?mp wL) w sw (max (max sw ?mp) (tmax wR)) wR))" "fl_frame S s2 s3"
    using left_rotate_at [OF 2(2)] by (auto simp: S_def set_addrs_plug)
  have F: "fl_frame S s s3" using 1(3) 2(3) 3(3) by (blast intro: fl_frame_trans1)
  then have nl: "fl_nil s3 = fl_nil s" by (simp add: fl_frame_def)
  have T3: "tree_at s3 (plug (FL Black w sw (max (max sw ?mp) (tmax wR)) wR # k) (Nd Red t p sp ?mp wL))"
    "tree_at s3 (plug (FL Red p sp ?mp wL # FL Black w sw (max (max sw ?mp) (tmax wR)) wR # k) t)"
    "tree_at s3 (plug (FR Red t p sp ?mp # FL Black w sw (max (max sw ?mp) (tmax wR)) wR # k) wL)"
    using 3(2) by auto
  have T0: "tree_at s (plug (FL cp p sp mp (Nd Red wL w sw mw wR) # k) t)"
     "tree_at s (plug (FR cp t p sp mp # k) (Nd Red wL w sw mw wR))" using T by auto
  have "rb_delete_fixup_loop s (ptr (fl_nil s) t) p = rb_delete_fixup_loop s3 (ptr (fl_nil s) t) p"
    unfolding rb_delete_fixup_loop.simps [of s "ptr (fl_nil s) t" p] rb_delete_fixup_loop.simps [of s3 "ptr (fl_nil s) t" p]
    using tree_node [OF T] tree_node [OF T0(2)] del_focus [OF T0(1)] rd_color_at [OF T0(1)] 1(1) 2(1) 3(1)
      tree_node [OF T3(1)] del_focus [OF T3(2)] rd_color_at [OF T3(2)] rd_color_at [OF T3(3)] c nl
    by (simp add: heap_exec cong: bind_weak)
  with 3(2) F nl show ?thesis by (intro exI [of _ s3]) simp
qed

lemma del_case2_left:
  assumes T: "tree_at s (plug k (Nd cp t p sp mp (Nd Black wL w sw mw wR)))"
    and c: "rc t = Black" "rc wL = Black" "rc wR = Black"
  defines "S \<equiv> set (addrs (plug k (Nd cp t p sp mp (Nd Black wL w sw mw wR))))"
  shows "\<exists>s'. rb_delete_fixup_loop s (ptr (fl_nil s) t) p = rb_delete_fixup_loop s' p (par (fl_nil s') k) \<and>
     tree_at s' (plug k (Nd cp t p sp mp (Nd Red wL w sw mw wR))) \<and> fl_frame S s s'"
proof -
  have S: "w \<in> S" by (auto simp: S_def set_addrs_plug)
  obtain s1 where 1: "SET_COLOR s w Red = Some s1"
     "tree_at s1 (plug k (Nd cp t p sp mp (Nd Red wL w sw mw wR)))" "fl_frame S s s1"
    using SET_COLOR_in [of s "FR cp t p sp mp # k" Black wL w sw mw wR S Red] T S by auto
  have T0: "tree_at s (plug (FL cp p sp mp (Nd Black wL w sw mw wR) # k) t)"
     "tree_at s (plug (FR cp t p sp mp # k) (Nd Black wL w sw mw wR))"
     "tree_at s (plug (FL Black w sw mw wR # FR cp t p sp mp # k) wL)"
     "tree_at s (plug (FR Black wL w sw mw # FR cp t p sp mp # k) wR)" using T by auto
  have "rb_delete_fixup_loop s (ptr (fl_nil s) t) p = rb_delete_fixup_loop s1 p (par (fl_nil s1) k)"
    using tree_node [OF T] tree_node [OF T0(2)] del_focus [OF T0(1)] rd_color_at [OF T0(1)]
      rd_color_at [OF T0(3)] rd_color_at [OF T0(4)] 1(1) tree_node [OF 1(2)] c
    by (subst rb_delete_fixup_loop.simps) (simp add: heap_exec cong: bind_weak)
  with 1 show ?thesis by auto
qed

lemma del_case3_left:
  assumes T: "tree_at s (plug k (Nd cp t p sp mp (Nd Black (Nd Red a v sv mv b) w sw mw wR)))"
    and c: "rc t = Black" "rc wR = Black"
  defines "S \<equiv> set (addrs (plug k (Nd cp t p sp mp (Nd Black (Nd Red a v sv mv b) w sw mw wR))))"
  shows "\<exists>s' mw' mv'. rb_delete_fixup_loop s (ptr (fl_nil s) t) p = rb_delete_fixup_loop s' (ptr (fl_nil s') t) p \<and>
     tree_at s' (plug k (Nd cp t p sp mp (Nd Black a v sv mv' (Nd Red b w sw mw' wR)))) \<and> fl_frame S s s' \<and>
     mw' = max (max sw (tmax b)) (tmax wR) \<and> mv' = max (max sv (tmax a)) mw'"
proof -
  have S: "v \<in> S" "w \<in> S" by (auto simp: S_def set_addrs_plug)
  obtain s1 where 1: "SET_COLOR s v Black = Some s1"
     "tree_at s1 (plug k (Nd cp t p sp mp (Nd Black (Nd Black a v sv mv b) w sw mw wR)))" "fl_frame S s s1"
    using SET_COLOR_in [of s "FL Black w sw mw wR # FR cp t p sp mp # k" Red a v sv mv b S Black] T S by auto
  obtain s2 where 2: "SET_COLOR s1 w Red = Some s2"
     "tree_at s2 (plug k (Nd cp t p sp mp (Nd Red (Nd Black a v sv mv b) w sw mw wR)))" "fl_frame S s1 s2"
    using SET_COLOR_in [of s1 "FR cp t p sp mp # k" Black "Nd Black a v sv mv b" w sw mw wR S Red] 1(2) S by auto
  let ?mw = "max (max sw (tmax b)) (tmax wR)"
  let ?mv = "max (max sv (tmax a)) ?mw"
  obtain s3 where 3: "right_rotate s2 w = Some s3"
     "tree_at s3 (plug k (Nd cp t p sp mp (Nd Black a v sv ?mv (Nd Red b w sw ?mw wR))))" "fl_frame S s2 s3"
    using right_rotate_at [of s2 "FR cp t p sp mp # k" Red Black a v sv mv b w sw mw wR] 2(2)
    by (auto simp: S_def set_addrs_plug)
  have F: "fl_frame S s s3" using 1(3) 2(3) 3(3) by (blast intro: fl_frame_trans1)
  then have nl: "fl_nil s3 = fl_nil s" by (simp add: fl_frame_def)
  let ?W = "Nd Black (Nd Red a v sv mv b) w sw mw wR" and ?V = "Nd Black a v sv ?mv (Nd Red b w sw ?mw wR)"
  have T3: "tree_at s3 (plug (FL cp p sp mp ?V # k) t)" "tree_at s3 (plug (FR cp t p sp mp # k) ?V)"
    "tree_at s3 (plug (FL Black v sv ?mv (Nd Red b w sw ?mw wR) # FR cp t p sp mp # k) a)"
    "tree_at s3 (plug (FR Black a v sv ?mv # FR cp t p sp mp # k) (Nd Red b w sw ?mw wR))"
    using 3(2) by auto
  have T0: "tree_at s (plug (FL cp p sp mp ?W # k) t)" "tree_at s (plug (FR cp t p sp mp # k) ?W)"
     "tree_at s (plug (FL Black w sw mw wR # FR cp t p sp mp # k) (Nd Red a v sv mv b))"
     "tree_at s (plug (FR Black (Nd Red a v sv mv b) w sw mw # FR cp t p sp mp # k) wR)" using T by auto
  have "rb_delete_fixup_loop s (ptr (fl_nil s) t) p = rb_delete_fixup_loop s3 (ptr (fl_nil s) t) p"
    unfolding rb_delete_fixup_loop.simps [of s "ptr (fl_nil s) t" p] rb_delete_fixup_loop.simps [of s3 "ptr (fl_nil s) t" p]
    using tree_node [OF T] tree_node [OF T0(2)] del_focus [OF T0(1)] rd_color_at [OF T0(1)] 1(1) 2(1) 3(1)
      tree_node [OF T0(3)] rd_color_at [OF T0(4)] tree_node [OF T3(4)]
      tree_node [OF 3(2)] tree_node [OF T3(2)] del_focus [OF T3(1)] rd_color_at [OF T3(1)] rd_color_at [OF T3(3)] c nl
    by (simp add: heap_exec cong: bind_weak)
  with 3(2) F nl show ?thesis by (intro exI [of _ s3]) simp
qed

lemma del_case4_left:
  assumes T: "tree_at s (plug k (Nd cp t p sp mp (Nd Black wL w sw mw (Nd Red a v sv mv b))))"
    and c: "rc t = Black"
  defines "S \<equiv> set (addrs (plug k (Nd cp t p sp mp (Nd Black wL w sw mw (Nd Red a v sv mv b)))))"
  shows "\<exists>s' mp' mw'. rb_delete_fixup_loop s (ptr (fl_nil s) t) p = Some (s', fl_root s') \<and>
     tree_at s' (plug k (Nd cp (Nd Black t p sp mp' wL) w sw mw' (Nd Black a v sv mv b))) \<and> fl_frame S s s' \<and>
     mp' = max (max sp (tmax t)) (tmax wL) \<and> mw' = max (max sw mp') mv"
proof -
  have S: "v \<in> S" "w \<in> S" "p \<in> S" by (auto simp: S_def set_addrs_plug)
  let ?V = "Nd Red a v sv mv b" and ?V' = "Nd Black a v sv mv b"
  have T0: "tree_at s (plug (FL cp p sp mp (Nd Black wL w sw mw ?V) # k) t)"
     "tree_at s (plug (FR cp t p sp mp # k) (Nd Black wL w sw mw ?V))"
     "tree_at s (plug (FL Black w sw mw ?V # FR cp t p sp mp # k) wL)"
     "tree_at s (plug (FR Black wL w sw mw # FR cp t p sp mp # k) ?V)" using T by auto
  obtain s1 where 1: "SET_COLOR s w cp = Some s1"
     "tree_at s1 (plug k (Nd cp t p sp mp (Nd cp wL w sw mw ?V)))" "fl_frame S s s1"
    using SET_COLOR_in [OF T0(2) S(2), of cp] by auto
  obtain s2 where 2: "SET_COLOR s1 p Black = Some s2"
     "tree_at s2 (plug k (Nd Black t p sp mp (Nd cp wL w sw mw ?V)))" "fl_frame S s1 s2"
    using SET_COLOR_in [OF 1(2) S(3)] by blast
  have T2: "tree_at s2 (plug (FR cp wL w sw mw # FR Black t p sp mp # k) ?V)"
    "tree_at s2 (plug (FR Black t p sp mp # k) (Nd cp wL w sw mw ?V))" using 2(2) by auto
  obtain s3 where 3: "SET_COLOR s2 v Black = Some s3"
     "tree_at s3 (plug k (Nd Black t p sp mp (Nd cp wL w sw mw ?V')))" "fl_frame S s2 s3"
    using SET_COLOR_in [OF T2(1) S(1), of Black] by auto
  let ?mp = "max (max sp (tmax t)) (tmax wL)"
  obtain s4 where 4: "left_rotate s3 p = Some s4"
     "tree_at s4 (plug k (Nd cp (Nd Black t p sp ?mp wL) w sw (max (max sw ?mp) mv) ?V'))" "fl_frame S s3 s4"
    using left_rotate_at [OF 3(2)] by (auto simp: S_def set_addrs_plug)
  have F: "fl_frame S s s4" using 1(3) 2(3) 3(3) 4(3) by (blast intro: fl_frame_trans1)
  have stop: "rb_delete_fixup_loop s4 (fl_root s4) p = Some (s4, fl_root s4)"
    by (subst rb_delete_fixup_loop.simps) simp
  have "rb_delete_fixup_loop s (ptr (fl_nil s) t) p = Some (s4, fl_root s4)"
    using tree_node [OF T] tree_node [OF T0(2)] tree_node [OF T0(4)] del_focus [OF T0(1)] rd_color_at [OF T0(1)]
      rd_color_at [OF T0(3)] 1(1) 2(1) 3(1) 4(1) tree_node [OF T2(2)] stop c
    by (subst rb_delete_fixup_loop.simps) (simp add: heap_exec cong: bind_weak)
  with 4(2) F show ?thesis by auto
qed

subsection \<open>The cases for a right child\<close>

lemma sibling_neq:
  assumes "tree_at s (plug k (Nd cp (Nd cw wL w sw mw wR) p sp mp t))"
  shows "ptr (fl_nil s) t \<noteq> w"
  using assms by (cases t) (auto simp: tree_at_plug)

lemma del_case1_right:
  assumes T: "tree_at s (plug k (Nd cp (Nd Red wL w sw mw wR) p sp mp t))"
    and c: "rc t = Black" "rc wR = Black" "wR \<noteq> Lf"
  defines "S \<equiv> set (addrs (plug k (Nd cp (Nd Red wL w sw mw wR) p sp mp t)))"
  shows "\<exists>s' mp' mw'. rb_delete_fixup_loop s (ptr (fl_nil s) t) p = rb_delete_fixup_loop s' (ptr (fl_nil s') t) p \<and>
     tree_at s' (plug k (Nd Black wL w sw mw' (Nd Red wR p sp mp' t))) \<and> fl_frame S s s' \<and>
     mp' = max (max sp (tmax wR)) (tmax t) \<and> mw' = max (max sw (tmax wL)) mp'"
proof -
  have S: "p \<in> S" "w \<in> S" by (auto simp: S_def set_addrs_plug)
  obtain s1 where 1: "SET_COLOR s w Black = Some s1"
     "tree_at s1 (plug k (Nd cp (Nd Black wL w sw mw wR) p sp mp t))" "fl_frame S s s1"
    using SET_COLOR_in [of s "FL cp p sp mp t # k" Red wL w sw mw wR S Black] T S by auto
  obtain s2 where 2: "SET_COLOR s1 p Red = Some s2"
     "tree_at s2 (plug k (Nd Red (Nd Black wL w sw mw wR) p sp mp t))" "fl_frame S s1 s2"
    using SET_COLOR_in [OF 1(2) S(1)] by blast
  let ?mp = "max (max sp (tmax wR)) (tmax t)"
  let ?mw = "max (max sw (tmax wL)) ?mp"
  obtain s3 where 3: "right_rotate s2 p = Some s3"
     "tree_at s3 (plug k (Nd Black wL w sw ?mw (Nd Red wR p sp ?mp t)))" "fl_frame S s2 s3"
    using right_rotate_at [OF 2(2)] by (auto simp: S_def set_addrs_plug)
  have F: "fl_frame S s s3" using 1(3) 2(3) 3(3) by (blast intro: fl_frame_trans1)
  then have nl: "fl_nil s3 = fl_nil s" by (simp add: fl_frame_def)
  have T3: "tree_at s3 (plug (FR Black wL w sw ?mw # k) (Nd Red wR p sp ?mp t))"
    "tree_at s3 (plug (FR Red wR p sp ?mp # FR Black wL w sw ?mw # k) t)"
    "tree_at s3 (plug (FL Red p sp ?mp t # FR Black wL w sw ?mw # k) wR)"
    using 3(2) by auto
  have T0: "tree_at s (plug (FR cp (Nd Red wL w sw mw wR) p sp mp # k) t)"
     "tree_at s (plug (FL cp p sp mp t # k) (Nd Red wL w sw mw wR))" using T by auto
  have d: "ptr (fl_nil s) t \<noteq> ptr (fl_nil s) wR"
    using c(3) T by (cases t; cases wR) (auto simp: tree_at_plug)
  have "rb_delete_fixup_loop s (ptr (fl_nil s) t) p = rb_delete_fixup_loop s3 (ptr (fl_nil s) t) p"
    unfolding rb_delete_fixup_loop.simps [of s "ptr (fl_nil s) t" p] rb_delete_fixup_loop.simps [of s3 "ptr (fl_nil s) t" p]
    using tree_node [OF T] tree_node [OF T0(2)] del_focus [OF T0(1)] rd_color_at [OF T0(1)] 1(1) 2(1) 3(1)
      tree_node [OF T3(1)] del_focus [OF T3(2)] rd_color_at [OF T3(2)] rd_color_at [OF T3(3)] c nl sibling_neq [OF T] d
    by (simp add: heap_exec cong: bind_weak)
  with 3(2) F nl show ?thesis by (intro exI [of _ s3]) simp
qed

lemma del_case2_right:
  assumes T: "tree_at s (plug k (Nd cp (Nd Black wL w sw mw wR) p sp mp t))"
    and c: "rc t = Black" "rc wL = Black" "rc wR = Black"
  defines "S \<equiv> set (addrs (plug k (Nd cp (Nd Black wL w sw mw wR) p sp mp t)))"
  shows "\<exists>s'. rb_delete_fixup_loop s (ptr (fl_nil s) t) p = rb_delete_fixup_loop s' p (par (fl_nil s') k) \<and>
     tree_at s' (plug k (Nd cp (Nd Red wL w sw mw wR) p sp mp t)) \<and> fl_frame S s s'"
proof -
  have S: "w \<in> S" by (auto simp: S_def set_addrs_plug)
  have T0: "tree_at s (plug (FR cp (Nd Black wL w sw mw wR) p sp mp # k) t)"
     "tree_at s (plug (FL cp p sp mp t # k) (Nd Black wL w sw mw wR))"
     "tree_at s (plug (FL Black w sw mw wR # FL cp p sp mp t # k) wL)"
     "tree_at s (plug (FR Black wL w sw mw # FL cp p sp mp t # k) wR)" using T by auto
  obtain s1 where 1: "SET_COLOR s w Red = Some s1"
     "tree_at s1 (plug k (Nd cp (Nd Red wL w sw mw wR) p sp mp t))" "fl_frame S s s1"
    using SET_COLOR_in [OF T0(2) S, of Red] by auto
  have "rb_delete_fixup_loop s (ptr (fl_nil s) t) p = rb_delete_fixup_loop s1 p (par (fl_nil s1) k)"
    using tree_node [OF T] tree_node [OF T0(2)] del_focus [OF T0(1)] rd_color_at [OF T0(1)] sibling_neq [OF T]
      rd_color_at [OF T0(3)] rd_color_at [OF T0(4)] 1(1) tree_node [OF 1(2)] c
    by (subst rb_delete_fixup_loop.simps) (simp add: heap_exec cong: bind_weak)
  with 1 show ?thesis by auto
qed

lemma del_case3_right:
  assumes T: "tree_at s (plug k (Nd cp (Nd Black wL w sw mw (Nd Red a v sv mv b)) p sp mp t))"
    and c: "rc t = Black" "rc wL = Black"
  defines "S \<equiv> set (addrs (plug k (Nd cp (Nd Black wL w sw mw (Nd Red a v sv mv b)) p sp mp t)))"
  shows "\<exists>s' mw' mv'. rb_delete_fixup_loop s (ptr (fl_nil s) t) p = rb_delete_fixup_loop s' (ptr (fl_nil s') t) p \<and>
     tree_at s' (plug k (Nd cp (Nd Black (Nd Red wL w sw mw' a) v sv mv' b) p sp mp t)) \<and> fl_frame S s s' \<and>
     mw' = max (max sw (tmax wL)) (tmax a) \<and> mv' = max (max sv mw') (tmax b)"
proof -
  have S: "v \<in> S" "w \<in> S" by (auto simp: S_def set_addrs_plug)
  let ?W = "Nd Black wL w sw mw (Nd Red a v sv mv b)"
  have T0: "tree_at s (plug (FR cp ?W p sp mp # k) t)" "tree_at s (plug (FL cp p sp mp t # k) ?W)"
     "tree_at s (plug (FR Black wL w sw mw # FL cp p sp mp t # k) (Nd Red a v sv mv b))"
     "tree_at s (plug (FL Black w sw mw (Nd Red a v sv mv b) # FL cp p sp mp t # k) wL)" using T by auto
  obtain s1 where 1: "SET_COLOR s v Black = Some s1"
     "tree_at s1 (plug (FL cp p sp mp t # k) (Nd Black wL w sw mw (Nd Black a v sv mv b)))" "fl_frame S s s1"
    using SET_COLOR_in [OF T0(3) S(1), of Black] by auto
  obtain s2 where 2: "SET_COLOR s1 w Red = Some s2"
     "tree_at s2 (plug (FL cp p sp mp t # k) (Nd Red wL w sw mw (Nd Black a v sv mv b)))" "fl_frame S s1 s2"
    using SET_COLOR_in [OF 1(2) S(2), of Red] by auto
  let ?mw = "max (max sw (tmax wL)) (tmax a)"
  let ?mv = "max (max sv ?mw) (tmax b)"
  obtain s3 where 3: "left_rotate s2 w = Some s3"
     "tree_at s3 (plug k (Nd cp (Nd Black (Nd Red wL w sw ?mw a) v sv ?mv b) p sp mp t))" "fl_frame S s2 s3"
    using left_rotate_at [OF 2(2)] by (auto simp: S_def set_addrs_plug)
  have F: "fl_frame S s s3" using 1(3) 2(3) 3(3) by (blast intro: fl_frame_trans1)
  then have nl: "fl_nil s3 = fl_nil s" by (simp add: fl_frame_def)
  let ?V = "Nd Black (Nd Red wL w sw ?mw a) v sv ?mv b"
  have T3: "tree_at s3 (plug (FR cp ?V p sp mp # k) t)" "tree_at s3 (plug (FL cp p sp mp t # k) ?V)"
    "tree_at s3 (plug (FR Black (Nd Red wL w sw ?mw a) v sv ?mv # FL cp p sp mp t # k) b)"
    "tree_at s3 (plug (FL Black v sv ?mv b # FL cp p sp mp t # k) (Nd Red wL w sw ?mw a))"
    using 3(2) by auto
  have "rb_delete_fixup_loop s (ptr (fl_nil s) t) p = rb_delete_fixup_loop s3 (ptr (fl_nil s) t) p"
    unfolding rb_delete_fixup_loop.simps [of s "ptr (fl_nil s) t" p] rb_delete_fixup_loop.simps [of s3 "ptr (fl_nil s) t" p]
    using tree_node [OF T] tree_node [OF T0(2)] del_focus [OF T0(1)] rd_color_at [OF T0(1)] 1(1) 2(1) 3(1)
      tree_node [OF T0(3)] rd_color_at [OF T0(4)] tree_node [OF T3(4)] sibling_neq [OF T] sibling_neq [OF 3(2)]
      tree_node [OF 3(2)] tree_node [OF T3(2)] del_focus [OF T3(1)] rd_color_at [OF T3(1)] rd_color_at [OF T3(3)] c nl
    by (simp add: heap_exec cong: bind_weak)
  with 3(2) F nl show ?thesis by (intro exI [of _ s3]) simp
qed

lemma del_case4_right:
  assumes T: "tree_at s (plug k (Nd cp (Nd Black (Nd Red a v sv mv b) w sw mw wR) p sp mp t))"
    and c: "rc t = Black"
  defines "S \<equiv> set (addrs (plug k (Nd cp (Nd Black (Nd Red a v sv mv b) w sw mw wR) p sp mp t)))"
  shows "\<exists>s' mp' mw'. rb_delete_fixup_loop s (ptr (fl_nil s) t) p = Some (s', fl_root s') \<and>
     tree_at s' (plug k (Nd cp (Nd Black a v sv mv b) w sw mw' (Nd Black wR p sp mp' t))) \<and> fl_frame S s s' \<and>
     mp' = max (max sp (tmax wR)) (tmax t) \<and> mw' = max (max sw mv) mp'"
proof -
  have S: "v \<in> S" "w \<in> S" "p \<in> S" by (auto simp: S_def set_addrs_plug)
  let ?V = "Nd Red a v sv mv b" and ?V' = "Nd Black a v sv mv b"
  have T0: "tree_at s (plug (FR cp (Nd Black ?V w sw mw wR) p sp mp # k) t)"
     "tree_at s (plug (FL cp p sp mp t # k) (Nd Black ?V w sw mw wR))"
     "tree_at s (plug (FR Black ?V w sw mw # FL cp p sp mp t # k) wR)"
     "tree_at s (plug (FL Black w sw mw wR # FL cp p sp mp t # k) ?V)" using T by auto
  obtain s1 where 1: "SET_COLOR s w cp = Some s1"
     "tree_at s1 (plug k (Nd cp (Nd cp ?V w sw mw wR) p sp mp t))" "fl_frame S s s1"
    using SET_COLOR_in [OF T0(2) S(2), of cp] by auto
  obtain s2 where 2: "SET_COLOR s1 p Black = Some s2"
     "tree_at s2 (plug k (Nd Black (Nd cp ?V w sw mw wR) p sp mp t))" "fl_frame S s1 s2"
    using SET_COLOR_in [OF 1(2) S(3)] by blast
  have T2: "tree_at s2 (plug (FL cp w sw mw wR # FL Black p sp mp t # k) ?V)"
    "tree_at s2 (plug (FL Black p sp mp t # k) (Nd cp ?V w sw mw wR))" using 2(2) by auto
  obtain s3 where 3: "SET_COLOR s2 v Black = Some s3"
     "tree_at s3 (plug k (Nd Black (Nd cp ?V' w sw mw wR) p sp mp t))" "fl_frame S s2 s3"
    using SET_COLOR_in [OF T2(1) S(1), of Black] by auto
  let ?mp = "max (max sp (tmax wR)) (tmax t)"
  obtain s4 where 4: "right_rotate s3 p = Some s4"
     "tree_at s4 (plug k (Nd cp ?V' w sw (max (max sw mv) ?mp) (Nd Black wR p sp ?mp t)))" "fl_frame S s3 s4"
    using right_rotate_at [OF 3(2)] by (auto simp: S_def set_addrs_plug)
  have F: "fl_frame S s s4" using 1(3) 2(3) 3(3) 4(3) by (blast intro: fl_frame_trans1)
  have stop: "rb_delete_fixup_loop s4 (fl_root s4) p = Some (s4, fl_root s4)"
    by (subst rb_delete_fixup_loop.simps) simp
  have "rb_delete_fixup_loop s (ptr (fl_nil s) t) p = Some (s4, fl_root s4)"
    using tree_node [OF T] tree_node [OF T0(2)] tree_node [OF T0(4)] del_focus [OF T0(1)] rd_color_at [OF T0(1)]
      rd_color_at [OF T0(3)] 1(1) 2(1) 3(1) 4(1) tree_node [OF T2(2)] stop c sibling_neq [OF T]
    by (subst rb_delete_fixup_loop.simps) (simp add: heap_exec cong: bind_weak)
  with 4(2) F show ?thesis by auto
qed

subsection \<open>Correctness of the loop\<close>

definition rebalanced :: "rbt \<Rightarrow> fl_state \<Rightarrow> fl_state \<Rightarrow> bool" where
  "rebalanced T s s' \<longleftrightarrow> (\<exists>T'. tree_at s' T' \<and> rbt_ok T' \<and> blocks T' = blocks T \<and>
     fl_frame (set (addrs T)) s s')"

text \<open>The loop invariant: the path through the hole of \<open>k\<close> misses one black node.\<close>

definition short_of :: "frame list \<Rightarrow> rbt \<Rightarrow> bool" where
  "short_of k t \<longleftrightarrow> invc (paint Black t) \<and> invh t \<and> mok t \<and> cctx Black k \<and> hctx (Suc (bh t)) k \<and>
     mctx (tmax t) k \<and> cbot k"

lemma paint_black [simp]: "rc t = Black \<Longrightarrow> paint Black t = t"
  by (cases t) auto

lemma cctx_Black: "cctx d k \<Longrightarrow> cctx Black k"
  by (cases "(d, k)" rule: cctx.cases) auto

lemma rebalanced_trans:
  assumes "rebalanced T' s' s''" "fl_frame (set (addrs T)) s s'" "blocks T' = blocks T"
  shows "rebalanced T s s''"
  using assms unfolding rebalanced_def by (metis addrs_blocks fl_frame_trans1)

lemma fixup_cong:
  "rb_delete_fixup_loop s x p = rb_delete_fixup_loop s' x' p' \<Longrightarrow> rb_delete_fixup s x p = rb_delete_fixup s' x' p'"
  by (simp add: rb_delete_fixup_def)

lemma fixup_stop_del:
  assumes T: "tree_at s (plug k t)" "short_of k t" and "k = [] \<or> rc t = Red"
  shows "\<exists>s'. rb_delete_fixup s (ptr (fl_nil s) t) xp = Some s' \<and> rebalanced (plug k t) s s'"
proof (cases t)
  case Lf
  then have "k = []" using assms(3) by simp
  with Lf T show ?thesis
    by (auto simp: rb_delete_fixup_def del_stop [OF T(1) assms(3), simplified Lf, simplified] rebalanced_def
        rbt_ok_def short_of_def fl_frame_def intro!: exI [of _ Lf])
next
  case (Nd c l a z x r)
  obtain s' where "SET_COLOR s a Black = Some s'" "tree_at s' (plug k (Nd Black l a z x r))"
      "fl_frame (set (addrs (plug k t))) s s'"
    using SET_COLOR_at [of s k c l a z x r Black] T Nd by auto
  moreover have "rbt_ok (plug k (Nd Black l a z x r))"
    using T(2) assms(3) Nd by (auto simp: rbt_ok_plug short_of_def cbot_def)
  moreover have "a \<noteq> fl_nil s" using T Nd tree_node by blast
  ultimately show ?thesis
    using del_stop [OF T(1) assms(3)] Nd
    by (auto simp: rb_delete_fixup_def rebalanced_def blocks_plug intro!: exI [of _ "plug k (Nd Black l a z x r)"])
qed

lemma fixup_root_del:
  assumes "rb_delete_fixup_loop s x xp = Some (s', fl_root s')" "tree_at s' (plug k t)" "t \<noteq> Lf"
    "fl_frame (set (addrs T)) s s'" "blocks (plug k t) = blocks T"
    "invc t" "cctx (rc t) k" "invh t" "hctx (bh t) k" "mok t" "mctx (tmax t) k"
  shows "\<exists>s''. rb_delete_fixup s x xp = Some s'' \<and> rebalanced T s s''"
proof -
  have ne: "plug k t \<noteq> Lf" using assms(3) plug_not_Lf by (cases "k = []") auto
  have A: "addrs (plug k t) = addrs T" using assms(5) by (simp add: addrs_blocks)
  have r: "fl_root s' \<noteq> fl_nil s'" using assms(2) ne by (auto simp: tree_at_def ptr_nil_iff)
  obtain s'' where 2: "SET_COLOR s' (fl_root s') Black = Some s''" "tree_at s'' (paint Black (plug k t))"
     "fl_frame (set (addrs T)) s' s''"
    using SET_COLOR_root [OF assms(2) ne, of Black] A by auto
  have "invc (plug k t)" "invh (plug k t)" "mok (plug k t)"
    using assms by (simp_all add: invc_plug invh_plug mok_plug)
  then have "rbt_ok (paint Black (plug k t))"
    using ne by (cases "plug k t") (auto simp: rbt_ok_def)
  with 2 assms(1,4,5) r fl_frame_trans1 show ?thesis
    by (auto simp: rb_delete_fixup_def rebalanced_def intro!: exI [of _ "paint Black (plug k t)"])
qed

lemma del_outer_left:
  assumes T: "tree_at s (plug k (Nd cp t p sp mp (Nd Black wL w sw mw wR)))"
    and sh: "short_of (FL cp p sp mp (Nd Black wL w sw mw wR) # k) t" and c: "rc t = Black" "rc wR = Red"
  defines "T \<equiv> plug k (Nd cp t p sp mp (Nd Black wL w sw mw wR))"
  shows "\<exists>s'. rb_delete_fixup s (ptr (fl_nil s) t) p = Some s' \<and> rebalanced T s s'"
proof -
  obtain a v sv mv b where v: "wR = Nd Red a v sv mv b" using c(2) by (cases wR) auto
  obtain s1 mp' mw' where 1: "rb_delete_fixup_loop s (ptr (fl_nil s) t) p = Some (s1, fl_root s1)"
     "tree_at s1 (plug k (Nd cp (Nd Black t p sp mp' wL) w sw mw' (Nd Black a v sv mv b)))"
     "fl_frame (set (addrs T)) s s1" "mp' = max (max sp (tmax t)) (tmax wL)" "mw' = max (max sw mp') mv"
    using del_case4_left [OF T [unfolded v] c(1)] unfolding v T_def by blast
  have m: "mok wL" "mok wR" "mw' = mp" "mctx mp k" "mok t"
    using sh 1(4,5) v by (auto simp: short_of_def ac_simps)
  show ?thesis
    by (rule fixup_root_del [OF 1(1,2) _ 1(3)])
      (use sh m 1(4,5) c v in \<open>auto simp: short_of_def T_def blocks_plug split: if_splits\<close>)
qed

lemma del_black_left:
  assumes T: "tree_at s (plug k (Nd cp t p sp mp (Nd Black wL w sw mw wR)))"
    and sh: "short_of (FL cp p sp mp (Nd Black wL w sw mw wR) # k) t" and c: "rc t = Black"
    and cont: "\<And>s' t'. cp = Black \<Longrightarrow> tree_at s' (plug k t') \<Longrightarrow> short_of k t' \<Longrightarrow>
      \<exists>s''. rb_delete_fixup s' (ptr (fl_nil s') t') (par (fl_nil s') k) = Some s'' \<and> rebalanced (plug k t') s' s''"
  defines "T \<equiv> plug k (Nd cp t p sp mp (Nd Black wL w sw mw wR))"
  shows "\<exists>s'. rb_delete_fixup s (ptr (fl_nil s) t) p = Some s' \<and> rebalanced T s s'"
proof -
  consider (near) "rc wL = Red" "rc wR = Black" | (far) "rc wR = Red" | (none) "rc wL = Black" "rc wR = Black"
    by (cases "rc wL"; cases "rc wR") auto
  then show ?thesis
  proof cases
    case far
    then show ?thesis using del_outer_left [OF T sh c] by (simp add: T_def)
  next
    case near
    then obtain a v sv mv b where v: "wL = Nd Red a v sv mv b" by (cases wL) auto
    obtain s1 mw' mv' where 1: "rb_delete_fixup_loop s (ptr (fl_nil s) t) p = rb_delete_fixup_loop s1 (ptr (fl_nil s1) t) p"
      "tree_at s1 (plug k (Nd cp t p sp mp (Nd Black a v sv mv' (Nd Red b w sw mw' wR))))"
      "fl_frame (set (addrs T)) s s1" "mw' = max (max sw (tmax b)) (tmax wR)" "mv' = max (max sv (tmax a)) mw'"
      using del_case3_left [OF T [unfolded v] c near(2)] unfolding v T_def by blast
    have mv: "mv' = mw" using sh 1(4,5) v by (auto simp: short_of_def ac_simps)
    have "short_of (FL cp p sp mp (Nd Black a v sv mv' (Nd Red b w sw mw' wR)) # k) t"
      using sh near(2) 1(4,5) mv v by (auto simp: short_of_def cbot_def split: if_splits)
    from del_outer_left [OF 1(2) this c] obtain s2 where
      2: "rb_delete_fixup s1 (ptr (fl_nil s1) t) p = Some s2"
      "rebalanced (plug k (Nd cp t p sp mp (Nd Black a v sv mv' (Nd Red b w sw mw' wR)))) s1 s2" by auto
    with fixup_cong [OF 1(1)] rebalanced_trans [OF 2(2) 1(3)] v show ?thesis
      by (auto simp: T_def blocks_plug)
  next
    case none
    obtain s1 where 1: "rb_delete_fixup_loop s (ptr (fl_nil s) t) p = rb_delete_fixup_loop s1 p (par (fl_nil s1) k)"
      "tree_at s1 (plug k (Nd cp t p sp mp (Nd Red wL w sw mw wR)))" "fl_frame (set (addrs T)) s s1"
      using del_case2_left [OF T c none] unfolding T_def by blast
    let ?t = "Nd cp t p sp mp (Nd Red wL w sw mw wR)"
    have sh': "short_of k ?t"
      using sh none c by (cases cp; cases k) (auto simp: short_of_def cbot_def cctx_Black split: if_splits)
    have "\<exists>s''. rb_delete_fixup s1 (ptr (fl_nil s1) ?t) (par (fl_nil s1) k) = Some s'' \<and> rebalanced (plug k ?t) s1 s''"
    proof (cases cp)
      case Red
      then show ?thesis using fixup_stop_del [OF 1(2) sh'] by simp
    next
      case Black
      then show ?thesis using cont [OF _ 1(2) sh'] by simp
    qed
    then obtain s2 where 2: "rb_delete_fixup s1 p (par (fl_nil s1) k) = Some s2" "rebalanced (plug k ?t) s1 s2"
      by auto
    with fixup_cong [OF 1(1)] rebalanced_trans [OF 2(2) 1(3)] show ?thesis
      by (auto simp: T_def blocks_plug)
  qed
qed

lemma del_outer_right:
  assumes T: "tree_at s (plug k (Nd cp (Nd Black wL w sw mw wR) p sp mp t))"
    and sh: "short_of (FR cp (Nd Black wL w sw mw wR) p sp mp # k) t" and c: "rc t = Black" "rc wL = Red"
  defines "T \<equiv> plug k (Nd cp (Nd Black wL w sw mw wR) p sp mp t)"
  shows "\<exists>s'. rb_delete_fixup s (ptr (fl_nil s) t) p = Some s' \<and> rebalanced T s s'"
proof -
  obtain a v sv mv b where v: "wL = Nd Red a v sv mv b" using c(2) by (cases wL) auto
  obtain s1 mp' mw' where 1: "rb_delete_fixup_loop s (ptr (fl_nil s) t) p = Some (s1, fl_root s1)"
     "tree_at s1 (plug k (Nd cp (Nd Black a v sv mv b) w sw mw' (Nd Black wR p sp mp' t)))"
     "fl_frame (set (addrs T)) s s1" "mp' = max (max sp (tmax wR)) (tmax t)" "mw' = max (max sw mv) mp'"
    using del_case4_right [OF T [unfolded v] c(1)] unfolding v T_def by blast
  have m: "mok wL" "mok wR" "mw' = mp" "mctx mp k" "mok t"
    using sh 1(4,5) v by (auto simp: short_of_def ac_simps)
  show ?thesis
    by (rule fixup_root_del [OF 1(1,2) _ 1(3)])
      (use sh m 1(4,5) c v in \<open>auto simp: short_of_def T_def blocks_plug split: if_splits\<close>)
qed

lemma del_black_right:
  assumes T: "tree_at s (plug k (Nd cp (Nd Black wL w sw mw wR) p sp mp t))"
    and sh: "short_of (FR cp (Nd Black wL w sw mw wR) p sp mp # k) t" and c: "rc t = Black"
    and cont: "\<And>s' t'. cp = Black \<Longrightarrow> tree_at s' (plug k t') \<Longrightarrow> short_of k t' \<Longrightarrow>
      \<exists>s''. rb_delete_fixup s' (ptr (fl_nil s') t') (par (fl_nil s') k) = Some s'' \<and> rebalanced (plug k t') s' s''"
  defines "T \<equiv> plug k (Nd cp (Nd Black wL w sw mw wR) p sp mp t)"
  shows "\<exists>s'. rb_delete_fixup s (ptr (fl_nil s) t) p = Some s' \<and> rebalanced T s s'"
proof -
  consider (near) "rc wR = Red" "rc wL = Black" | (far) "rc wL = Red" | (none) "rc wL = Black" "rc wR = Black"
    by (cases "rc wL"; cases "rc wR") auto
  then show ?thesis
  proof cases
    case far
    then show ?thesis using del_outer_right [OF T sh c] by (simp add: T_def)
  next
    case near
    then obtain a v sv mv b where v: "wR = Nd Red a v sv mv b" by (cases wR) auto
    obtain s1 mw' mv' where 1: "rb_delete_fixup_loop s (ptr (fl_nil s) t) p = rb_delete_fixup_loop s1 (ptr (fl_nil s1) t) p"
      "tree_at s1 (plug k (Nd cp (Nd Black (Nd Red wL w sw mw' a) v sv mv' b) p sp mp t))"
      "fl_frame (set (addrs T)) s s1" "mw' = max (max sw (tmax wL)) (tmax a)" "mv' = max (max sv mw') (tmax b)"
      using del_case3_right [OF T [unfolded v] c near(2)] unfolding v T_def by blast
    have mv: "mv' = mw" using sh 1(4,5) v by (auto simp: short_of_def ac_simps)
    have "short_of (FR cp (Nd Black (Nd Red wL w sw mw' a) v sv mv' b) p sp mp # k) t"
      using sh near(2) 1(4,5) mv v by (auto simp: short_of_def cbot_def split: if_splits)
    from del_outer_right [OF 1(2) this c] obtain s2 where
      2: "rb_delete_fixup s1 (ptr (fl_nil s1) t) p = Some s2"
      "rebalanced (plug k (Nd cp (Nd Black (Nd Red wL w sw mw' a) v sv mv' b) p sp mp t)) s1 s2" by auto
    with fixup_cong [OF 1(1)] rebalanced_trans [OF 2(2) 1(3)] v show ?thesis
      by (auto simp: T_def blocks_plug)
  next
    case none
    obtain s1 where 1: "rb_delete_fixup_loop s (ptr (fl_nil s) t) p = rb_delete_fixup_loop s1 p (par (fl_nil s1) k)"
      "tree_at s1 (plug k (Nd cp (Nd Red wL w sw mw wR) p sp mp t))" "fl_frame (set (addrs T)) s s1"
      using del_case2_right [OF T c none] unfolding T_def by blast
    let ?t = "Nd cp (Nd Red wL w sw mw wR) p sp mp t"
    have sh': "short_of k ?t"
      using sh none c by (cases cp; cases k) (auto simp: short_of_def cbot_def cctx_Black split: if_splits)
    have "\<exists>s''. rb_delete_fixup s1 (ptr (fl_nil s1) ?t) (par (fl_nil s1) k) = Some s'' \<and> rebalanced (plug k ?t) s1 s''"
    proof (cases cp)
      case Red
      then show ?thesis using fixup_stop_del [OF 1(2) sh'] by simp
    next
      case Black
      then show ?thesis using cont [OF _ 1(2) sh'] by simp
    qed
    then obtain s2 where 2: "rb_delete_fixup s1 p (par (fl_nil s1) k) = Some s2" "rebalanced (plug k ?t) s1 s2"
      by auto
    with fixup_cong [OF 1(1)] rebalanced_trans [OF 2(2) 1(3)] show ?thesis
      by (auto simp: T_def blocks_plug)
  qed
qed

text \<open>A red sibling is rotated away first; the parent is red afterwards, so the loop ends at once.\<close>

lemma del_left:
  assumes T: "tree_at s (plug k (Nd cp t p sp mp W))"
    and sh: "short_of (FL cp p sp mp W # k) t" and c: "rc t = Black"
    and cont: "\<And>s' t'. tree_at s' (plug k t') \<Longrightarrow> short_of k t' \<Longrightarrow>
      \<exists>s''. rb_delete_fixup s' (ptr (fl_nil s') t') (par (fl_nil s') k) = Some s'' \<and> rebalanced (plug k t') s' s''"
  shows "\<exists>s'. rb_delete_fixup s (ptr (fl_nil s) t) p = Some s' \<and> rebalanced (plug k (Nd cp t p sp mp W)) s s'"
proof -
  obtain cw wL w sw mw wR where W: "W = Nd cw wL w sw mw wR"
    using sh by (cases W) (auto simp: short_of_def)
  show ?thesis
  proof (cases cw)
    case Black
    then show ?thesis using del_black_left [of s k cp t p sp mp wL w sw mw wR] T sh c cont W by blast
  next
    case Red
    have wL: "rc wL = Black" "wL \<noteq> Lf" using sh W Red by (auto simp: short_of_def)
    then obtain a v sv mv b where v: "wL = Nd Black a v sv mv b" by (cases wL) auto
    obtain s1 mp' mw' where 1: "rb_delete_fixup_loop s (ptr (fl_nil s) t) p = rb_delete_fixup_loop s1 (ptr (fl_nil s1) t) p"
      "tree_at s1 (plug (FL Black w sw mw' wR # k) (Nd Red t p sp mp' wL))"
      "fl_frame (set (addrs (plug k (Nd cp t p sp mp W)))) s s1"
      "mp' = max (max sp (tmax t)) (tmax wL)" "mw' = max (max sw mp') (tmax wR)"
      using del_case1_left [of s k cp t p sp mp wL w sw mw wR] T wL c Red W by auto
    have "mw' = mp" using sh 1(4,5) W by (auto simp: short_of_def ac_simps)
    then have "short_of (FL Red p sp mp' wL # FL Black w sw mw' wR # k) t"
      using sh wL Red W c 1(4,5) by (cases cp) (auto simp: short_of_def cbot_def cctx_Black split: if_splits)
    then obtain s2 where 2: "rb_delete_fixup s1 (ptr (fl_nil s1) t) p = Some s2"
      "rebalanced (plug (FL Black w sw mw' wR # k) (Nd Red t p sp mp' wL)) s1 s2"
      using del_black_left [of s1 "FL Black w sw mw' wR # k" Red t p sp mp' a v sv mv b] 1(2) c v by auto
    with fixup_cong [OF 1(1)] rebalanced_trans [OF 2(2) 1(3)] W show ?thesis by (auto simp: blocks_plug)
  qed
qed

lemma del_right:
  assumes T: "tree_at s (plug k (Nd cp W p sp mp t))"
    and sh: "short_of (FR cp W p sp mp # k) t" and c: "rc t = Black"
    and cont: "\<And>s' t'. tree_at s' (plug k t') \<Longrightarrow> short_of k t' \<Longrightarrow>
      \<exists>s''. rb_delete_fixup s' (ptr (fl_nil s') t') (par (fl_nil s') k) = Some s'' \<and> rebalanced (plug k t') s' s''"
  shows "\<exists>s'. rb_delete_fixup s (ptr (fl_nil s) t) p = Some s' \<and> rebalanced (plug k (Nd cp W p sp mp t)) s s'"
proof -
  obtain cw wL w sw mw wR where W: "W = Nd cw wL w sw mw wR"
    using sh by (cases W) (auto simp: short_of_def)
  show ?thesis
  proof (cases cw)
    case Black
    then show ?thesis using del_black_right [of s k cp wL w sw mw wR p sp mp t] T sh c cont W by blast
  next
    case Red
    have wR: "rc wR = Black" "wR \<noteq> Lf" using sh W Red by (auto simp: short_of_def)
    then obtain a v sv mv b where v: "wR = Nd Black a v sv mv b" by (cases wR) auto
    obtain s1 mp' mw' where 1: "rb_delete_fixup_loop s (ptr (fl_nil s) t) p = rb_delete_fixup_loop s1 (ptr (fl_nil s1) t) p"
      "tree_at s1 (plug (FR Black wL w sw mw' # k) (Nd Red wR p sp mp' t))"
      "fl_frame (set (addrs (plug k (Nd cp W p sp mp t)))) s s1"
      "mp' = max (max sp (tmax wR)) (tmax t)" "mw' = max (max sw (tmax wL)) mp'"
      using del_case1_right [of s k cp wL w sw mw wR p sp mp t] T wR c Red W by auto
    have "mw' = mp" using sh 1(4,5) W by (auto simp: short_of_def ac_simps)
    then have "short_of (FR Red wR p sp mp' # FR Black wL w sw mw' # k) t"
      using sh wR Red W c 1(4,5) by (cases cp) (auto simp: short_of_def cbot_def cctx_Black split: if_splits)
    then obtain s2 where 2: "rb_delete_fixup s1 (ptr (fl_nil s1) t) p = Some s2"
      "rebalanced (plug (FR Black wL w sw mw' # k) (Nd Red wR p sp mp' t)) s1 s2"
      using del_black_right [of s1 "FR Black wL w sw mw' # k" Red a v sv mv b p sp mp' t] 1(2) c v by auto
    with fixup_cong [OF 1(1)] rebalanced_trans [OF 2(2) 1(3)] W show ?thesis by (auto simp: blocks_plug)
  qed
qed

lemma rb_delete_fixup_at:
  assumes "tree_at s (plug k t)" "short_of k t"
  shows "\<exists>s'. rb_delete_fixup s (ptr (fl_nil s) t) (par (fl_nil s) k) = Some s' \<and> rebalanced (plug k t) s s'"
  using assms
proof (induction k arbitrary: s t)
  case Nil
  then show ?case by (intro fixup_stop_del) auto
next
  case (Cons f k)
  show ?case
  proof (cases "rc t")
    case Red
    then show ?thesis using Cons.prems by (intro fixup_stop_del) auto
  next
    case Black
    show ?thesis
    proof (cases f)
      case (FL cp p sp mp W)
      then show ?thesis using del_left [of s k cp t p sp mp W] Cons Black by auto
    next
      case (FR cp W p sp mp)
      then show ?thesis using del_right [of s k cp W p sp mp t] Cons Black by auto
    qed
  qed
qed

end
