(* ===== verification/RB_Delete.thy ===== *)
theory RB_Delete
  imports RB_Search RB_Rebalance
begin

text \<open>
  \<open>rb_transplant\<close>, \<open>delete_node\<close> and \<open>rb_delete_fixup\<close> on well-formed trees: deletion returns, keeps
  every red-black, order and maximum invariant, and removes exactly the given block.
\<close>

subsection \<open>Unlinking a node\<close>

lemma rb_transplant_eq:
  assumes "rep_ctx nl (fl_mem s) (fl_root s) u k" "fl_nil s = nl" "fl_mem s u = Some b" "parent b = par nl k"
    "u \<noteq> nl" "u \<notin> cset k" "nl \<notin> cset k" "0 \<notin> cset k" "nl \<noteq> 0"
    "fl_mem s (ptr nl t) \<noteq> None" "nl \<notin> set (addrs t)" "0 \<notin> set (addrs t)" "set (addrs t) \<inter> cset k = {}"
    "v = ptr nl t"
  shows "rb_transplant s u v =
    Some (s\<lparr>fl_root := set_root (fl_root s) k v,
            fl_mem := set_par (set_child (fl_mem s) k v) t (par nl k)\<rparr>)"
proof -
  have v: "v \<noteq> 0" "par nl k \<noteq> 0" using assms ptr_nz par_nz by auto
  have "ptr nl t \<notin> cset k" using assms by (cases t) auto
  then have "set_child (fl_mem s) k v (ptr nl t) \<noteq> None" using assms by auto
  then show ?thesis
    using assms v
    by (cases "t = Lf"; simp add: rb_transplant_def heap_exec relink_left SET_PARENT_at ptr_nil_iff
        cong: bind_weak del: not_None_eq)
qed


text \<open>Replacing a node that has at most one child by that child.\<close>

lemma rb_transplant_child:
  assumes T: "tree_at s (plug k (Nd c l z sz x r))" and t: "l = Lf \<and> t = r \<or> r = Lf \<and> t = l"
  shows "\<exists>s'. rb_transplant s z (ptr (fl_nil s) t) = Some s' \<and> tree_at s' (plug k t) \<and>
     fl_mem s' z = fl_mem s z \<and> fl_frame (set (addrs (plug k t))) s s'"
proof -
  note T' = T [unfolded tree_at_plug]
  let ?nl = "fl_nil s" and ?m = "fl_mem s"
  let ?m' = "set_par (set_child ?m k (ptr ?nl t)) t (par ?nl k)"
  have t': "rep ?nl ?m z t" "distinct (addrs t)" "set (addrs t) \<inter> cset k = {}" "?nl \<notin> set (addrs t)"
    "0 \<notin> set (addrs t)" "z \<notin> set (addrs t)"
    using T' t by auto
  have t'': "?m (ptr ?nl t) \<noteq> None" using rep_sub(1) [OF t'(1,4)] T' by blast
  have srt: "sorted_wrt (<) (addrs (plug k t))"
    using T [unfolded tree_at_def, THEN conjunct2, THEN conjunct2, THEN conjunct1] t
    by (elim disjE conjE) (simp_all add: addrs_plug sorted_wrt_append)
  have run: "rb_transplant s z (ptr ?nl t) =
      Some (s\<lparr>fl_root := set_root (fl_root s) k (ptr ?nl t), fl_mem := ?m'\<rparr>)"
    by (rule rb_transplant_eq [OF _ refl tree_node(1) [OF T]]) (use T' t' t'' in simp_all)
  have "rep ?nl ?m' (par ?nl k) t" "rep_ctx ?nl ?m' (set_root (fl_root s) k (ptr ?nl t)) (ptr ?nl t) k"
    "?m' ?nl = Some (nil_block ?nl)"
    using T' t' rep_set_par [of ?nl _ z t] rep_ctx_set_child [of ?nl ?m "fl_root s" z k "ptr ?nl t"]
    by simp_all
  then have "tree_at (s\<lparr>fl_root := set_root (fl_root s) k (ptr ?nl t), fl_mem := ?m'\<rparr>) (plug k t)"
    using T' t' srt by (simp add: tree_at_plug)
  with run show ?thesis
    using T' t' by (simp add: fl_frame_def set_addrs_plug)
qed

text \<open>The successor \<open>y\<close> of a node \<open>z\<close> with two children takes its place: \<open>y\<close> is the right child.\<close>

lemma splice_adjacent:
  assumes T: "tree_at s (plug k (Nd c l z sz x (Nd d Lf y sy my r)))" and l: "l \<noteq> Lf"
  shows "\<exists>s'. delete_splice s z = Some (s', y, ptr (fl_nil s) r, d, y, y) \<and>
     tree_at s' (plug k (Nd c l y sy my r)) \<and>
     fl_mem s' z = fl_mem s z \<and> fl_frame (set (addrs (plug k (Nd c l y sy my r)))) s s'"
proof -
  note T' = T [unfolded tree_at_plug]
  let ?nl = "fl_nil s"
  define m where "m = fl_mem s"
  have pl: "ptr ?nl l \<noteq> ?nl" using T' l by (simp add: ptr_nil_iff)
  have f: "m z = Some \<lparr>bsize = sz, parent = par ?nl k, left = ptr ?nl l, right = y, subtree_max = x, color = c\<rparr>"
    "m y = Some \<lparr>bsize = sy, parent = z, left = ?nl, right = ptr ?nl r, subtree_max = my, color = d\<rparr>"
    "rep ?nl m z l" "rep ?nl m y r" "rep_ctx ?nl m (fl_root s) z k" "m ?nl = Some (nil_block ?nl)"
    using T' by (simp_all add: m_def)
  have d: "z \<noteq> y" "z \<noteq> ?nl" "y \<noteq> ?nl" "z \<noteq> 0" "y \<noteq> 0" "?nl \<noteq> 0" "z \<notin> cset k" "y \<notin> cset k" "?nl \<notin> cset k" "0 \<notin> cset k"
    "z \<notin> set (addrs l)" "z \<notin> set (addrs r)" "y \<notin> set (addrs l)" "y \<notin> set (addrs r)"
    "?nl \<notin> set (addrs l)" "?nl \<notin> set (addrs r)" "0 \<notin> set (addrs l)" "0 \<notin> set (addrs r)"
    "set (addrs l) \<inter> set (addrs r) = {}" "set (addrs r) \<inter> set (addrs l) = {}"
    "set (addrs l) \<inter> cset k = {}" "set (addrs r) \<inter> cset k = {}"
    "distinct (addrs l)" "dctx k"
    using T' by auto
  have nz: "par ?nl k \<noteq> 0" "ptr ?nl l \<noteq> 0" "m (ptr ?nl l) \<noteq> None" "ptr ?nl l \<noteq> y" "ptr ?nl l \<noteq> z"
    "ptr ?nl l \<notin> cset k"
    using d f pl l by (auto simp: par_nz ptr_nz rep_sub ptr_neq) (cases l; auto)
  let ?Y = "Nd d Lf y sy my r"
  let ?m1 = "set_par (set_child m k y) ?Y (par ?nl k)"
  define M where "M = (set_par (?m1(y \<mapsto> \<lparr>bsize = sy, parent = par ?nl k, left = ptr ?nl l, right = ptr ?nl r, subtree_max = my, color = d\<rparr>)) l y)
    (y \<mapsto> \<lparr>bsize = sy, parent = par ?nl k, left = ptr ?nl l, right = ptr ?nl r, subtree_max = my, color = c\<rparr>)"
  define s' where "s' = s\<lparr>fl_root := set_root (fl_root s) k y, fl_mem := M\<rparr>"
  have min: "minimum s y = Some y"
    using minimum_hd [of s "FR c l z sz x # k" ?Y] T by simp
  have tr: "rb_transplant s z y = Some (s\<lparr>fl_root := set_root (fl_root s) k y, fl_mem := ?m1\<rparr>)"
    unfolding m_def
    by (rule rb_transplant_eq [OF _ refl tree_node(1) [OF T]]) (use T' d in simp_all)
  have run: "delete_splice s z = Some (s', y, ptr ?nl r, d, y, y)"
    using f d nz pl min tr
    by (simp add: delete_splice_def heap_exec m_def [symmetric] SET_PARENT_at M_def s'_def
        cong: bind_weak del: not_None_eq)
  have "rep ?nl M (par ?nl k) (Nd c l y sy my r)" "M ?nl = Some (nil_block ?nl)"
    "rep_ctx ?nl M (set_root (fl_root s) k y) y k"
    using f d rep_ctx_set_child [of ?nl m "fl_root s" z k y] by (simp_all add: M_def rep_set_par)
  moreover have "sorted_wrt (<) (addrs (plug k (Nd c l y sy my r)))"
    using T [unfolded tree_at_def, THEN conjunct2, THEN conjunct2, THEN conjunct1]
    by (simp add: addrs_plug sorted_wrt_append)
  ultimately have "tree_at s' (plug k (Nd c l y sy my r))"
    using T' by (simp add: tree_at_plug s'_def)
  moreover have "fl_mem s' z = fl_mem s z" "fl_frame (set (addrs (plug k (Nd c l y sy my r)))) s s'"
    using d by (simp_all add: s'_def M_def m_def fl_frame_def set_addrs_plug)
  ultimately show ?thesis using run by blast
qed

text \<open>The steps of \<open>delete_splice\<close> that put the detached node \<open>y\<close> into the place of \<open>z\<close>.\<close>

definition replace_node :: "fl_state \<Rightarrow> addr \<Rightarrow> addr \<Rightarrow> (fl_state \<times> addr) option" where
  "replace_node s z y = do {
     zr \<leftarrow> rd right s z;
     s \<leftarrow> SET_RIGHT s y zr;
     yr \<leftarrow> rd right s y;
     s \<leftarrow> SET_PARENT s yr y;
     fix_start \<leftarrow> rd parent s y;
     s \<leftarrow> rb_transplant s z y;
     zl \<leftarrow> rd left s z;
     s \<leftarrow> SET_LEFT s y zl;
     yl \<leftarrow> rd left s y;
     s \<leftarrow> SET_PARENT s yl y;
     zc \<leftarrow> rd color s z;
     s \<leftarrow> SET_COLOR s y zc;
     Some (s, fix_start) }"

lemma replace_node_at:
  assumes T: "tree_at s (plug k (Nd c l z sz x r))" and l: "l \<noteq> Lf" "r \<noteq> Lf"
    and y: "fl_mem s y = Some b" "y \<noteq> z" "y \<noteq> fl_nil s" "y \<noteq> 0" "y \<notin> cset k"
      "y \<notin> set (addrs l)" "y \<notin> set (addrs r)"
    and srt: "sorted_wrt (<) (addrs (plug k (Nd c l y (bsize b) (subtree_max b) r)))"
  shows "\<exists>s'. replace_node s z y = Some (s', parent b) \<and>
     tree_at s' (plug k (Nd c l y (bsize b) (subtree_max b) r)) \<and>
     fl_mem s' z = fl_mem s z \<and> fl_frame (set (addrs (plug k (Nd c l y (bsize b) (subtree_max b) r)))) s s'"
proof -
  note T' = T [unfolded tree_at_plug]
  let ?nl = "fl_nil s"
  define m where "m = fl_mem s"
  have p: "ptr ?nl l \<noteq> ?nl" "ptr ?nl r \<noteq> ?nl" using T' l by (simp_all add: ptr_nil_iff)
  have f: "m z = Some \<lparr>bsize = sz, parent = par ?nl k, left = ptr ?nl l, right = ptr ?nl r, subtree_max = x, color = c\<rparr>"
    "m y = Some b" "rep ?nl m z l" "rep ?nl m z r" "rep_ctx ?nl m (fl_root s) z k" "m ?nl = Some (nil_block ?nl)"
    using T' y by (simp_all add: m_def)
  have d: "z \<noteq> ?nl" "z \<noteq> 0" "?nl \<noteq> 0" "z \<notin> cset k" "?nl \<notin> cset k" "0 \<notin> cset k"
    "z \<notin> set (addrs l)" "z \<notin> set (addrs r)"
    "?nl \<notin> set (addrs l)" "?nl \<notin> set (addrs r)" "0 \<notin> set (addrs l)" "0 \<notin> set (addrs r)"
    "set (addrs l) \<inter> set (addrs r) = {}" "set (addrs r) \<inter> set (addrs l) = {}"
    "set (addrs l) \<inter> cset k = {}" "set (addrs r) \<inter> cset k = {}"
    "distinct (addrs l)" "distinct (addrs r)" "dctx k"
    using T' by auto
  have nz: "par ?nl k \<noteq> 0" "ptr ?nl l \<noteq> 0" "ptr ?nl r \<noteq> 0" "m (ptr ?nl l) \<noteq> None" "m (ptr ?nl r) \<noteq> None"
    "ptr ?nl l \<noteq> y" "ptr ?nl r \<noteq> y" "ptr ?nl l \<noteq> z" "ptr ?nl l \<notin> cset k" "ptr ?nl l \<notin> set (addrs r)"
    using d f y p l by (auto simp: par_nz ptr_nz rep_sub ptr_neq) (cases l; auto)+
  let ?Y = "Nd c Lf y (bsize b) (subtree_max b) Lf"
  let ?s3 = "s\<lparr>fl_mem := set_par (m(y \<mapsto> b\<lparr>right := ptr ?nl r\<rparr>)) r y\<rparr>"
  let ?m4 = "set_par (set_child (fl_mem ?s3) k y) ?Y (par ?nl k)"
  let ?b = "\<lparr>bsize = bsize b, parent = par ?nl k, left = ptr ?nl l, right = ptr ?nl r, subtree_max = subtree_max b, color = c\<rparr>"
  define M where "M = (set_par (?m4(y \<mapsto> b\<lparr>right := ptr ?nl r, parent := par ?nl k, left := ptr ?nl l\<rparr>)) l y) (y \<mapsto> ?b)"
  define s' where "s' = s\<lparr>fl_root := set_root (fl_root s) k y, fl_mem := M\<rparr>"
  have be: "b\<lparr>right := ptr ?nl r, parent := par ?nl k, left := ptr ?nl l, color := c\<rparr> = ?b" by simp
  have z3: "fl_mem ?s3 z = Some \<lparr>bsize = sz, parent = par ?nl k, left = ptr ?nl l, right = ptr ?nl r, subtree_max = x, color = c\<rparr>"
    using f d y(2) by simp
  have tr: "rb_transplant ?s3 z y = Some (?s3\<lparr>fl_root := set_root (fl_root s) k y, fl_mem := ?m4\<rparr>)"
    by (subst rb_transplant_eq [OF _ refl z3, where t = ?Y and k = k]) (use f d y in simp_all)
  have run: "replace_node s z y = Some (s', parent b)"
    using f d nz y p tr
    by (simp add: replace_node_def heap_exec m_def [symmetric] SET_PARENT_at M_def s'_def be
        cong: bind_weak del: not_None_eq)
  have "rep ?nl M (par ?nl k) (Nd c l y (bsize b) (subtree_max b) r)" "M ?nl = Some (nil_block ?nl)"
    "rep_ctx ?nl M (set_root (fl_root s) k y) y k"
    using f d y rep_ctx_set_child [of ?nl _ "fl_root s" z k y] by (simp_all add: M_def rep_set_par)
  then have "tree_at s' (plug k (Nd c l y (bsize b) (subtree_max b) r))"
    using T' y srt by (simp add: tree_at_plug s'_def)
  moreover have "fl_mem s' z = fl_mem s z"
    "fl_frame (set (addrs (plug k (Nd c l y (bsize b) (subtree_max b) r)))) s s'"
    using d y by (simp_all add: s'_def M_def m_def fl_frame_def set_addrs_plug)
  ultimately show ?thesis using run by blast
qed

lemma splice_deep:
  assumes T: "tree_at s (plug k (Nd c l z sz x r))" and l: "l \<noteq> Lf"
    and r: "r = plug kr (Nd d Lf y sy my xr)" "kr \<noteq> []" "cpre kr = []"
    and min: "minimum s (ptr (fl_nil s) r) = Some y"
  shows "\<exists>s'. delete_splice s z =
       Some (s', y, ptr (fl_nil s) xr, d, par (fl_nil s) kr, par (fl_nil s) kr) \<and>
     tree_at s' (plug k (Nd c l y sy my (plug kr xr))) \<and> fl_mem s' z \<noteq> None \<and>
     fl_frame (insert z (set (addrs (plug k (Nd c l y sy my r))))) s s'"
proof -
  let ?nl = "fl_nil s" and ?K = "kr @ FR c l z sz x # k" and ?Y = "Nd d Lf y sy my xr"
  let ?S = "set (addrs (plug k (Nd c l y sy my r)))"
  have TY: "tree_at s (plug ?K ?Y)" using T r by (simp add: plug_append)
  obtain s1 where 1: "rb_transplant s y (ptr ?nl xr) = Some s1" "tree_at s1 (plug ?K xr)"
      "fl_mem s1 y = fl_mem s y" "fl_frame (set (addrs (plug ?K xr))) s s1"
    using rb_transplant_child [OF TY] by blast
  have R: "plug kr xr \<noteq> Lf" using r(2) by (rule plug_not_Lf)
  have T1: "tree_at s1 (plug k (Nd c l z sz x (plug kr xr)))" using 1(2) by (simp add: plug_append)
  have yb: "fl_mem s y = Some \<lparr>bsize = sy, parent = par ?nl ?K, left = ?nl, right = ptr ?nl xr, subtree_max = my, color = d\<rparr>"
    using tree_node(1) [OF TY] by simp
  have pk: "par ?nl ?K = par ?nl kr" "par ?nl kr \<in> cset kr"
    using r(2) by (cases "(?nl, kr)" rule: par.cases; simp)+
  have d: "y \<noteq> z" "y \<noteq> ?nl" "y \<noteq> 0" "y \<notin> cset k" "y \<notin> set (addrs l)" "y \<notin> set (addrs (plug kr xr))"
    "par ?nl kr \<noteq> z" "ptr ?nl l \<noteq> ?nl" "ptr ?nl r \<noteq> ?nl" "ptr ?nl r \<noteq> 0"
    using T l pk(2) plug_not_Lf [OF r(2)] distinct_plug [of kr ?Y]
    by (auto simp: tree_at_plug r(1) set_addrs_plug ptr_nil_iff ptr_nz)
  have "sorted_wrt (<) (addrs (plug k (Nd c l y sy my (plug kr xr))))"
    using T [unfolded tree_at_def, THEN conjunct2, THEN conjunct2, THEN conjunct1] r(3)
    by (simp add: r(1) addrs_plug sorted_wrt_append)
  moreover have nl1: "fl_nil s1 = ?nl" using 1(4) by (simp add: fl_frame_def)
  ultimately obtain s2 where 2: "replace_node s1 z y = Some (s2, par ?nl kr)"
     "tree_at s2 (plug k (Nd c l y sy my (plug kr xr)))" "fl_mem s2 z = fl_mem s1 z"
     "fl_frame (set (addrs (plug k (Nd c l y sy my (plug kr xr))))) s1 s2"
    using replace_node_at [OF T1 l R yb [folded 1(3)]] d pk(1) by auto
  have S: "set (addrs (plug ?K xr)) \<subseteq> insert z ?S" "set (addrs (plug k (Nd c l y sy my (plug kr xr)))) \<subseteq> insert z ?S"
    by (auto simp: set_addrs_plug plug_append r(1))
  then have F: "fl_frame (insert z ?S) s s2" using fl_frame_trans [OF 1(4) 2(4)] by blast
  have "delete_splice s z = Some (s2, y, ptr ?nl xr, d, par ?nl kr, par ?nl kr)"
    using tree_node [OF T] yb d pk min 1(1) 2(1)
    by (simp add: delete_splice_def heap_exec replace_node_def bind_eq_Some_conv cong: bind_weak)
  then show ?thesis using 2(2,3) F tree_node(1) [OF T1] by auto
qed

lemma ctx_swap:
  "cctx d (kr @ FR c l a s x # k) = cctx d (kr @ FR c l a' s' x' # k)"
  "hctx h (kr @ FR c l a s x # k) = hctx h (kr @ FR c l a' s' x' # k)"
  "smok (kr @ FR c l a s x # k) = smok (kr @ FR c l a' s' x' # k)"
  "cbot (kr @ FR c l a s x # k) = cbot (kr @ FR c l a' s' x' # k)"
     apply (induction kr arbitrary: d rule: cset.induct; simp)
    apply (induction kr arbitrary: h rule: cset.induct; simp)
   apply (induction kr rule: cset.induct; simp)
  apply (simp add: cbot_def)
  done

lemma tree_at_log [simp]: "tree_at (s\<lparr>fl_log := g\<rparr>) T = tree_at s T"
  by (simp add: tree_at_def)

lemma fl_frame_log [simp]: "fl_frame S s (s'\<lparr>fl_log := g\<rparr>) = fl_frame S s s'"
  by (simp add: fl_frame_def)

text \<open>
  What the first half of \<open>delete_node\<close> leaves behind: the subtree \<open>t\<close> in a context \<open>K\<close> that lacks one
  black node on its path when the colour \<open>d\<close> of the unlinked node was black.
\<close>

definition detached :: "Color \<Rightarrow> frame list \<Rightarrow> rbt \<Rightarrow> bool" where
  "detached d K t \<longleftrightarrow> mok t \<and> mctx (tmax t) K \<and> invc t \<and> invh t \<and> cctx d K \<and> cbot K \<and>
     (if d = Black then hctx (Suc (bh t)) K else hctx (bh t) K \<and> rc t = Black \<and> K \<noteq> [])"

lemma black_leaf: "bh t = 0 \<Longrightarrow> rc t = Black \<Longrightarrow> t = Lf"
  by (cases t) (auto split: if_splits)

lemma detachedI:
  assumes "rbt_ok (plug K (Nd d l a sz x r))" "l = Lf \<and> t = r \<or> r = Lf \<and> t = l"
    "cctx d K' = cctx d K" "\<And>h. hctx h K' = hctx h K" "smok K' = smok K" "cbot K' = cbot K" "K' = [] \<longleftrightarrow> K = []"
  shows "detached d (remax (tmax t) K') t"
proof -
  have ok: "invc (Nd d l a sz x r)" "cctx d K" "invh (Nd d l a sz x r)"
    "hctx (if d = Black then Suc (bh l) else bh l) K" "mok (Nd d l a sz x r)" "smok K" "cbot K"
    using assms(1) mctx_smok by (auto simp: rbt_ok_plug cbot_def split: if_splits)
  then have K': "cctx d K'" "hctx (if d = Black then Suc (bh l) else bh l) K'" "smok K'" "cbot K'"
    using assms(3-6) by simp_all
  have top: "K = [] \<Longrightarrow> d = Black" using assms(1) by (auto simp: rbt_ok_def)
  show ?thesis
  proof (cases d)
    case Black
    with ok K' assms(2) show ?thesis by (auto simp: detached_def mctx_remax)
  next
    case Red
    with ok assms(2) have "t = Lf" using black_leaf [of l] black_leaf [of r] by auto
    with ok top K' assms(2,7) Red show ?thesis by (auto simp: detached_def mctx_remax)
  qed
qed

text \<open>The rest of \<open>delete_node\<close> after \<open>delete_splice\<close>.\<close>

lemma delete_rest:
  assumes "delete_splice s z = Some (s1, y, x, d, xp, par (fl_nil s) K)" "fl_nil s1 = fl_nil s"
    "tree_at s1 (plug K t)" "fl_mem s1 z \<noteq> None" "y = z"
  shows "\<exists>s2. delete_node s z = (if d = Black then rb_delete_fixup s2 x xp else Some s2) \<and>
     tree_at s2 (plug (remax (tmax t) K) t) \<and> fl_frame (set (addrs (plug K t))) s1 s2"
proof -
  obtain b where b: "fl_mem s1 z = Some b" using assms(4) by blast
  let ?s1 = "s1\<lparr>fl_log := log_add (fl_log s1) ''delete_node'' z (parent b) (left b) (right b) (bsize b)\<rparr>"
  obtain s2 where "update_max_upwards ?s1 (par (fl_nil s) K) = Some s2"
     "tree_at s2 (plug (remax (tmax t) K) t)" "fl_frame (set (addrs (plug K t))) ?s1 s2"
    using update_max_upwards_ctx [of ?s1 K t] assms by auto
  then show ?thesis
    using assms b by (intro exI [of _ s2]) (simp add: delete_node_def heap_exec fl_frame_def cong: bind_weak)
qed

lemma delete_rest_two:
  assumes "delete_splice s z = Some (s1, y, x, d, xp, par (fl_nil s) (kr @ FR c l y sy my # k))"
    "fl_nil s1 = fl_nil s" "tree_at s1 (plug k (Nd c l y sy my (plug kr t)))" "fl_mem s1 z \<noteq> None" "y \<noteq> z"
  shows "\<exists>s2 my'. delete_node s z = (if d = Black then rb_delete_fixup s2 x xp else Some s2) \<and>
     tree_at s2 (plug (remax (tmax t) (kr @ FR c l y sy my' # k)) t) \<and>
     fl_frame (set (addrs (plug k (Nd c l y sy my (plug kr t))))) s1 s2"
proof -
  obtain b where b: "fl_mem s1 z = Some b" using assms(4) by blast
  let ?s1 = "s1\<lparr>fl_log := log_add (fl_log s1) ''delete_node'' z (parent b) (left b) (right b) (bsize b)\<rparr>"
  let ?my = "max (max sy (tmax l)) (tmax (plug kr t))" and ?S = "set (addrs (plug k (Nd c l y sy my (plug kr t))))"
  obtain s2 where 2: "update_max ?s1 y = Some s2" "tree_at s2 (plug k (Nd c l y sy ?my (plug kr t)))"
      "fl_frame ?S ?s1 s2"
    using update_max_at [of ?s1 k c l y sy my "plug kr t"] assms by auto
  have "par (fl_nil s) (kr @ FR c l y sy my # k) = par (fl_nil s2) (kr @ FR c l y sy ?my # k)"
    using assms(2) 2(3) by (cases "(fl_nil s, kr)" rule: par.cases) (auto simp: fl_frame_def)
  moreover obtain s3 where 3: "update_max_upwards s2 (par (fl_nil s2) (kr @ FR c l y sy ?my # k)) = Some s3"
     "tree_at s3 (plug (remax (tmax t) (kr @ FR c l y sy ?my # k)) t)" "fl_frame ?S s2 s3"
    using update_max_upwards_ctx [of s2 "kr @ FR c l y sy ?my # k" t] 2(2)
    by (auto simp: plug_append set_addrs_plug)
  moreover have "fl_frame ?S s1 s3" using 2(3) 3(3) by (auto simp: fl_frame_def)
  ultimately show ?thesis
    using assms b 2 by (intro exI [of _ s3] exI [of _ ?my]) (simp add: delete_node_def heap_exec cong: bind_weak)
qed

text \<open>The outcome of \<open>delete_node\<close> before the fix-up: \<open>z\<close> is gone and a node of colour \<open>d\<close> is missing above \<open>t\<close>.\<close>

definition detaches :: "fl_state \<Rightarrow> addr \<Rightarrow> rbt \<Rightarrow> frame list \<Rightarrow> rbt \<Rightarrow> rbt \<Rightarrow> bool" where
  "detaches s z T k l r \<longleftrightarrow> (\<exists>s' K t d. delete_node s z =
       (if d = Black then rb_delete_fixup s' (ptr (fl_nil s') t) (par (fl_nil s') K) else Some s') \<and>
     tree_at s' (plug K t) \<and> detached d K t \<and>
     blocks (plug K t) = cpre k @ blocks l @ blocks r @ cpost k \<and> fl_frame (set (addrs T)) s s' \<and>
     fl_mem s' z \<noteq> None)"

lemma delete_detach_child:
  assumes T: "tree_at s T" "rbt_ok T" and z: "T = plug k (Nd c l z sz x r)"
    and t: "l = Lf \<and> t = r \<or> r = Lf \<and> l \<noteq> Lf \<and> t = l"
  shows "detaches s z T k l r"
proof -
  let ?nl = "fl_nil s"
  have Tz: "tree_at s (plug k (Nd c l z sz x r))" using T z by simp
  obtain s1 where 1: "rb_transplant s z (ptr ?nl t) = Some s1" "tree_at s1 (plug k t)"
      "fl_mem s1 z = fl_mem s z" "fl_frame (set (addrs (plug k t))) s s1"
    using rb_transplant_child [OF Tz] t by blast
  have "delete_splice s z = Some (s1, z, ptr ?nl t, c, par ?nl k, par ?nl k)"
    using t 1 tree_node [OF Tz] Tz
    by (auto simp: delete_splice_def heap_exec tree_at_plug ptr_nil_iff cong: bind_weak)
  from delete_rest [OF this _ 1(2)] obtain s2 where 2:
     "delete_node s z = (if c = Black then rb_delete_fixup s2 (ptr ?nl t) (par ?nl k) else Some s2)"
     "tree_at s2 (plug (remax (tmax t) k) t)" "fl_frame (set (addrs (plug k t))) s1 s2"
    using 1(3,4) tree_node(1) [OF Tz] by (auto simp: fl_frame_def)
  have m: "fl_mem s2 z \<noteq> None"
    using 2(3) 1(3) Tz t by (auto simp: fl_frame_def set_addrs_plug tree_at_plug)
  have F: "fl_frame (set (addrs T)) s s2"
    using t z by (intro fl_frame_trans [OF 1(4) 2(3)]) (auto simp: set_addrs_plug)
  have p: "par ?nl (remax (tmax t) k) = par ?nl k"
    by (cases "(tmax t, k)" rule: remax.cases) auto
  have "detached c (remax (tmax t) k) t"
    using T(2) t unfolding z by (intro detachedI) auto
  moreover have "fl_nil s2 = ?nl" using F by (simp add: fl_frame_def)
  ultimately show ?thesis unfolding detaches_def
    using 2 F t p m by (intro exI [of _ s2] exI [of _ "remax (tmax t) k"] exI [of _ t] exI [of _ c])
      (auto simp: blocks_plug)
qed

lemma splice_successor:
  assumes Tz: "tree_at s (plug k (Nd c l z sz x r))" and lr: "l \<noteq> Lf" "r \<noteq> Lf"
    and y: "minimum s (ptr (fl_nil s) r) = Some y" "plug kr (Nd d Lf y sy my t) = r" "cpre kr = []"
  defines "p \<equiv> par (fl_nil s) (kr @ FR c l y sy my # k)"
  shows "\<exists>s1. delete_splice s z = Some (s1, y, ptr (fl_nil s) t, d, p, p) \<and>
    tree_at s1 (plug k (Nd c l y sy my (plug kr t))) \<and> fl_mem s1 z \<noteq> None \<and>
    fl_frame (set (addrs (plug k (Nd c l z sz x r)))) s s1"
proof (cases "kr = []")
  case True
  with y(2) lr splice_adjacent [of s k c l z sz x d y sy my t] Tz obtain s1 where
    a: "delete_splice s z = Some (s1, y, ptr (fl_nil s) t, d, y, y)" "tree_at s1 (plug k (Nd c l y sy my t))"
     "fl_mem s1 z = fl_mem s z" "fl_frame (set (addrs (plug k (Nd c l y sy my t)))) s s1" by auto
  have "fl_frame (set (addrs (plug k (Nd c l z sz x r)))) s s1"
    using True y(2) by (intro fl_frame_mono [OF a(4)]) (auto simp: set_addrs_plug)
  with a True show ?thesis using tree_node(1) [OF Tz] by (auto simp: p_def)
next
  case kr: False
  then have "p = par (fl_nil s) kr" unfolding p_def by (cases "(fl_nil s, kr)" rule: par.cases) auto
  with splice_deep [OF Tz _ y(2) [symmetric] kr y(3,1)] lr obtain s1 where
    a: "delete_splice s z = Some (s1, y, ptr (fl_nil s) t, d, p, p)"
     "tree_at s1 (plug k (Nd c l y sy my (plug kr t)))" "fl_mem s1 z \<noteq> None"
     "fl_frame (insert z (set (addrs (plug k (Nd c l y sy my r))))) s s1" by auto
  have "fl_frame (set (addrs (plug k (Nd c l z sz x r)))) s s1"
    using y(2) by (intro fl_frame_mono [OF a(4)]) (auto simp: set_addrs_plug)
  with a show ?thesis by blast
qed

lemma delete_detach_successor:
  assumes T: "tree_at s T" "rbt_ok T" and z: "T = plug k (Nd c l z sz x r)" and lr: "l \<noteq> Lf" "r \<noteq> Lf"
  shows "detaches s z T k l r"
proof -
  let ?nl = "fl_nil s"
  have Tz: "tree_at s (plug k (Nd c l z sz x r))" using T z by simp
  obtain kr d y sy my t where y: "minimum s (ptr ?nl r) = Some y" "plug kr (Nd d Lf y sy my t) = r" "cpre kr = []"
    using minimum_at [of s "FR c l z sz x # k" r] Tz lr by auto
  have yz: "y \<noteq> z" using Tz y(2) by (auto simp: tree_at_plug set_addrs_plug)
  obtain s1 where 1: "delete_splice s z = Some (s1, y, ptr ?nl t, d, par ?nl (kr @ FR c l y sy my # k), par ?nl (kr @ FR c l y sy my # k))"
     "tree_at s1 (plug k (Nd c l y sy my (plug kr t)))" "fl_mem s1 z \<noteq> None" "fl_frame (set (addrs T)) s s1"
    using splice_successor [OF Tz lr y] unfolding z by blast
  from delete_rest_two [OF 1(1) _ 1(2,3) yz] obtain s2 my' where 2:
    "delete_node s z = (if d = Black then rb_delete_fixup s2 (ptr ?nl t) (par ?nl (kr @ FR c l y sy my # k)) else Some s2)"
    "tree_at s2 (plug (remax (tmax t) (kr @ FR c l y sy my' # k)) t)"
    "fl_frame (set (addrs (plug k (Nd c l y sy my (plug kr t))))) s1 s2"
    using 1(4) by (auto simp: fl_frame_def)
  have m: "fl_mem s2 z \<noteq> None"
    using 2(3) 1(3) Tz y(2) yz by (auto simp: fl_frame_def set_addrs_plug tree_at_plug)
  have F: "fl_frame (set (addrs T)) s s2"
    using z y(2) by (intro fl_frame_trans [OF 1(4) 2(3)]) (auto simp: set_addrs_plug)
  have "rbt_ok (plug (kr @ FR c l z sz x # k) (Nd d Lf y sy my t))" using T(2) z y(2) by (simp add: plug_append)
  then have "detached d (remax (tmax t) (kr @ FR c l y sy my' # k)) t"
    by (rule detachedI) (use ctx_swap in auto)
  moreover have "fl_nil s2 = ?nl" using F by (simp add: fl_frame_def)
  moreover have "par ?nl (remax (tmax t) (kr @ FR c l y sy my' # k)) = par ?nl (kr @ FR c l y sy my # k)"
    by (cases "(?nl, kr)" rule: par.cases) auto
  moreover have "blocks (plug (remax (tmax t) (kr @ FR c l y sy my' # k)) t) = cpre k @ blocks l @ blocks r @ cpost k"
    using y(2,3) by (auto simp: blocks_plug)
  ultimately show ?thesis unfolding detaches_def
    using 2 F m by (intro exI [of _ s2] exI [of _ "remax (tmax t) (kr @ FR c l y sy my' # k)"] exI [of _ t] exI [of _ d]) simp
qed

lemma delete_detach:
  assumes "tree_at s T" "rbt_ok T" "T = plug k (Nd c l z sz x r)"
  shows "detaches s z T k l r"
  using delete_detach_child [OF assms] delete_detach_successor [OF assms] by blast

lemma detached_Black: "detached Black K t \<Longrightarrow> short_of K t"
  by (auto simp: detached_def short_of_def invc_paint)

lemma detached_Red: "detached Red K t \<Longrightarrow> rbt_ok (plug K t)"
  by (auto simp: detached_def rbt_ok_plug cbot_def cctx_Black)

lemma delete_node_at:
  assumes T: "tree_at s T" "rbt_ok T" and z: "T = plug k (Nd c l z sz x r)"
  shows "\<exists>s' T'. delete_node s z = Some s' \<and> tree_at s' T' \<and> rbt_ok T' \<and>
     blocks T' = cpre k @ blocks l @ blocks r @ cpost k \<and> fl_frame (set (addrs T)) s s' \<and>
     fl_mem s' z \<noteq> None"
proof -
  obtain s1 K t d where 1: "delete_node s z =
       (if d = Black then rb_delete_fixup s1 (ptr (fl_nil s1) t) (par (fl_nil s1) K) else Some s1)"
     "tree_at s1 (plug K t)" "detached d K t"
     "blocks (plug K t) = cpre k @ blocks l @ blocks r @ cpost k" "fl_frame (set (addrs T)) s s1" "fl_mem s1 z \<noteq> None"
    using delete_detach [OF assms] unfolding detaches_def by blast
  have sub: "set (addrs (plug K t)) \<subseteq> set (addrs T)"
    unfolding z addrs_blocks 1(4) by (auto simp: blocks_plug)
  have "distinct (addrs T)" using T(1) by (simp add: tree_at_def sorted_wrt_less_distinct)
  then have zn: "z \<notin> set (addrs (plug K t))"
    unfolding z addrs_blocks 1(4) by (auto simp: blocks_plug)
  show ?thesis
  proof (cases d)
    case Red
    then show ?thesis using 1 detached_Red by (intro exI [of _ s1] exI [of _ "plug K t"]) auto
  next
    case Black
    then obtain s2 where 2: "rb_delete_fixup s1 (ptr (fl_nil s1) t) (par (fl_nil s1) K) = Some s2"
      "rebalanced (plug K t) s1 s2"
      using rb_delete_fixup_at [OF 1(2)] 1(3) detached_Black by blast
    then obtain T' where "tree_at s2 T'" "rbt_ok T'" "blocks T' = blocks (plug K t)"
      "fl_frame (set (addrs (plug K t))) s1 s2" by (auto simp: rebalanced_def)
    moreover from this(4) zn 1(6) have "fl_mem s2 z \<noteq> None" by (simp add: fl_frame_def)
    ultimately show ?thesis using 1 2 Black fl_frame_trans [OF 1(5) _ _ sub]
      by (intro exI [of _ s2] exI [of _ T']) auto
  qed
qed

text \<open>Every node of a tree can be focused.\<close>

lemma plug_focus:
  "z \<in> set (addrs t) \<Longrightarrow> \<exists>k c l sz x r. t = plug k (Nd c l z sz x r)"
proof (induction t)
  case (Nd c l a s x r)
  then consider "z = a" | "z \<in> set (addrs l)" | "z \<in> set (addrs r)" by auto
  then show ?case
  proof cases
    case 1
    then show ?thesis by (metis plug.simps(1))
  next
    case 2
    with Nd obtain k c' l' sz x' r' where "l = plug k (Nd c' l' z sz x' r')" by blast
    then have "Nd c l a s x r = plug (k @ [FL c a s x r]) (Nd c' l' z sz x' r')" by (simp add: plug_append)
    then show ?thesis by blast
  next
    case 3
    with Nd obtain k c' l' sz x' r' where "r = plug k (Nd c' l' z sz x' r')" by blast
    then have "Nd c l a s x r = plug (k @ [FR c l a s x]) (Nd c' l' z sz x' r')" by (simp add: plug_append)
    then show ?thesis by blast
  qed
qed simp

end
