(* ===== verification/Free_List_Allocator.thy ===== *)
theory Free_List_Allocator
  imports Free_Block_Tree
begin

text \<open>
  \<open>FreeListAllocator\<close> (\<open>src/src/allocator/free_list.hpp\<close> and \<open>free_list.cpp\<close>): the constructor,
  \<open>allocate\<close> and \<open>deallocate\<close> with every branch of the source, the segregated lists of small
  blocks and the statistics accessors. A call returns the \<open>std::expected\<close> value and the new
  state; the outer \<open>None\<close> is a call that does not return (\<open>std::abort\<close>, an access to storage
  that holds no node, undefined behaviour of \<open>std::align\<close>).
\<close>

subsection \<open>Results and errors\<close>

datatype AllocError = OutOfMemory | InvalidAlignment | DoubleFree | BadPointer

fun to_string :: "AllocError \<Rightarrow> string" where
  "to_string OutOfMemory = ''out of memory''"
| "to_string InvalidAlignment = ''invalid alignment (must be power of 2)''"
| "to_string DoubleFree = ''double free detected''"
| "to_string BadPointer = ''pointer not owned by this allocator''"

record AllocationResult =
  res_ptr :: addr
  res_offset :: size_t
  res_actual_size :: size_t

subsection \<open>Storage\<close>

text \<open>
  Placement \<open>new (p) FreeBlock{...}\<close> starts the lifetime of a \<open>FreeBlock\<close> at \<open>p\<close> and ends that of
  a \<open>FreeNode\<close> there; linking a \<open>FreeNode\<close> at \<open>p\<close> does the converse.
\<close>

definition new_block :: "fl_state \<Rightarrow> addr \<Rightarrow> FreeBlock \<Rightarrow> fl_state" where
  "new_block s p b = s\<lparr>fl_mem := (fl_mem s)(p \<mapsto> b), fl_next := (fl_next s)(p := None)\<rparr>"

definition push_small :: "fl_state \<Rightarrow> nat \<Rightarrow> addr \<Rightarrow> fl_state option" where
  "push_small s idx p =
     (if idx < length (fl_lists s) then
        Some (s\<lparr>fl_mem := (fl_mem s)(p := None),
                fl_next := (fl_next s)(p \<mapsto> fl_lists s ! idx),
                fl_lists := (fl_lists s)[idx := p]\<rparr>)
      else None)"

subsection \<open>Construction\<close>

text \<open>\<open>nilp\<close> is the address \<open>new FreeBlock()\<close> returns for the sentinel, \<open>g\<close> the thread's log.\<close>

definition fl_create :: "addr \<Rightarrow> AllocLog \<Rightarrow> addr \<Rightarrow> size_t \<Rightarrow> fl_state option" where
  "fl_create nilp g b sz = do {
     let s = \<lparr>fl_base = b, fl_size = sz, fl_root = nilp, fl_nil = nilp, fl_lists = [],
              fl_allocated = 0, fl_blocks = 0,
              fl_mem = [nilp \<mapsto> \<lparr>bsize = 0, parent = nilp, left = nilp, right = nilp,
                                subtree_max = 0, color = Black\<rparr>],
              fl_next = Map.empty, fl_log = g\<rparr>;
     let s = new_block s b \<lparr>bsize = sz, parent = nilp, left = nilp, right = nilp,
                            subtree_max = sz, color = Black\<rparr>;
     s \<leftarrow> insert_node s b;
     Some (s\<lparr>fl_blocks := 1, fl_lists := replicate kNumSmallClasses nullptr\<rparr>) }"

subsection \<open>Allocation\<close>

text \<open>The rounding of a request to the 16-byte quantum: \<open>(size + 15) & ~std::size_t(15)\<close>.\<close>

definition internal_size_of :: "size_t \<Rightarrow> size_t" where
  "internal_size_of sz = and_not64 (add64 (if sz = 0 then 1 else sz) 15) 15"

text \<open>The part of the chosen block \<open>cur\<close> before the aligned address goes back to the free lists.\<close>

definition release_padding :: "fl_state \<Rightarrow> addr \<Rightarrow> size_t \<Rightarrow> fl_state option" where
  "release_padding s block_start pre_padding =
     (if pre_padding \<ge> kSmallBlockQuantum then do {
        s \<leftarrow> wr s block_start (\<lambda>b. b\<lparr>bsize := pre_padding\<rparr>);
        if pre_padding \<le> kMaxSmallBlockSize
        then push_small s (pre_padding div kSmallBlockQuantum - 1) block_start
        else do {
          ASSERT_NOT_NULL (fl_nil s);
          s \<leftarrow> wr s block_start (\<lambda>b. b\<lparr>parent := fl_nil s, left := fl_nil s, right := fl_nil s,
                  subtree_max := pre_padding, color := Red\<rparr>);
          insert_node s block_start } }
      else Some s)"

text \<open>The part after the allocated bytes; the flag is \<open>absorbed\<close>.\<close>

definition release_remainder :: "fl_state \<Rightarrow> addr \<Rightarrow> size_t \<Rightarrow> (fl_state \<times> bool) option" where
  "release_remainder s p remainder_size =
     (if remainder_size \<ge> kMinBlockSize then do {
        s \<leftarrow> insert_node (new_block s p
               \<lparr>bsize = remainder_size, parent = fl_nil s, left = fl_nil s, right = fl_nil s,
                subtree_max = remainder_size, color = Red\<rparr>) p;
        Some (s, False) }
      else if remainder_size \<ge> kSmallBlockQuantum then
        (if remainder_size \<le> kMaxSmallBlockSize then do {
           s \<leftarrow> push_small s (remainder_size div kSmallBlockQuantum - 1) p;
           Some (s, False) }
         else Some (s, True))
      else Some (s, True))"

definition allocate_carve ::
    "fl_state \<Rightarrow> size_t \<Rightarrow> addr \<Rightarrow> addr \<Rightarrow> ((AllocError + AllocationResult) \<times> fl_state) option" where
  "allocate_carve s internal_size cur header_ptr = do {
     let block_start = cur;
     let pre_padding = header_ptr - block_start;
     total_block_size \<leftarrow> rd bsize s cur;
     s \<leftarrow> delete_node s cur;
     s \<leftarrow> release_padding s block_start pre_padding;
     let remainder_size = sub64 (sub64 total_block_size pre_padding) internal_size;
     (s, absorbed) \<leftarrow> release_remainder s (header_ptr + internal_size) remainder_size;
     let internal_size = (if absorbed then add64 internal_size remainder_size else internal_size);
     let s = (if absorbed then s\<lparr>fl_blocks := sub64 (fl_blocks s) 1\<rparr> else s);
     let s = s\<lparr>fl_allocated := add64 (fl_allocated s) internal_size\<rparr>;
     verify_tree s (fl_root s);
     Some (Inr \<lparr>res_ptr = header_ptr, res_offset = sub64 header_ptr (fl_base s),
                res_actual_size = internal_size\<rparr>, s) }"

text \<open>The inner loop that skips successors smaller than \<open>min_size\<close>.\<close>

partial_function (option) skip_smaller :: "fl_state \<Rightarrow> size_t \<Rightarrow> addr \<Rightarrow> addr option" where
  "skip_smaller s min_size cur =
     (if cur \<noteq> fl_nil s then do {
        sz \<leftarrow> rd bsize s cur;
        if sz < min_size then do {
          cur \<leftarrow> successor s cur;
          skip_smaller s min_size cur }
        else Some cur }
      else Some cur)"

partial_function (option) allocate_loop ::
    "fl_state \<Rightarrow> size_t \<Rightarrow> size_t \<Rightarrow> size_t \<Rightarrow> addr \<Rightarrow>
     ((AllocError + AllocationResult) \<times> fl_state) option" where
  "allocate_loop s internal_size internal_align min_size cur =
     (if cur \<noteq> fl_nil s then do {
        space \<leftarrow> rd bsize s cur;
        fit \<leftarrow> std_align internal_align internal_size cur space;
        case fit of
          Some aligned_ptr \<Rightarrow> allocate_carve s internal_size cur aligned_ptr
        | None \<Rightarrow> do {
            cur \<leftarrow> successor s cur;
            cur \<leftarrow> skip_smaller s min_size cur;
            allocate_loop s internal_size internal_align min_size cur } }
      else Some (Inl OutOfMemory, s))"

definition allocate ::
    "fl_state \<Rightarrow> size_t \<Rightarrow> size_t \<Rightarrow> ((AllocError + AllocationResult) \<times> fl_state) option" where
  "allocate s sz alignment =
     (let internal_align = max alignment 16;
          internal_size = internal_size_of sz;
          idx = internal_size div kSmallBlockQuantum - 1
      in if internal_size \<le> kMaxSmallBlockSize \<and> internal_size \<ge> kSmallBlockQuantum \<and>
            idx < kNumSmallClasses \<and> fl_lists s ! idx \<noteq> nullptr
         then do {
           let node = fl_lists s ! idx;
           nx \<leftarrow> fl_next s node;
           let s = s\<lparr>fl_lists := (fl_lists s)[idx := nx],
                     fl_allocated := add64 (fl_allocated s) internal_size,
                     fl_blocks := sub64 (fl_blocks s) 1\<rparr>;
           Some (Inr \<lparr>res_ptr = node, res_offset = sub64 node (fl_base s),
                      res_actual_size = internal_size\<rparr>, s) }
         else do {
           let min_size = max internal_size kMinBlockSize;
           cur \<leftarrow> find_first_fit s min_size;
           allocate_loop s internal_size internal_align min_size cur })"

subsection \<open>Deallocation\<close>

text \<open>\<open>block->size += extra; update_max_upwards(block)\<close>.\<close>

definition grow_block :: "fl_state \<Rightarrow> addr \<Rightarrow> size_t \<Rightarrow> fl_state option" where
  "grow_block s p extra = do {
     s \<leftarrow> wr s p (\<lambda>b. b\<lparr>bsize := add64 (bsize b) extra\<rparr>);
     update_max_upwards s p }"

definition coalesce_successor :: "fl_state \<Rightarrow> addr \<Rightarrow> fl_state option" where
  "coalesce_successor s freed = do {
     succ \<leftarrow> successor s freed;
     if succ \<noteq> fl_nil s then do {
       fsz \<leftarrow> rd bsize s freed;
       if freed + fsz = succ then do {
         succ_size \<leftarrow> rd bsize s succ;
         assert_opt (\<not> (succ_size > fl_size s \<or> succ_size = 0));
         s \<leftarrow> delete_node s succ;
         s \<leftarrow> grow_block s freed succ_size;
         Some (s\<lparr>fl_blocks := sub64 (fl_blocks s) 1\<rparr>) }
       else Some s }
     else Some s }"

definition coalesce_predecessor :: "fl_state \<Rightarrow> addr \<Rightarrow> fl_state option" where
  "coalesce_predecessor s freed = do {
     prev \<leftarrow> predecessor s freed;
     if prev \<noteq> fl_nil s then do {
       psz \<leftarrow> rd bsize s prev;
       if prev + psz = freed then do {
         freed_size \<leftarrow> rd bsize s freed;
         assert_opt (\<not> (freed_size > fl_size s \<or> freed_size = 0));
         s \<leftarrow> delete_node s freed;
         s \<leftarrow> grow_block s prev freed_size;
         Some (s\<lparr>fl_blocks := sub64 (fl_blocks s) 1\<rparr>) }
       else Some s }
     else Some s }"

definition deallocate ::
    "fl_state \<Rightarrow> addr \<Rightarrow> size_t \<Rightarrow> ((AllocError + unit) \<times> fl_state) option" where
  "deallocate s ptr sz =
     (if ptr = nullptr then Some (Inr (), s)
      else if ptr < fl_base s \<or> ptr \<ge> fl_base s + fl_size s then Some (Inl BadPointer, s)
      else do {
        let remaining_space = fl_base s + fl_size s - ptr;
        assert_opt (\<not> (sz > remaining_space \<or> sz < kSmallBlockQuantum));
        if ptr mod 16 \<noteq> 0 then Some (Inl InvalidAlignment, s)
        else if sz \<le> kMaxSmallBlockSize then do {
          let idx = sz div kSmallBlockQuantum - 1;
          let idx = (if idx \<ge> kNumSmallClasses then kNumSmallClasses - 1 else idx);
          s \<leftarrow> push_small s idx ptr;
          Some (Inr (), s\<lparr>fl_allocated := sub64 (fl_allocated s) sz,
                          fl_blocks := add64 (fl_blocks s) 1\<rparr>) }
        else if sz < kMinBlockSize then do {
          s \<leftarrow> push_small s (kNumSmallClasses - 1) ptr;
          Some (Inr (), s\<lparr>fl_allocated := sub64 (fl_allocated s) sz,
                          fl_blocks := add64 (fl_blocks s) 1\<rparr>) }
        else do {
          s \<leftarrow> insert_node (new_block s ptr
                 \<lparr>bsize = sz, parent = fl_nil s, left = fl_nil s, right = fl_nil s,
                  subtree_max = sz, color = Red\<rparr>) ptr;
          let s = s\<lparr>fl_blocks := add64 (fl_blocks s) 1,
                    fl_allocated := sub64 (fl_allocated s) sz\<rparr>;
          s \<leftarrow> coalesce_successor s ptr;
          s \<leftarrow> coalesce_predecessor s ptr;
          verify_tree s (fl_root s);
          Some (Inr (), s) } })"

subsection \<open>Statistics\<close>

definition bytes_allocated :: "fl_state \<Rightarrow> size_t" where
  "bytes_allocated s = fl_allocated s"

definition bytes_free :: "fl_state \<Rightarrow> size_t" where
  "bytes_free s = sub64 (fl_size s) (fl_allocated s)"

definition largest_free_block :: "fl_state \<Rightarrow> size_t option" where
  "largest_free_block s =
     (if fl_root s = fl_nil s then Some 0 else rd subtree_max s (fl_root s))"

definition free_block_count :: "fl_state \<Rightarrow> size_t" where
  "free_block_count s = fl_blocks s"

definition capacity :: "fl_state \<Rightarrow> size_t" where
  "capacity s = fl_size s"

definition contains :: "fl_state \<Rightarrow> addr \<Rightarrow> bool" where
  "contains s p \<longleftrightarrow> p \<ge> fl_base s \<and> p < fl_base s + fl_size s"

end
