(* ===== verification/Tree_Store.thy ===== *)
theory Tree_Store
  imports RB_Delete Free_List_Allocator
begin

text \<open>
  The interface between the allocator and its tree of free blocks. A state holds a list of blocks
  in address order; the locale \<open>block_store\<close> states what the operations on it promise and derives
  what the allocator needs, \<open>block_search\<close> adds the loop that skips small blocks and
  \<open>block_growth\<close> the enlargement of a block. The red-black tree of the sources interprets all three.
\<close>

subsection \<open>Lists of blocks split at an address\<close>

lemma all_below_Nil [simp]: "all_below z []" and all_above_Nil [simp]: "all_above z []"
  and all_below_Cons [simp]: "all_below z (b # bs) \<longleftrightarrow> fst b < z \<and> all_below z bs"
  and all_above_Cons [simp]: "all_above z (b # bs) \<longleftrightarrow> z < fst b \<and> all_above z bs"
  and all_below_append [simp]: "all_below z (xs @ ys) \<longleftrightarrow> all_below z xs \<and> all_below z ys"
  and all_above_append [simp]: "all_above z (xs @ ys) \<longleftrightarrow> all_above z xs \<and> all_above z ys"
  by (auto simp: all_below_def all_above_def)

lemma sorted_split:
  "sorted_wrt (<) (map fst bs) \<Longrightarrow> z \<notin> fst ` set bs \<Longrightarrow>
   \<exists>xs ys. bs = xs @ ys \<and> all_below z xs \<and> all_above z ys" for z :: addr
proof (induction bs)
  case Nil
  then show ?case by (intro exI [of _ "[]"]) auto
next
  case (Cons b bs)
  show ?case
  proof (cases "z < fst b")
    case True
    with Cons.prems have "all_above z (b # bs)" by (force simp: all_above_def)
    then show ?thesis by (intro exI [of _ "[]"] exI [of _ "b # bs"]) auto
  next
    case False
    with Cons obtain xs ys where "bs = xs @ ys" "all_below z xs" "all_above z ys" by auto
    with False Cons.prems show ?thesis by (intro exI [of _ "b # xs"] exI [of _ ys]) auto
  qed
qed

lemma split_unique:
  "us @ (z, a) # vs = xs @ (z, b) # ys \<Longrightarrow> distinct (map fst (xs @ (z, b) # ys)) \<Longrightarrow>
   us = xs \<and> a = b \<and> vs = ys"
proof (induction us arbitrary: xs)
  case Nil
  then show ?case by (cases xs) auto
next
  case (Cons u us)
  then show ?case by (cases xs) (auto simp: image_iff)
qed

lemma first_fit_cases:
  obtains (none) "first_fit nl n bs = nl" "\<forall>b \<in> set bs. snd b < n"
  | (some) xs z m ys where "bs = xs @ (z, m) # ys" "n \<le> m" "\<forall>b \<in> set xs. snd b < n" "first_fit nl n bs = z"
proof (cases "filter (\<lambda>b. n \<le> snd b) bs")
  case Nil
  then show thesis by (intro none) (auto simp: first_fit_def first_addr_def filter_empty_conv not_le)
next
  case (Cons b cs)
  then obtain xs ys where "bs = xs @ b # ys" "\<forall>u \<in> set xs. \<not> n \<le> snd u" "n \<le> snd b"
    by (auto simp: filter_eq_Cons_iff)
  then show thesis using Cons by (intro some [of xs "fst b" "snd b" ys]) (auto simp: first_fit_def first_addr_def)
qed

subsection \<open>The contracts\<close>

locale block_store =
  fixes holds :: "'s \<Rightarrow> (addr \<times> size_t) list \<Rightarrow> bool"
    and nil_of :: "'s \<Rightarrow> addr"
    and stored :: "'s \<Rightarrow> addr \<Rightarrow> size_t option"
    and admits :: "'s \<Rightarrow> addr \<Rightarrow> size_t \<Rightarrow> bool"
    and ins :: "'s \<Rightarrow> addr \<Rightarrow> 's option"
    and del :: "'s \<Rightarrow> addr \<Rightarrow> 's option"
    and fit :: "'s \<Rightarrow> size_t \<Rightarrow> addr option"
    and nxt :: "'s \<Rightarrow> addr \<Rightarrow> addr option"
    and prv :: "'s \<Rightarrow> addr \<Rightarrow> addr option"
    and frm :: "addr set \<Rightarrow> 's \<Rightarrow> 's \<Rightarrow> bool"
  assumes holds_sorted: "holds s bs \<Longrightarrow> sorted_wrt (<) (map fst bs)"
    and holds_nil: "holds s bs \<Longrightarrow> nil_of s \<notin> fst ` set bs"
    and holds_size: "holds s (xs @ (z, n) # ys) \<Longrightarrow> stored s z = Some n"
    and ins_law: "holds s bs \<Longrightarrow> stored s z = Some n \<Longrightarrow> admits s z n \<Longrightarrow> z \<notin> fst ` set bs \<Longrightarrow>
      \<exists>s'. ins s z = Some s' \<and> holds s' (insort_key fst (z, n) bs) \<and> frm (insert z (fst ` set bs)) s s'"
    and del_law: "holds s (xs @ (z, n) # ys) \<Longrightarrow>
      \<exists>s'. del s z = Some s' \<and> holds s' (xs @ ys) \<and> frm (fst ` set (xs @ (z, n) # ys)) s s'"
    and fit_law: "holds s bs \<Longrightarrow> fit s n = Some (first_fit (nil_of s) n bs)"
    and nxt_law: "holds s (xs @ (z, n) # ys) \<Longrightarrow> nxt s z = Some (first_addr (nil_of s) ys)"
    and prv_law: "holds s (xs @ (z, n) # ys) \<Longrightarrow> prv s z = Some (last_addr (nil_of s) xs)"
begin

lemma ins_between:
  assumes "holds s (xs @ ys)" "stored s z = Some n" "admits s z n" "all_below z xs" "all_above z ys"
  shows "\<exists>s'. ins s z = Some s' \<and> holds s' (xs @ (z, n) # ys) \<and> frm (insert z (fst ` set (xs @ ys))) s s'"
proof -
  have "z \<notin> fst ` set (xs @ ys)" using assms(4,5) by (auto simp: all_below_def all_above_def)
  from ins_law [OF assms(1-3) this] show ?thesis using insort_middle [OF assms(4,5)] by simp
qed

lemma ins_somewhere:
  assumes "holds s bs" "stored s z = Some n" "admits s z n" "z \<notin> fst ` set bs"
  shows "\<exists>s' xs ys. ins s z = Some s' \<and> bs = xs @ ys \<and> holds s' (xs @ (z, n) # ys) \<and>
    frm (insert z (fst ` set bs)) s s'"
proof -
  obtain xs ys where "bs = xs @ ys" "all_below z xs" "all_above z ys"
    using sorted_split [OF holds_sorted [OF assms(1)] assms(4)] by blast
  then show ?thesis using ins_between [of s xs ys z n] assms by blast
qed

text \<open>Removing what was just inserted leaves the old blocks.\<close>

lemma ins_del:
  assumes "holds s bs" "stored s z = Some n" "admits s z n" "z \<notin> fst ` set bs"
  shows "\<exists>s1 s2. ins s z = Some s1 \<and> del s1 z = Some s2 \<and> holds s2 bs"
proof -
  obtain s1 xs ys where "ins s z = Some s1" "bs = xs @ ys" "holds s1 (xs @ (z, n) # ys)"
    using ins_somewhere [OF assms] by blast
  then show ?thesis using del_law [of s1 xs z n ys] by blast
qed

lemma fit_found:
  assumes "holds s bs" "fit s n = Some z" "z \<noteq> nil_of s"
  shows "\<exists>xs m ys. bs = xs @ (z, m) # ys \<and> n \<le> m \<and> (\<forall>b \<in> set xs. snd b < n)"
  using fit_law [OF assms(1), of n] assms(2,3) by (cases rule: first_fit_cases [of "nil_of s" n bs]) auto

lemma fit_none:
  assumes "holds s bs" "fit s n = Some (nil_of s)"
  shows "\<forall>b \<in> set bs. snd b < n"
  using fit_law [OF assms(1), of n] assms holds_nil [OF assms(1)]
  by (cases rule: first_fit_cases [of "nil_of s" n bs]) auto

end

text \<open>The loop that walks to the next block that is large enough.\<close>

locale block_search = block_store +
  fixes skip :: "'a \<Rightarrow> size_t \<Rightarrow> addr \<Rightarrow> addr option"
  assumes skip_nil: "skip s n (nil_of s) = Some (nil_of s)"
    and skip_found: "a \<noteq> nil_of s \<Longrightarrow> stored s a = Some m \<Longrightarrow> n \<le> m \<Longrightarrow> skip s n a = Some a"
    and skip_next: "a \<noteq> nil_of s \<Longrightarrow> stored s a = Some m \<Longrightarrow> m < n \<Longrightarrow> nxt s a = Some b \<Longrightarrow> skip s n a = skip s n b"
begin

lemma skip_first_fit:
  assumes "holds s (xs @ ys)"
  shows "skip s n (first_addr (nil_of s) ys) = Some (first_fit (nil_of s) n ys)"
  using assms
proof (induction ys arbitrary: xs)
  case Nil
  then show ?case by (simp add: first_addr_def first_fit_def skip_nil)
next
  case (Cons b ys)
  obtain z m where b: "b = (z, m)" by (cases b) auto
  have z: "z \<noteq> nil_of s" "stored s z = Some m" using Cons.prems b holds_nil holds_size by force+
  have nx: "nxt s z = Some (first_addr (nil_of s) ys)" using Cons.prems b nxt_law by blast
  have IH: "skip s n (first_addr (nil_of s) ys) = Some (first_fit (nil_of s) n ys)"
    using Cons.IH [of "xs @ [b]"] Cons.prems by simp
  show ?case
  proof (cases "n \<le> m")
    case True
    then show ?thesis using skip_found [OF z] b by (simp add: first_addr_def first_fit_def)
  next
    case False
    then show ?thesis using skip_next [OF z _ nx] IH b by (simp add: first_addr_def first_fit_def)
  qed
qed

lemma next_candidate:
  assumes "holds s (xs @ (z, m) # ys)"
  shows "nxt s z \<bind> skip s n = Some (first_fit (nil_of s) n ys)"
  using skip_first_fit [of s "xs @ [(z, m)]" ys n] nxt_law [OF assms] assms by simp

end

text \<open>Enlarging a block in place.\<close>

locale block_growth = block_store +
  fixes grow :: "'a \<Rightarrow> addr \<Rightarrow> size_t \<Rightarrow> 'a option"
  assumes grow_law: "holds s (xs @ (z, n) # ys) \<Longrightarrow> n + d < 2 ^ 64 \<Longrightarrow>
    \<exists>s'. grow s z d = Some s' \<and> holds s' (xs @ (z, n + d) # ys) \<and> frm (fst ` set (xs @ (z, n) # ys)) s s'"
begin

text \<open>Merging a block with its right neighbour.\<close>

lemma absorb_next:
  assumes "holds s (xs @ (z, n) # (y, m) # ys)" "n + m < 2 ^ 64"
  shows "\<exists>s1 s2. del s y = Some s1 \<and> grow s1 z m = Some s2 \<and> holds s2 (xs @ (z, n + m) # ys) \<and>
    frm (fst ` set (xs @ (z, n) # (y, m) # ys)) s s1 \<and> frm (fst ` set (xs @ (z, n) # ys)) s1 s2"
proof -
  obtain s1 where 1: "del s y = Some s1" "holds s1 ((xs @ [(z, n)]) @ ys)"
    "frm (fst ` set (xs @ (z, n) # (y, m) # ys)) s s1"
    using del_law [of s "xs @ [(z, n)]" y m ys] assms by auto
  then show ?thesis using grow_law [of s1 xs z n ys m] assms by auto
qed

end

subsection \<open>The red-black tree as a store\<close>

definition fl_tree :: "fl_state \<Rightarrow> (addr \<times> size_t) list \<Rightarrow> bool" where
  "fl_tree s bs \<longleftrightarrow> (\<exists>T. tree_at s T \<and> rbt_ok T \<and> blocks T = bs)"

definition tree_admits :: "fl_state \<Rightarrow> addr \<Rightarrow> size_t \<Rightarrow> bool" where
  "tree_admits s z n \<longleftrightarrow> z \<noteq> fl_nil s \<and> z \<noteq> 0 \<and> z mod 16 = 0 \<and> 0 < n \<and> n \<le> 2 ^ 30"

lemma fl_tree_focus:
  assumes "fl_tree s (xs @ (z, n) # ys)"
  shows "\<exists>k c l x r. tree_at s (plug k (Nd c l z n x r)) \<and> rbt_ok (plug k (Nd c l z n x r)) \<and>
    xs = cpre k @ blocks l \<and> ys = blocks r @ cpost k"
proof -
  obtain T where T: "tree_at s T" "rbt_ok T" "blocks T = xs @ (z, n) # ys" using assms by (auto simp: fl_tree_def)
  then have "z \<in> set (addrs T)" by (simp add: addrs_blocks)
  then obtain k c l n' x r where k: "T = plug k (Nd c l z n' x r)" using plug_focus by blast
  have d: "distinct (map fst (xs @ (z, n) # ys))"
    using T(1) T(3) by (metis addrs_blocks sorted_wrt_less_distinct tree_at_def)
  have e: "(cpre k @ blocks l) @ (z, n') # (blocks r @ cpost k) = xs @ (z, n) # ys"
    using T(3) k by (simp add: blocks_plug)
  from split_unique [OF this d] show ?thesis using T(1,2) k by blast
qed

interpretation tree: block_store fl_tree fl_nil "rd bsize" tree_admits insert_node delete_node
  find_first_fit successor predecessor fl_frame
proof (unfold_locales, goal_cases)
  case (1 s bs)
  then show ?case by (auto simp: fl_tree_def tree_at_def addrs_blocks)
next
  case (2 s bs)
  then show ?case by (auto simp: fl_tree_def tree_at_def addrs_blocks)
next
  case (3 s xs z n ys)
  then show ?case by (auto dest!: fl_tree_focus dest: tree_node(1) simp: heap_exec)
next
  case (4 s bs z n)
  then obtain T b where "tree_at s T" "rbt_ok T" "blocks T = bs" "fl_mem s z = Some b" "bsize b = n"
    by (auto simp: fl_tree_def rd_def)
  with 4(3,4) insert_node_at [of s T z b] show ?case
    by (auto simp: tree_admits_def addrs_blocks fl_tree_def)
next
  case (5 s xs z n ys)
  then obtain k c l x r where k: "tree_at s (plug k (Nd c l z n x r))" "rbt_ok (plug k (Nd c l z n x r))"
    "xs = cpre k @ blocks l" "ys = blocks r @ cpost k" using fl_tree_focus by blast
  then show ?case using delete_node_at [OF k(1,2) refl]
    by (auto simp: fl_tree_def addrs_blocks blocks_plug image_Un ac_simps)
next
  case (6 s bs n)
  then show ?case by (auto simp: fl_tree_def rbt_ok_def find_first_fit_at)
next
  case (7 s xs z n ys)
  then show ?case by (auto dest!: fl_tree_focus simp: successor_at)
next
  case (8 s xs z n ys)
  then show ?case by (auto dest!: fl_tree_focus simp: predecessor_at)
qed

interpretation tree_search: block_search fl_tree fl_nil "rd bsize" tree_admits insert_node delete_node
  find_first_fit successor predecessor fl_frame skip_smaller
proof (unfold_locales, goal_cases)
  case (1 s n)
  then show ?case by (subst skip_smaller.simps) simp
next
  case (2 a s m n)
  then show ?case by (subst skip_smaller.simps) simp
next
  case (3 a s m n b)
  then show ?case by (subst skip_smaller.simps) simp
qed

lemma grow_block_at:
  assumes T: "tree_at s (plug k (Nd c l z n x r))" "rbt_ok (plug k (Nd c l z n x r))" and "n + d < 2 ^ 64"
  shows "\<exists>s'. grow_block s z d = Some s' \<and> fl_tree s' (cpre k @ blocks l @ (z, n + d) # blocks r @ cpost k) \<and>
    fl_frame (set (addrs (plug k (Nd c l z n x r)))) s s'"
proof -
  let ?s1 = "s\<lparr>fl_mem := (fl_mem s)(z \<mapsto> \<lparr>bsize = n + d, parent = par (fl_nil s) k,
    left = ptr (fl_nil s) l, right = ptr (fl_nil s) r, subtree_max = x, color = c\<rparr>)\<rparr>"
  let ?x = "max (max (n + d) (tmax l)) (tmax r)" and ?S = "set (addrs (plug k (Nd c l z n x r)))"
  have w: "wr s z (\<lambda>b. b\<lparr>bsize := add64 (bsize b) d\<rparr>) = Some ?s1"
    using tree_node [OF T(1)] assms(3) by (simp add: heap_exec)
  obtain s2 where 2: "update_max_upwards ?s1 z = Some s2"
     "tree_at s2 (plug (remax ?x k) (Nd c l z (n + d) ?x r))" "fl_frame ?S ?s1 s2"
    using update_max_upwards_at [OF node_upd [OF T(1), of "n + d" x c]] by (auto simp: set_addrs_plug)
  have "fl_frame ?S s ?s1" by (rule fl_frame_upd) (simp add: set_addrs_plug)
  then have F: "fl_frame ?S s s2" using 2(3) by (rule fl_frame_trans1)
  have "rbt_ok (plug (remax ?x k) (Nd c l z (n + d) ?x r))"
    using T(2) mctx_smok by (auto simp: rbt_ok_plug mctx_remax fcol_last_remax split: if_splits)
  then have "fl_tree s2 (cpre k @ blocks l @ (z, n + d) # blocks r @ cpost k)"
    using 2(2) by (auto simp: fl_tree_def blocks_plug intro!: exI [of _ "plug (remax ?x k) (Nd c l z (n + d) ?x r)"])
  with w 2(1) F show ?thesis by (simp add: grow_block_def)
qed

interpretation tree_growth: block_growth fl_tree fl_nil "rd bsize" tree_admits insert_node delete_node
  find_first_fit successor predecessor fl_frame grow_block
proof (unfold_locales, goal_cases)
  case (1 s xs z n ys d)
  then obtain k c l x r where k: "tree_at s (plug k (Nd c l z n x r))" "rbt_ok (plug k (Nd c l z n x r))"
    "xs = cpre k @ blocks l" "ys = blocks r @ cpost k" using fl_tree_focus by blast
  then show ?case using grow_block_at [OF k(1,2) 1(2)]
    by (auto simp: addrs_blocks blocks_plug image_Un)
qed

lemma delete_keeps_node:
  assumes "fl_tree s (xs @ (z, n) # ys)"
  shows "\<exists>s'. delete_node s z = Some s' \<and> fl_tree s' (xs @ ys) \<and>
    fl_frame (fst ` set (xs @ (z, n) # ys)) s s' \<and> fl_mem s' z \<noteq> None"
proof -
  obtain k c l x r where k: "tree_at s (plug k (Nd c l z n x r))" "rbt_ok (plug k (Nd c l z n x r))"
    "xs = cpre k @ blocks l" "ys = blocks r @ cpost k" using fl_tree_focus [OF assms] by blast
  then show ?thesis using delete_node_at [OF k(1,2) refl]
    by (auto simp: fl_tree_def addrs_blocks blocks_plug image_Un ac_simps)
qed

lemma fl_tree_verify: "fl_tree s bs \<Longrightarrow> \<forall>b \<in> set bs. fst b mod 16 = 0 \<Longrightarrow> verify_tree s (fl_root s) = Some ()"
  by (auto simp: fl_tree_def rbt_ok_def addrs_blocks intro!: verify_root)

end
