(* ===== verification/Free_List_Spec.thy ===== *)
theory Free_List_Spec
  imports Tree_Store
begin

text \<open>
  The allocator as it is meant: an abstract state with the free blocks in address order, the
  segregated lists as lists of addresses and two counters, and the operations on it as functions.
  The invariant \<open>ab_wf\<close> says that free and live regions tile the arena; this theory proves that
  both operations keep it. \<open>Free_List_Refine\<close> relates the pointer program to these functions.
\<close>

subsection \<open>Regions\<close>

fun cover :: "(addr \<times> size_t) list \<Rightarrow> addr \<Rightarrow> nat" where
  "cover [] v = 0"
| "cover ((a, m) # xs) v = (if a \<le> v \<and> v < a + m then 1 else 0) + cover xs v"

definition tiled :: "addr \<Rightarrow> size_t \<Rightarrow> (addr \<times> size_t) list \<Rightarrow> bool" where
  "tiled b n xs \<longleftrightarrow> (\<forall>v. cover xs v = (if b \<le> v \<and> v < b + n then 1 else 0))"

definition bytes :: "(addr \<times> size_t) list \<Rightarrow> nat" where
  "bytes xs = sum_list (map snd xs)"

text \<open>The regions in the segregated lists: class \<open>i\<close> holds blocks of \<open>16 * (i + 1)\<close> bytes.\<close>

fun class_regions :: "nat \<Rightarrow> addr list list \<Rightarrow> (addr \<times> size_t) list" where
  "class_regions i [] = []"
| "class_regions i (c # cs) = map (\<lambda>a. (a, 16 * Suc i)) c @ class_regions (Suc i) cs"

subsection \<open>The abstract allocator\<close>

record ab_state =
  ab_tree :: "(addr \<times> size_t) list"
  ab_small :: "addr list list"
  ab_used :: size_t
  ab_count :: size_t

definition ab_regions :: "ab_state \<Rightarrow> (addr \<times> size_t) list" where
  "ab_regions A = ab_tree A @ class_regions 0 (ab_small A)"

definition ab_push :: "nat \<Rightarrow> addr \<Rightarrow> ab_state \<Rightarrow> ab_state" where
  "ab_push i p A = A\<lparr>ab_small := (ab_small A)[i := p # ab_small A ! i]\<rparr>"

definition ab_insert :: "addr \<Rightarrow> size_t \<Rightarrow> ab_state \<Rightarrow> ab_state" where
  "ab_insert p m A = A\<lparr>ab_tree := insort_key fst (p, m) (ab_tree A)\<rparr>"

definition ab_padding :: "addr \<Rightarrow> size_t \<Rightarrow> ab_state \<Rightarrow> ab_state" where
  "ab_padding p m A =
     (if m < 16 then A else if m \<le> 128 then ab_push (m div 16 - 1) p A else ab_insert p m A)"

definition ab_remainder :: "addr \<Rightarrow> size_t \<Rightarrow> ab_state \<Rightarrow> ab_state" where
  "ab_remainder p m A =
     (if m < 16 then A else if m < 48 then ab_push (m div 16 - 1) p A else ab_insert p m A)"

definition ab_fits :: "size_t \<Rightarrow> size_t \<Rightarrow> addr \<times> size_t \<Rightarrow> bool" where
  "ab_fits isz al b \<longleftrightarrow> max isz 48 \<le> snd b \<and> align_up al (fst b) - fst b \<le> snd b - isz"

definition ab_carve :: "size_t \<Rightarrow> addr \<Rightarrow> addr \<Rightarrow> size_t \<Rightarrow> ab_state \<Rightarrow> ab_state" where
  "ab_carve isz h a m A =
     (let A = A\<lparr>ab_tree := filter (\<lambda>b. fst b \<noteq> a) (ab_tree A)\<rparr>;
          A = ab_padding a (h - a) A;
          r = m - (h - a) - isz;
          A = ab_remainder (h + isz) r A
      in A\<lparr>ab_used := ab_used A + isz,
           ab_count := (if r < 16 then sub64 (ab_count A) 1 else ab_count A)\<rparr>)"

definition ab_allocate ::
    "addr \<Rightarrow> size_t \<Rightarrow> size_t \<Rightarrow> ab_state \<Rightarrow> (AllocError + AllocationResult) \<times> ab_state" where
  "ab_allocate b sz al A =
     (let isz = internal_size_of sz; i = isz div 16 - 1 in
      if isz \<le> 128 \<and> ab_small A ! i \<noteq> [] then
        let p = hd (ab_small A ! i) in
        (Inr \<lparr>res_ptr = p, res_offset = p - b, res_actual_size = isz\<rparr>,
         A\<lparr>ab_small := (ab_small A)[i := tl (ab_small A ! i)],
           ab_used := ab_used A + isz, ab_count := sub64 (ab_count A) 1\<rparr>)
      else case find (ab_fits isz (max al 16)) (ab_tree A) of
        None \<Rightarrow> (Inl OutOfMemory, A)
      | Some (a, m) \<Rightarrow>
          let h = align_up (max al 16) a in
          (Inr \<lparr>res_ptr = h, res_offset = h - b, res_actual_size = isz\<rparr>, ab_carve isz h a m A))"

fun merge_next :: "addr \<Rightarrow> (addr \<times> size_t) list \<Rightarrow> (addr \<times> size_t) list" where
  "merge_next p ((a, m) # (c, k) # bs) =
     (if a = p then (if a + m = c then (a, m + k) # bs else (a, m) # (c, k) # bs)
      else (a, m) # merge_next p ((c, k) # bs))"
| "merge_next p bs = bs"

fun merge_prev :: "addr \<Rightarrow> (addr \<times> size_t) list \<Rightarrow> (addr \<times> size_t) list" where
  "merge_prev p ((a, m) # (c, k) # bs) =
     (if c = p then (if a + m = c then (a, m + k) # bs else (a, m) # (c, k) # bs)
      else (a, m) # merge_prev p ((c, k) # bs))"
| "merge_prev p bs = bs"

text \<open>A merge of two blocks takes one off the count.\<close>

definition ab_merge :: "((addr \<times> size_t) list \<Rightarrow> (addr \<times> size_t) list) \<Rightarrow> ab_state \<Rightarrow> ab_state" where
  "ab_merge f A = A\<lparr>ab_tree := f (ab_tree A),
     ab_count := (if length (f (ab_tree A)) < length (ab_tree A) then sub64 (ab_count A) 1 else ab_count A)\<rparr>"

definition ab_deallocate :: "addr \<Rightarrow> size_t \<Rightarrow> ab_state \<Rightarrow> ab_state" where
  "ab_deallocate p m A =
     (let A' = A\<lparr>ab_used := ab_used A - m, ab_count := add64 (ab_count A) 1\<rparr> in
      if m \<le> 128 then ab_push (m div 16 - 1) p A'
      else ab_merge (merge_prev p) (ab_merge (merge_next p) (ab_insert p m A')))"

subsection \<open>The invariant\<close>

definition arena_ok :: "addr \<Rightarrow> size_t \<Rightarrow> bool" where
  "arena_ok b n \<longleftrightarrow> 0 < b \<and> b mod 16 = 0 \<and> n mod 16 = 0 \<and> n \<le> 2 ^ 30 \<and> b + n < 2 ^ 64"

definition region_ok :: "addr \<times> size_t \<Rightarrow> bool" where
  "region_ok b \<longleftrightarrow> fst b mod 16 = 0 \<and> snd b mod 16 = 0 \<and> 0 < snd b"

definition coalesced :: "(addr \<times> size_t) list \<Rightarrow> bool" where
  "coalesced bs \<longleftrightarrow> (\<forall>x \<in> set bs. \<forall>y \<in> set bs. fst x + snd x \<noteq> fst y)"

definition ab_wf :: "addr \<Rightarrow> size_t \<Rightarrow> (addr \<times> size_t) list \<Rightarrow> ab_state \<Rightarrow> bool" where
  "ab_wf b n L A \<longleftrightarrow>
     arena_ok b n \<and> length (ab_small A) = 8 \<and> tiled b n (ab_regions A @ L) \<and>
     (\<forall>x \<in> set (ab_regions A @ L). region_ok x) \<and> (\<forall>x \<in> set (ab_tree A). 48 \<le> snd x) \<and>
     sorted_wrt (<) (map fst (ab_tree A)) \<and> coalesced (ab_tree A) \<and> ab_used A = bytes L"

definition ab_exact :: "ab_state \<Rightarrow> bool" where
  "ab_exact A \<longleftrightarrow> ab_count A = length (ab_regions A)"

subsection \<open>Tilings\<close>

lemma cover_append [simp]: "cover (xs @ ys) v = cover xs v + cover ys v"
  by (induction xs v rule: cover.induct) auto

lemma cover_insort [simp]: "cover (insort_key f x xs) v = cover [x] v + cover xs v"
  by (induction xs) (cases x; auto)+

lemma cover_mem: "(a, m) \<in> set xs \<Longrightarrow> a \<le> v \<Longrightarrow> v < a + m \<Longrightarrow> 1 \<le> cover xs v"
  by (induction xs v rule: cover.induct) auto

lemma cover_split: "cover [(a, p + i)] v = cover [(a, p), (a + p, i)] v"
  by auto

lemma tiled_bounds:
  assumes "tiled b n xs" "(a, m) \<in> set xs" "0 < m"
  shows "b \<le> a" "a + m \<le> b + n"
proof -
  have "1 \<le> cover xs a" "1 \<le> cover xs (a + m - 1)"
    using cover_mem [OF assms(2), of a] cover_mem [OF assms(2), of "a + m - 1"] assms(3) by auto
  then show "b \<le> a" "a + m \<le> b + n"
    using assms(1,3) unfolding tiled_def by (auto split: if_splits)
qed

lemma tiled_le: "tiled b n xs \<Longrightarrow> cover xs v \<le> 1"
  by (simp add: tiled_def)

lemma tiled_disjoint:
  assumes "tiled b n (xs @ (a, m) # ys)" "(c, k) \<in> set (xs @ ys)" "0 < m" "0 < k"
  shows "a + m \<le> c \<or> c + k \<le> a"
proof (rule ccontr)
  assume "\<not> ?thesis"
  then have v: "a \<le> max a c" "max a c < a + m" "c \<le> max a c" "max a c < c + k"
    using assms(3,4) by auto
  then have "1 \<le> cover (xs @ ys) (max a c)" using cover_mem [OF assms(2)] by blast
  with v have "2 \<le> cover (xs @ (a, m) # ys) (max a c)" by simp
  moreover have "cover (xs @ (a, m) # ys) (max a c) \<le> 1" using assms(1) by (rule tiled_le)
  ultimately show False by linarith
qed

lemma sum_indicator: "(\<Sum>v < N. if a \<le> v \<and> v < c then 1 else 0) = card {v \<in> {..<N}. a \<le> v \<and> v < c}"
  for N a c :: nat
  by (subst sum.inter_filter [symmetric]) auto

lemma sum_cover: "\<forall>(a, m) \<in> set xs. a + m \<le> N \<Longrightarrow> (\<Sum>v < N. cover xs v) = bytes xs"
proof (induction xs)
  case Nil
  then show ?case by (simp add: bytes_def)
next
  case (Cons x xs)
  obtain a m where x: "x = (a, m)" by (cases x) auto
  have "{v \<in> {..<N}. a \<le> v \<and> v < a + m} = {a ..< a + m}" using Cons.prems x by auto
  then have "(\<Sum>v < N. if a \<le> v \<and> v < a + m then 1 else 0) = m" by (simp add: sum_indicator)
  then show ?case using Cons x by (simp add: sum.distrib bytes_def)
qed

lemma tiled_bytes: "tiled b n xs \<Longrightarrow> \<forall>x \<in> set xs. 0 < snd x \<Longrightarrow> bytes xs = n"
proof -
  assume t: "tiled b n xs" and p: "\<forall>x \<in> set xs. 0 < snd x"
  have "\<forall>(a, m) \<in> set xs. a + m \<le> b + n" using tiled_bounds [OF t] p by fastforce
  then have "bytes xs = (\<Sum>v < b + n. cover xs v)" by (simp add: sum_cover)
  also have "\<dots> = (\<Sum>v < b + n. if b \<le> v \<and> v < b + n then 1 else 0)" using t by (simp add: tiled_def)
  also have "\<dots> = card {v \<in> {..<b + n}. b \<le> v \<and> v < b + n}" by (rule sum_indicator)
  also have "{v \<in> {..<b + n}. b \<le> v \<and> v < b + n} = {b ..< b + n}" by auto
  finally show ?thesis by simp
qed


subsection \<open>Sizes\<close>

lemma internal_size_eq:
  assumes "sz \<le> 2 ^ 64 - 16"
  shows "internal_size_of sz = (max sz 1 + 15) div 16 * 16"
proof -
  have "add64 (if sz = 0 then 1 else sz) 15 = max sz 1 + 15" using assms by (simp add: add64_def max_def)
  moreover have "max sz 1 + 15 < 2 ^ 64" using assms by auto
  ultimately show ?thesis
    using and_not64_mask [of "max sz 1 + 15" 4] by (simp add: internal_size_of_def)
qed

lemma internal_size_bounds:
  assumes "sz \<le> 2 ^ 64 - 16"
  shows "internal_size_of sz mod 16 = 0" "16 \<le> internal_size_of sz" "sz \<le> internal_size_of sz"
    "internal_size_of sz \<le> sz + 16" "internal_size_of sz < 2 ^ 64"
  unfolding internal_size_eq [OF assms] using assms by (auto simp: max_def)

subsection \<open>Regions of the abstract state\<close>

lemma class_set:
  "x \<in> set (class_regions j cs) \<longleftrightarrow> (\<exists>i < length cs. fst x \<in> set (cs ! i) \<and> snd x = 16 * Suc (i + j))"
proof (induction j cs rule: class_regions.induct)
  case (2 j c cs)
  then show ?case
    by (cases x) (auto simp: less_Suc_eq_0_disj nth_Cons' image_iff)
qed simp

lemma class_push:
  "i < length cs \<Longrightarrow> cover (class_regions j (cs[i := p # cs ! i])) v =
     cover [(p, 16 * Suc (i + j))] v + cover (class_regions j cs) v"
proof (induction j cs arbitrary: i rule: class_regions.induct)
  case (2 j c cs)
  then show ?case by (cases i) auto
qed simp

lemma class_pop:
  "i < length cs \<Longrightarrow> cs ! i = p # q \<Longrightarrow> cover (class_regions j cs) v =
     cover [(p, 16 * Suc (i + j))] v + cover (class_regions j (cs[i := q])) v"
proof (induction j cs arbitrary: i rule: class_regions.induct)
  case (2 j c cs)
  then show ?case by (cases i) auto
qed simp

lemma length_class_regions: "length (class_regions j cs) = sum_list (map length cs)"
  by (induction j cs rule: class_regions.induct) auto

definition class_of :: "size_t \<Rightarrow> nat" where
  "class_of m = m div 16 - 1"

lemma class_of_bounds: "m mod 16 = 0 \<Longrightarrow> 0 < m \<Longrightarrow> m \<le> 128 \<Longrightarrow> class_of m < 8 \<and> 16 * Suc (class_of m) = m"
  unfolding class_of_def by (auto simp: mod_eq_0_iff_dvd elim!: dvdE)

lemma cover_push:
  assumes "length (ab_small A) = 8" "m mod 16 = 0" "0 < m" "m \<le> 128"
  shows "cover (ab_regions (ab_push (m div 16 - 1) p A)) v = cover [(p, m)] v + cover (ab_regions A) v"
  using class_of_bounds [OF assms(2-4)] class_push [of "class_of m" "ab_small A" 0 p v] assms(1)
  by (simp add: ab_regions_def ab_push_def class_of_def)

lemma cover_ab_insert [simp]:
  "cover (ab_regions (ab_insert p m A)) v = cover [(p, m)] v + cover (ab_regions A) v"
  by (simp add: ab_regions_def ab_insert_def)

lemma set_push:
  assumes "length (ab_small A) = 8" "m mod 16 = 0" "0 < m" "m \<le> 128"
  shows "set (ab_regions (ab_push (m div 16 - 1) p A)) = insert (p, m) (set (ab_regions A))"
proof -
  have c: "class_of m < 8" "16 * Suc (class_of m) = m" using class_of_bounds [OF assms(2-4)] by auto
  have "set (class_regions 0 ((ab_small A)[class_of m := p # ab_small A ! class_of m])) =
      insert (p, m) (set (class_regions 0 (ab_small A)))"
    using assms(1) c by (auto simp: class_set nth_list_update split: if_splits)
  then show ?thesis by (simp add: ab_regions_def ab_push_def class_of_def)
qed

lemma set_ab_insert [simp]: "set (ab_regions (ab_insert p m A)) = insert (p, m) (set (ab_regions A))"
  by (auto simp: ab_regions_def ab_insert_def set_insort_key)

lemma small_length [simp]:
  "length (ab_small (ab_push i p A)) = length (ab_small A)" "ab_small (ab_insert p m A) = ab_small A"
  "length (ab_small (ab_padding p m A)) = length (ab_small A)"
  "length (ab_small (ab_remainder p m A)) = length (ab_small A)"
  by (simp_all add: ab_push_def ab_insert_def ab_padding_def ab_remainder_def)

lemma ab_tree_simps [simp]:
  "ab_tree (ab_push i p A) = ab_tree A" "ab_tree (ab_insert p m A) = insort_key fst (p, m) (ab_tree A)"
  "ab_tree (ab_padding p m A) = (if m \<le> 128 then ab_tree A else insort_key fst (p, m) (ab_tree A))"
  "ab_tree (ab_remainder p m A) = (if m < 48 then ab_tree A else insort_key fst (p, m) (ab_tree A))"
  by (auto simp: ab_push_def ab_insert_def ab_padding_def ab_remainder_def)

lemma ab_used_simps [simp]:
  "ab_used (ab_push i p A) = ab_used A" "ab_used (ab_insert p m A) = ab_used A"
  "ab_used (ab_padding p m A) = ab_used A" "ab_used (ab_remainder p m A) = ab_used A"
  "ab_count (ab_push i p A) = ab_count A" "ab_count (ab_insert p m A) = ab_count A"
  "ab_count (ab_padding p m A) = ab_count A" "ab_count (ab_remainder p m A) = ab_count A"
  by (auto simp: ab_push_def ab_insert_def ab_padding_def ab_remainder_def)

lemma cover_padding:
  assumes "length (ab_small A) = 8" "m mod 16 = 0"
  shows "cover (ab_regions (ab_padding p m A)) v = cover [(p, m)] v + cover (ab_regions A) v"
  using assms cover_push [OF assms, of p v] by (auto simp: ab_padding_def)

lemma cover_remainder:
  assumes "length (ab_small A) = 8" "m mod 16 = 0"
  shows "cover (ab_regions (ab_remainder p m A)) v = cover [(p, m)] v + cover (ab_regions A) v"
  using assms cover_push [OF assms, of p v] by (auto simp: ab_remainder_def)

lemma set_padding:
  assumes "length (ab_small A) = 8" "m mod 16 = 0"
  shows "set (ab_regions (ab_padding p m A)) = (if m = 0 then {} else {(p, m)}) \<union> set (ab_regions A)"
  using assms set_push [OF assms, of p] by (auto simp: ab_padding_def)

lemma set_remainder:
  assumes "length (ab_small A) = 8" "m mod 16 = 0"
  shows "set (ab_regions (ab_remainder p m A)) = (if m = 0 then {} else {(p, m)}) \<union> set (ab_regions A)"
  using assms set_push [OF assms, of p] by (auto simp: ab_remainder_def)

lemma sorted_insort_strict:
  "sorted_wrt (<) (map fst xs) \<Longrightarrow> fst p \<notin> fst ` set xs \<Longrightarrow> sorted_wrt (<) (map fst (insort_key fst p xs))"
  for p :: "addr \<times> size_t"
  by (auto simp: strict_sorted_iff sorted_insort_key distinct_insort set_insort_key distinct_map inj_on_def image_iff)

lemma coalesced_insort:
  "coalesced (insort_key fst (p, m) xs) \<longleftrightarrow>
     coalesced xs \<and> m \<noteq> 0 \<and> (\<forall>x \<in> set xs. fst x + snd x \<noteq> p \<and> p + m \<noteq> fst x)"
  by (auto simp: coalesced_def set_insort_key)


subsection \<open>Allocation keeps the invariant\<close>

lemma ab_wf_region:
  assumes "ab_wf b n L A" "(a, m) \<in> set (ab_regions A @ L)"
  shows "a mod 16 = 0" "m mod 16 = 0" "0 < m" "b \<le> a" "a + m \<le> b + n" "m \<le> n"
proof -
  have "region_ok (a, m)" using assms unfolding ab_wf_def by blast
  then show r: "a mod 16 = 0" "m mod 16 = 0" "0 < m" by (auto simp: region_ok_def)
  have "tiled b n (ab_regions A @ L)" using assms(1) by (simp add: ab_wf_def)
  from tiled_bounds [OF this assms(2) r(3)] show "b \<le> a" "a + m \<le> b + n" "m \<le> n" by auto
qed

text \<open>A block of the tree is disjoint from every other block of the tree.\<close>

lemma ab_wf_tree_split:
  assumes "ab_wf b n L A" "ab_tree A = xs @ (a, m) # ys" "x \<in> set (xs @ ys)"
  shows "a + m < fst x \<or> fst x + snd x < a" "region_ok x" "48 \<le> snd x"
proof -
  have t: "tiled b n (xs @ (a, m) # (ys @ class_regions 0 (ab_small A) @ L))"
    and r: "\<forall>y \<in> set (ab_tree A). region_ok y" "\<forall>y \<in> set (ab_tree A). 48 \<le> snd y" "coalesced (ab_tree A)"
    using assms(1,2) by (auto simp: ab_wf_def ab_regions_def)
  then show x: "region_ok x" "48 \<le> snd x" using assms(2,3) by auto
  have "a + m \<le> fst x \<or> fst x + snd x \<le> a"
    using tiled_disjoint [OF t, of "fst x" "snd x"] assms(2,3) r x by (auto simp: region_ok_def)
  moreover have "a + m \<noteq> fst x" "fst x + snd x \<noteq> a" using r(3) assms(2,3) by (auto simp: coalesced_def)
  ultimately show "a + m < fst x \<or> fst x + snd x < a" by linarith
qed

lemma align_up_props:
  assumes "has_single_bit al" "16 \<le> al" "a mod 16 = 0"
  shows "a \<le> align_up al a" "align_up al a mod al = 0" "align_up al a mod 16 = 0" "align_up al a < a + al"
proof -
  obtain k where k: "al = 2 ^ k" using assms(1) has_single_bit_iff by blast
  with assms(2) have "4 \<le> k" by (cases "k < 4") (auto simp: less_Suc_eq numeral_eq_Suc)
  then have d: "16 dvd al" using k le_imp_power_dvd [of 4 k "2 :: nat"] by simp
  show "align_up al a mod al = 0" by (simp add: align_up_def)
  then show "align_up al a mod 16 = 0" using d by (metis dvd_imp_mod_0 dvd_trans mod_0_imp_dvd)
  have "(a + (al - 1)) div al * al + (a + (al - 1)) mod al = a + (al - 1)" by simp
  moreover have "(a + (al - 1)) mod al < al" using assms(2) by simp
  ultimately show "a \<le> align_up al a" "align_up al a < a + al" unfolding align_up_def using assms(2) by linarith+
qed

lemma filter_split:
  "sorted_wrt (<) (map fst (xs @ (a, m) # ys)) \<Longrightarrow> filter (\<lambda>b. fst b \<noteq> a) (xs @ (a, m) # ys) = xs @ ys"
  for a :: addr
  using filter_True [of xs "\<lambda>b. fst b \<noteq> a"] filter_True [of ys "\<lambda>b. fst b \<noteq> a"]
  by (fastforce simp: sorted_wrt_append)

text \<open>The two rests of a split block go back into the tree: what is left of it stays ordered and coalesced.\<close>

lemma carved_tree:
  assumes srt: "sorted_wrt (<) (map fst (xs @ (a, m) # ys))" and co: "coalesced (xs @ ys)"
    and oth: "\<And>x. x \<in> set (xs @ ys) \<Longrightarrow> a + m < fst x \<or> fst x + snd x < a"
    and isz: "0 < isz" and sum: "m = q + (isz + r)" "h = a + q"
  defines "T \<equiv> let T = (if q \<le> 128 then xs @ ys else insort_key fst (a, q) (xs @ ys))
     in if r < 48 then T else insort_key fst (h + isz, r) T"
  shows "sorted_wrt (<) (map fst T)" "coalesced T"
proof -
  have "sorted_wrt (<) (map fst (xs @ ys))" "a \<notin> fst ` set (xs @ ys)" "h + isz \<notin> fst ` set (xs @ ys)"
    using srt oth sum isz by (auto simp: sorted_wrt_append dest!: oth) fastforce+
  then show "sorted_wrt (<) (map fst T)" using isz sum by (simp add: T_def Let_def set_insort_key sorted_insort_strict)
  have far: "\<forall>x \<in> set (xs @ ys). fst x + snd x \<noteq> a \<and> fst x + snd x \<noteq> h + isz \<and> a + q \<noteq> fst x \<and> h + isz + r \<noteq> fst x"
  proof
    fix x assume "x \<in> set (xs @ ys)"
    from oth [OF this] sum show "fst x + snd x \<noteq> a \<and> fst x + snd x \<noteq> h + isz \<and> a + q \<noteq> fst x \<and> h + isz + r \<noteq> fst x"
      by linarith
  qed
  then show "coalesced T" using co isz sum by (simp add: T_def Let_def coalesced_insort set_insort_key ball_Un)
qed

lemma ab_carve_wf:
  assumes wf: "ab_wf b n L A" and t: "ab_tree A = xs @ (a, m) # ys"
    and h: "a \<le> h" "h mod 16 = 0" "h - a + isz \<le> m" and isz: "isz mod 16 = 0" "0 < isz"
  shows "ab_wf b n ((h, isz) # L) (ab_carve isz h a m A)"
proof -
  define A0 where "A0 = A\<lparr>ab_tree := xs @ ys\<rparr>"
  define q where "q = h - a"
  define r where "r = m - q - isz"
  define A1 where "A1 = ab_padding a q A0"
  define A2 where "A2 = ab_remainder (h + isz) r A1"
  have srt: "sorted_wrt (<) (map fst (xs @ (a, m) # ys))" and l8: "length (ab_small A) = 8"
    and tl: "tiled b n (ab_regions A @ L)" and ar: "arena_ok b n" and us: "ab_used A = bytes L"
    and ok: "\<forall>x \<in> set (ab_regions A @ L). region_ok x" and co: "coalesced (ab_tree A)"
    using wf t by (auto simp: ab_wf_def)
  have C: "ab_carve isz h a m A = A2\<lparr>ab_used := ab_used A2 + isz,
      ab_count := (if r < 16 then sub64 (ab_count A2) 1 else ab_count A2)\<rparr>"
    using filter_split [OF srt] t by (simp add: ab_carve_def A0_def A1_def A2_def q_def r_def Let_def)
  have am: "a mod 16 = 0" "m mod 16 = 0" "48 \<le> m" using wf t by (auto simp: ab_wf_def ab_regions_def region_ok_def)
  have q16: "q mod 16 = 0" using am h unfolding q_def by (metis dvd_diff_nat mod_0_imp_dvd dvd_imp_mod_0)
  then have r16: "r mod 16 = 0" using am isz unfolding r_def by (metis dvd_diff_nat mod_0_imp_dvd dvd_imp_mod_0)
  have sum: "m = q + (isz + r)" "h = a + q" using h by (auto simp: q_def r_def)
  have len: "length (ab_small A0) = 8" "length (ab_small A1) = 8" using l8 by (simp_all add: A0_def A1_def)
  have oth: "\<And>x. x \<in> set (xs @ ys) \<Longrightarrow> a + m < fst x \<or> fst x + snd x < a"
    using ab_wf_tree_split(1) [OF wf t] by blast
  have cov: "cover (ab_regions A2) v + cover [(h, isz)] v = cover (ab_regions A) v" for v
  proof -
    have "cover (ab_regions A) v = cover [(a, m)] v + cover (ab_regions A0) v"
      by (simp add: ab_regions_def A0_def t)
    then show ?thesis using len q16 r16
      by (auto simp: A2_def A1_def cover_padding cover_remainder sum)
  qed
  have set2: "set (ab_regions A2) = (if r = 0 then {} else {(h + isz, r)}) \<union>
      ((if q = 0 then {} else {(a, q)}) \<union> set (ab_regions A0))"
    using len q16 r16 by (simp add: A2_def A1_def set_padding set_remainder)
  have "set (ab_regions A0) \<subseteq> set (ab_regions A)" by (auto simp: ab_regions_def A0_def t)
  then have ok2: "\<forall>x \<in> set (ab_regions A2). region_ok x"
    using ok set2 am h(2) isz q16 r16 by (auto simp: region_ok_def split: if_splits)
  have tr: "ab_tree A2 = (let T = (if q \<le> 128 then xs @ ys else insort_key fst (a, q) (xs @ ys))
     in if r < 48 then T else insort_key fst (h + isz, r) T)"
    by (simp add: A2_def A1_def A0_def)
  have "coalesced (xs @ ys)" using co t by (auto simp: coalesced_def)
  note tree2 = carved_tree [OF srt this oth isz(2) sum, folded tr]
  have "\<forall>x \<in> set (ab_tree A2). 48 \<le> snd x"
    using wf t by (auto simp: ab_wf_def tr Let_def set_insort_key)
  moreover have "tiled b n (ab_regions A2 @ (h, isz) # L)"
    using tl cov by (simp add: tiled_def add.assoc [symmetric])
  moreover have "region_ok (h, isz)" using h(2) isz by (simp add: region_ok_def)
  moreover have "length (ab_small A2) = 8" "ab_used A2 + isz = bytes ((h, isz) # L)"
    using len us by (simp_all add: A2_def A1_def A0_def bytes_def)
  ultimately show ?thesis
    using ok2 ok tree2 ar unfolding C ab_wf_def by (simp add: ab_regions_def ball_Un)
qed

lemma ab_pop_wf:
  assumes wf: "ab_wf b n L A" and i: "i < 8" "ab_small A ! i = p # ps" and isz: "isz = 16 * Suc i"
  shows "ab_wf b n ((p, isz) # L) (A\<lparr>ab_small := (ab_small A)[i := ps], ab_used := ab_used A + isz, ab_count := c\<rparr>)"
proof -
  let ?A = "A\<lparr>ab_small := (ab_small A)[i := ps], ab_used := ab_used A + isz, ab_count := c\<rparr>"
  have l8: "length (ab_small A) = 8" using wf by (simp add: ab_wf_def)
  have "cover (ab_regions ?A @ (p, isz) # L) v = cover (ab_regions A @ L) v" for v
    using class_pop [of i "ab_small A" p ps 0 v] i l8 isz by (simp add: ab_regions_def)
  then have "tiled b n (ab_regions ?A @ (p, isz) # L)" using wf unfolding ab_wf_def tiled_def by metis
  moreover have "set (class_regions 0 ((ab_small A)[i := ps])) \<subseteq> set (class_regions 0 (ab_small A))"
    using i l8 by (auto simp: class_set nth_list_update split: if_splits)
  moreover have "(p, isz) \<in> set (class_regions 0 (ab_small A))" using i l8 isz by (auto simp: class_set)
  ultimately show ?thesis
    using wf by (auto simp: ab_wf_def ab_regions_def bytes_def)
qed

definition align_ok :: "size_t \<Rightarrow> bool" where
  "align_ok al \<longleftrightarrow> al \<le> 16 \<or> has_single_bit al"

lemma align_okD: "align_ok al \<Longrightarrow> has_single_bit (max al 16)"
  using has_single_bit_power [of 4] by (auto simp: align_ok_def max_def)

lemma find_split: "find P xs = Some x \<Longrightarrow> \<exists>us vs. xs = us @ x # vs \<and> P x \<and> (\<forall>u \<in> set us. \<not> P u)"
proof (induction xs)
  case (Cons y ys)
  show ?case
  proof (cases "P y")
    case True
    with Cons.prems show ?thesis by (intro exI [of _ "[]"] exI [of _ ys]) auto
  next
    case False
    with Cons obtain us vs where "ys = us @ x # vs \<and> P x \<and> (\<forall>u \<in> set us. \<not> P u)" by auto
    with False show ?thesis by (intro exI [of _ "y # us"] exI [of _ vs]) auto
  qed
qed simp

lemma ab_allocate_wf:
  assumes wf: "ab_wf b n L A" and sz: "sz \<le> 2 ^ 64 - 16" and al: "align_ok al"
    and r: "ab_allocate b sz al A = (Inr r, A')"
  shows "ab_wf b n ((res_ptr r, res_actual_size r) # L) A'"
proof -
  define isz where "isz = internal_size_of sz"
  define i where "i = isz div 16 - 1"
  note I = internal_size_bounds [OF sz, folded isz_def]
  show ?thesis
  proof (cases "isz \<le> 128 \<and> ab_small A ! i \<noteq> []")
    case True
    then obtain p ps where p: "ab_small A ! i = p # ps" by (cases "ab_small A ! i") auto
    have c: "i < 8" "isz = 16 * Suc i" using class_of_bounds [of isz] I(1,2) True by (auto simp: i_def class_of_def)
    with r True p ab_pop_wf [OF wf c(1) p c(2)] show ?thesis
      by (auto simp: ab_allocate_def isz_def i_def Let_def)
  next
    case False
    let ?al = "max al 16"
    obtain a m where f: "find (ab_fits isz ?al) (ab_tree A) = Some (a, m)"
      and r': "r = \<lparr>res_ptr = align_up ?al a, res_offset = align_up ?al a - b, res_actual_size = isz\<rparr>"
        "A' = ab_carve isz (align_up ?al a) a m A"
      using r False by (auto simp: ab_allocate_def isz_def i_def Let_def split: option.splits)
    obtain xs ys where t: "ab_tree A = xs @ (a, m) # ys" and fit: "ab_fits isz ?al (a, m)"
      using find_split [OF f] by blast
    have "a mod 16 = 0" using ab_wf_region(1) [OF wf, of a m] t by (simp add: ab_regions_def)
    note U = align_up_props [OF align_okD [OF al] _ this]
    have "ab_wf b n ((align_up ?al a, isz) # L) (ab_carve isz (align_up ?al a) a m A)"
      by (rule ab_carve_wf [OF wf t]) (use U fit I in \<open>auto simp: ab_fits_def\<close>)
    then show ?thesis using r' by simp
  qed
qed

lemma ab_allocate_error: "ab_allocate b sz al A = (Inl e, A') \<Longrightarrow> e = OutOfMemory \<and> A' = A"
  by (auto simp: ab_allocate_def Let_def split: if_splits option.splits)

subsection \<open>Deallocation keeps the invariant\<close>

lemma merge_next_split:
  "p \<notin> fst ` set xs \<Longrightarrow> merge_next p (xs @ (p, m) # ys) =
     xs @ (case ys of [] \<Rightarrow> [(p, m)] | (c, k) # zs \<Rightarrow> if p + m = c then (p, m + k) # zs else (p, m) # ys)"
proof (induction xs)
  case Nil
  then show ?case by (auto split: list.splits)
next
  case (Cons x xs)
  obtain a l where x: "x = (a, l)" by (cases x) auto
  show ?case
  proof (cases "xs @ (p, m) # ys")
    case (Cons w ws)
    then show ?thesis using Cons.IH Cons.prems x by (cases w) auto
  qed simp
qed

lemma merge_prev_split:
  "p \<notin> fst ` set (xs @ [(a, l)]) \<Longrightarrow> merge_prev p (xs @ (a, l) # (p, m) # ys) =
     (if a + l = p then xs @ (a, l + m) # ys else xs @ (a, l) # (p, m) # ys)"
proof (induction xs)
  case (Cons x xs)
  then obtain c k where x: "x = (c, k)" by (cases x) auto
  show ?case
  proof (cases "xs @ (a, l) # (p, m) # ys")
    case (Cons w ws)
    then have "fst w \<noteq> p" using Cons.prems by (cases xs) auto
    then show ?thesis using Cons Cons.IH Cons.prems x by (cases w) auto
  qed simp
qed simp

lemma merge_prev_first: "p \<notin> fst ` set ys \<Longrightarrow> merge_prev p ((p, m) # ys) = (p, m) # ys"
proof (induction ys arbitrary: p m)
  case (Cons y ys)
  obtain c k where y: "y = (c, k)" by (cases y) auto
  have "merge_prev p (y # ys) = y # ys" if "p \<notin> fst ` set (y # ys)" for p
    using that y by (induction p "y # ys" arbitrary: y ys c k rule: merge_prev.induct) auto
  then show ?case using Cons.prems y by auto
qed simp


definition gapped :: "(addr \<times> size_t) list \<Rightarrow> bool" where
  "gapped bs \<longleftrightarrow> sorted_wrt (\<lambda>x y. fst x + snd x < fst y) bs"

lemma sorted_wrt_split: "(\<And>xs a ys y. l = xs @ a # ys \<Longrightarrow> y \<in> set ys \<Longrightarrow> P a y) \<Longrightarrow> sorted_wrt P l"
proof (induction l)
  case (Cons z zs)
  have "sorted_wrt P zs" by (rule Cons.IH) (use Cons.prems in \<open>metis append_Cons\<close>)
  then show ?case using Cons.prems [of "[]" z zs] by auto
qed simp

lemma ab_wf_gapped:
  assumes "ab_wf b n L A"
  shows "gapped (ab_tree A)"
  unfolding gapped_def
proof (rule sorted_wrt_split)
  fix xs x ys y
  assume t: "ab_tree A = xs @ x # ys" and y: "y \<in> set ys"
  have "fst x < fst y" using assms t y by (auto simp: ab_wf_def sorted_wrt_append)
  then show "fst x + snd x < fst y"
    using ab_wf_tree_split(1) [OF assms, of xs "fst x" "snd x" ys y] t y by auto
qed

lemma gapped_sorted:
  assumes "gapped bs" "\<forall>x \<in> set bs. 0 < snd x"
  shows "sorted_wrt (<) (map fst bs)" "coalesced bs"
proof -
  show "sorted_wrt (<) (map fst bs)"
    using assms(1) unfolding gapped_def sorted_wrt_map by (rule sorted_wrt_mono_rel [rotated]) auto
  show "coalesced bs"
    using assms
  proof (induction bs)
    case (Cons x xs)
    then show ?case by (fastforce simp: gapped_def coalesced_def)
  qed (simp add: coalesced_def)
qed

lemma gapped_Nil [simp]: "gapped []"
  by (simp add: gapped_def)

lemma gapped_ConsD: "gapped ((c, k) # zs) \<Longrightarrow> y \<in> set zs \<Longrightarrow> c + k < fst y"
  and gapped_appendD: "gapped (xs @ ys) \<Longrightarrow> gapped xs \<and> gapped ys"
  by (auto simp: gapped_def sorted_wrt_append)

lemma gapped_append:
  "gapped (xs @ (p, m) # ys) \<longleftrightarrow> gapped xs \<and> gapped ys \<and> (\<forall>x \<in> set xs. fst x + snd x < p) \<and>
     (\<forall>y \<in> set ys. p + m < fst y) \<and> (\<forall>x \<in> set xs. \<forall>y \<in> set ys. fst x + snd x < fst y)"
  by (auto simp: gapped_def sorted_wrt_append)

text \<open>Merging to the right: afterwards every later block starts strictly behind the merged one.\<close>

lemma merge_next_gap:
  assumes "gapped ys" "\<forall>y \<in> set ys. p + m \<le> fst y" "p \<notin> fst ` set xs" "0 < m"
  shows "\<exists>m' ys'. merge_next p (xs @ (p, m) # ys) = xs @ (p, m') # ys' \<and> 0 < m' \<and> gapped ys' \<and>
    (\<forall>y \<in> set ys'. p + m' < fst y)"
proof (cases ys)
  case Nil
  then show ?thesis using merge_next_split [OF assms(3), of m ys] assms by auto
next
  case (Cons w zs)
  obtain c k where w: "w = (c, k)" by (cases w) auto
  have zs: "gapped zs" using assms(1) Cons by (auto simp: gapped_def)
  have far: "c + k < fst y" if "y \<in> set zs" for y using gapped_ConsD [of c k zs y] assms(1) Cons w that by simp
  show ?thesis
  proof (cases "p + m = c")
    case True
    then have "merge_next p (xs @ (p, m) # ys) = xs @ (p, m + k) # zs"
      using merge_next_split [OF assms(3), of m ys] Cons w by simp
    moreover have "\<forall>y \<in> set zs. p + (m + k) < fst y" using far True by (simp add: add.assoc [symmetric])
    ultimately show ?thesis using zs assms(4) by (intro exI [of _ "m + k"] exI [of _ zs]) simp
  next
    case False
    then have "merge_next p (xs @ (p, m) # ys) = xs @ (p, m) # ys"
      using merge_next_split [OF assms(3), of m ys] Cons w by simp
    moreover have lt: "p + m < c" using assms(2) False Cons w by auto
    moreover have "\<forall>y \<in> set ys. p + m < fst y"
    proof
      fix y assume "y \<in> set ys"
      then consider "y = w" | "y \<in> set zs" using Cons by auto
      then show "p + m < fst y"
      proof cases
        case 1
        then show ?thesis using lt w by simp
      next
        case 2
        from far [OF this] lt show ?thesis by linarith
      qed
    qed
    ultimately show ?thesis using assms by (intro exI [of _ m] exI [of _ ys]) simp
  qed
qed

lemma gapped_merge:
  assumes g: "gapped xs" "gapped ys" and x: "\<forall>x \<in> set xs. fst x + snd x \<le> p" "\<forall>y \<in> set ys. p + m \<le> fst y"
    and pos: "\<forall>x \<in> set xs. 0 < snd x" "0 < m"
  shows "gapped (merge_prev p (merge_next p (xs @ (p, m) # ys)))"
proof -
  have px: "p \<notin> fst ` set xs"
  proof
    assume "p \<in> fst ` set xs"
    then obtain x where "x \<in> set xs" "fst x = p" by auto
    with x(1) pos(1) have "p + snd x \<le> p" "0 < snd x" by auto
    then show False by simp
  qed
  obtain m' ys' where 1: "merge_next p (xs @ (p, m) # ys) = xs @ (p, m') # ys'" "0 < m'" "gapped ys'"
    "\<forall>y \<in> set ys'. p + m' < fst y"
    using merge_next_gap [OF g(2) x(2) px pos(2)] by blast
  have far: "p < fst y" if "y \<in> set ys'" for y using 1(4) that by force
  show ?thesis
  proof (cases xs rule: rev_cases)
    case Nil
    have "p \<notin> fst ` set ys'" using far by blast
    then show ?thesis using 1 Nil merge_prev_first by (auto simp: gapped_def)
  next
    case (snoc us w)
    obtain a l where w: "w = (a, l)" by (cases w) auto
    have us: "gapped us" "\<forall>u \<in> set us. fst u + snd u < a" using g(1) snoc w by (auto simp: gapped_def sorted_wrt_append)
    have al: "a + l \<le> p" using x(1) snoc w by simp
    have r: "merge_prev p (us @ (a, l) # (p, m') # ys') =
       (if a + l = p then us @ (a, l + m') # ys' else us @ (a, l) # (p, m') # ys')"
      using merge_prev_split [of p us a l m' ys'] px snoc w by simp
    have up: "fst u + snd u < p" if "u \<in> set us" for u using us(2) al that by force
    have uy: "fst u + snd u < fst y" if "u \<in> set us" "y \<in> set ys'" for u y
      using up [OF that(1)] far [OF that(2)] by simp
    have ay: "a + l < fst y" if "y \<in> set ys'" for y using far [OF that] al by simp
    show ?thesis
    proof (cases "a + l = p")
      case True
      then show ?thesis using 1 r us uy snoc w by (simp add: gapped_append add.assoc [symmetric])
    next
      case False
      then have "gapped ((us @ [(a, l)]) @ (p, m') # ys')"
        unfolding gapped_append using 1 us uy up ay al g(1) snoc w by simp
      then show ?thesis using 1 r False snoc w by simp
    qed
  qed
qed

lemma cover_merge_next [simp]: "cover (merge_next p bs) v = cover bs v"
  by (induction p bs rule: merge_next.induct) auto

lemma cover_merge_prev [simp]: "cover (merge_prev p bs) v = cover bs v"
  by (induction p bs rule: merge_prev.induct) auto

lemma region_merge:
  "\<forall>x \<in> set bs. region_ok x \<and> 48 \<le> snd x \<Longrightarrow> \<forall>x \<in> set (merge_next p bs). region_ok x \<and> 48 \<le> snd x"
  "\<forall>x \<in> set bs. region_ok x \<and> 48 \<le> snd x \<Longrightarrow> \<forall>x \<in> set (merge_prev p bs). region_ok x \<and> 48 \<le> snd x"
   apply (induction p bs rule: merge_next.induct; auto simp: region_ok_def mod_add_eq [symmetric])
  apply (induction p bs rule: merge_prev.induct; auto simp: region_ok_def mod_add_eq [symmetric])
  done

lemma cover_remove1: "x \<in> set L \<Longrightarrow> cover L v = cover [x] v + cover (remove1 x L) v"
  by (induction L) (cases x; auto)+

lemma bytes_remove1: "x \<in> set L \<Longrightarrow> bytes L = snd x + bytes (remove1 x L)"
  by (induction L) (auto simp: bytes_def)

text \<open>Live regions are disjoint from the free ones, so a live address splits the tree.\<close>

lemma live_disjoint:
  assumes wf: "ab_wf b n L A" and p: "(p, m) \<in> set L" and c: "(c, k) \<in> set (ab_regions A)"
  shows "p + m \<le> c \<or> c + k \<le> p"
proof -
  obtain us vs where L: "L = us @ (p, m) # vs" using p by (meson split_list)
  have "tiled b n ((ab_regions A @ us) @ (p, m) # vs)" using wf L by (simp add: ab_wf_def)
  then show ?thesis
    by (rule tiled_disjoint) (use c p ab_wf_region(3) [OF wf] in auto)
qed

lemma live_split:
  assumes wf: "ab_wf b n L A" and p: "(p, m) \<in> set L"
  shows "\<exists>xs ys. ab_tree A = xs @ ys \<and> all_below p xs \<and> all_above p ys \<and>
    (\<forall>x \<in> set xs. fst x + snd x \<le> p) \<and> (\<forall>y \<in> set ys. p + m \<le> fst y)"
proof -
  have d: "p + m \<le> fst x \<or> fst x + snd x \<le> p" "0 < snd x" "0 < m" if "x \<in> set (ab_tree A)" for x
    using live_disjoint [OF wf p, of "fst x" "snd x"] ab_wf_region(3) [OF wf, of "fst x" "snd x"]
      ab_wf_region(3) [OF wf, of p m] that p by (auto simp: ab_regions_def)
  then have "p \<notin> fst ` set (ab_tree A)" by fastforce
  moreover have "sorted_wrt (<) (map fst (ab_tree A))" using wf by (simp add: ab_wf_def)
  ultimately obtain xs ys where t: "ab_tree A = xs @ ys" "all_below p xs" "all_above p ys"
    using sorted_split by blast
  have "\<forall>x \<in> set xs. fst x + snd x \<le> p" "\<forall>y \<in> set ys. p + m \<le> fst y"
    using t d by (fastforce simp: all_below_def all_above_def)+
  with t show ?thesis by blast
qed

lemma ab_deallocate_wf:
  assumes wf: "ab_wf b n L A" and p: "(p, m) \<in> set L"
  shows "ab_wf b n (remove1 (p, m) L) (ab_deallocate p m A)"
proof -
  let ?A = "A\<lparr>ab_used := ab_used A - m, ab_count := add64 (ab_count A) 1\<rparr>" and ?L = "remove1 (p, m) L"
  have P: "p mod 16 = 0" "m mod 16 = 0" "0 < m" using ab_wf_region [OF wf, of p m] p by auto
  have sub: "set ?L \<subseteq> set L" by (rule set_remove1_subset)
  have us: "ab_used A - m = bytes ?L" using wf bytes_remove1 [OF p] by (simp add: ab_wf_def)
  have l8: "length (ab_small ?A) = 8" using wf by (simp add: ab_wf_def)
  show ?thesis
  proof (cases "m \<le> 128")
    case True
    let ?B = "ab_push (m div 16 - 1) p ?A"
    have "cover (ab_regions ?B @ ?L) v = cover (ab_regions A @ L) v" for v
      using cover_push [OF l8 P(2,3) True, of p v] cover_remove1 [OF p, of v] by (simp add: ab_regions_def)
    then have "tiled b n (ab_regions ?B @ ?L)" using wf unfolding ab_wf_def tiled_def by metis
    moreover have "\<forall>x \<in> set (ab_regions ?B @ ?L). region_ok x"
      using wf p sub set_push [OF l8 P(2,3) True, of p] by (auto simp: ab_wf_def ab_regions_def)
    ultimately show ?thesis using wf us l8 True by (simp add: ab_deallocate_def ab_wf_def)
  next
    case False
    obtain xs ys where t: "ab_tree A = xs @ ys" "all_below p xs" "all_above p ys"
      "\<forall>x \<in> set xs. fst x + snd x \<le> p" "\<forall>y \<in> set ys. p + m \<le> fst y"
      using live_split [OF wf p] by blast
    let ?T = "merge_prev p (merge_next p (xs @ (p, m) # ys))"
    let ?B = "ab_merge (merge_prev p) (ab_merge (merge_next p) (ab_insert p m ?A))"
    have B: "ab_tree ?B = ?T" "ab_small ?B = ab_small A" "ab_used ?B = ab_used A - m"
      using t insort_middle [OF t(2,3), of m] by (simp_all add: ab_merge_def ab_insert_def)
    have pos: "\<forall>x \<in> set (xs @ ys). region_ok x \<and> 48 \<le> snd x" using wf t(1) by (auto simp: ab_wf_def ab_regions_def)
    then have T: "\<forall>x \<in> set ?T. region_ok x \<and> 48 \<le> snd x"
      using P False by (intro region_merge) (auto simp: region_ok_def)
    have "gapped ?T"
      using gapped_appendD [of xs ys] ab_wf_gapped [OF wf] t P(3) pos
      by (intro gapped_merge) (auto simp: region_ok_def)
    moreover have "\<forall>x \<in> set ?T. 0 < snd x" using T by (auto simp: region_ok_def)
    ultimately have "sorted_wrt (<) (map fst ?T)" "coalesced ?T" using gapped_sorted by blast+
    moreover have "tiled b n (?T @ class_regions 0 (ab_small A) @ ?L)"
      using wf cover_remove1 [OF p] t(1) by (simp add: ab_wf_def tiled_def ab_regions_def ac_simps)
    ultimately show ?thesis
      using False B T us wf sub unfolding ab_wf_def ab_deallocate_def ab_regions_def Let_def
      by (auto simp: ab_regions_def)
  qed
qed
end
