(* ===== verification/Free_List_Refine.thy ===== *)
theory Free_List_Refine
  imports Free_List_Spec
begin

text \<open>
  The pointer program refines the abstract allocator: the relation \<open>fl_refines\<close> between states, and
  for the constructor, \<open>allocate\<close> and \<open>deallocate\<close> the proof that the call returns and that its
  result and final state are those of the abstract operation.
\<close>

subsection \<open>The relation\<close>

fun chain :: "(addr \<rightharpoonup> addr) \<Rightarrow> addr \<Rightarrow> addr list \<Rightarrow> bool" where
  "chain nx p [] = (p = 0)"
| "chain nx p (a # as) = (p = a \<and> a \<noteq> 0 \<and> (\<exists>q. nx a = Some q \<and> chain nx q as))"

definition fl_refines :: "addr \<Rightarrow> size_t \<Rightarrow> fl_state \<Rightarrow> ab_state \<Rightarrow> bool" where
  "fl_refines b n s A \<longleftrightarrow>
     fl_base s = b \<and> fl_size s = n \<and> (fl_nil s < b \<or> b + n \<le> fl_nil s) \<and>
     fl_tree s (ab_tree A) \<and> length (fl_lists s) = 8 \<and>
     (\<forall>i < 8. chain (fl_next s) (fl_lists s ! i) (ab_small A ! i)) \<and>
     fl_allocated s = ab_used A \<and> fl_blocks s = ab_count A"

lemmas [fl_consts] = kMinBlockSize_def kSmallBlockQuantum_def kMaxSmallBlockSize_def kNumSmallClasses_def

lemma chain_upd [simp]: "p \<notin> set as \<Longrightarrow> chain (nx(p := v)) q as = chain nx q as"
  by (induction as arbitrary: q) auto

lemma tree_at_fields [simp]:
  "tree_at (s\<lparr>fl_next := nx\<rparr>) T = tree_at s T" "tree_at (s\<lparr>fl_lists := ls\<rparr>) T = tree_at s T"
  "tree_at (s\<lparr>fl_allocated := u\<rparr>) T = tree_at s T" "tree_at (s\<lparr>fl_blocks := c\<rparr>) T = tree_at s T"
  by (simp_all add: tree_at_def)

lemma fl_tree_fields [simp]:
  "fl_tree (s\<lparr>fl_next := nx\<rparr>) bs = fl_tree s bs" "fl_tree (s\<lparr>fl_lists := ls\<rparr>) bs = fl_tree s bs"
  "fl_tree (s\<lparr>fl_allocated := u\<rparr>) bs = fl_tree s bs" "fl_tree (s\<lparr>fl_blocks := c\<rparr>) bs = fl_tree s bs"
  by (simp_all add: fl_tree_def)

lemma fl_tree_upd:
  assumes "fl_tree s bs" "p \<notin> fst ` set bs" "p \<noteq> fl_nil s"
  shows "fl_tree (s\<lparr>fl_mem := (fl_mem s)(p := v)\<rparr>) bs"
proof -
  obtain T where T: "tree_at s T" "rbt_ok T" "blocks T = bs" using assms(1) by (auto simp: fl_tree_def)
  then have "p \<notin> set (addrs T)" using assms(2) by (simp add: addrs_blocks)
  then have "tree_at (s\<lparr>fl_mem := (fl_mem s)(p := v)\<rparr>) T" using T(1) assms(3) by (simp add: tree_at_def)
  with T show ?thesis by (auto simp: fl_tree_def)
qed

lemma refines_frame:
  assumes "fl_refines b n s A" "fl_frame S s s'" "fl_tree s' bs"
  shows "fl_refines b n s' (A\<lparr>ab_tree := bs\<rparr>)"
  using assms by (simp add: fl_refines_def fl_frame_def)

lemma refines_counters:
  assumes "fl_refines b n s A"
  shows "fl_refines b n (s\<lparr>fl_blocks := c\<rparr>) (A\<lparr>ab_count := c\<rparr>)"
    "fl_refines b n (s\<lparr>fl_allocated := u\<rparr>) (A\<lparr>ab_used := u\<rparr>)"
  using assms by (simp_all add: fl_refines_def)

subsection \<open>The nodes an operation leaves alone\<close>

text \<open>
  The bytes \<open>U\<close> are untouched when no node at an address of \<open>U\<close> changes and no node that is new or changed
  overlaps them; a \<open>FreeBlock\<close> has 48 bytes, a \<open>FreeNode\<close> 8.
\<close>

definition untouched :: "addr set \<Rightarrow> fl_state \<Rightarrow> fl_state \<Rightarrow> bool" where
  "untouched U s s' \<longleftrightarrow> (\<forall>q \<in> U. fl_mem s' q = fl_mem s q \<and> fl_next s' q = fl_next s q) \<and>
     (\<forall>q. fl_mem s' q \<noteq> fl_mem s q \<longrightarrow> fl_mem s' q = None \<or> {q..<q + 48} \<inter> U = {}) \<and>
     (\<forall>q. fl_next s' q \<noteq> fl_next s q \<longrightarrow> fl_next s' q = None \<or> {q..<q + 8} \<inter> U = {})"

definition nodes :: "addr set \<Rightarrow> addr set" where
  "nodes P = (\<Union>p \<in> P. {p..<p + 48})"

lemma nodes_simps [simp]: "nodes {} = {}" "nodes (insert p P) = {p..<p + 48} \<union> nodes P"
  by (auto simp: nodes_def)

lemma nodes_mono: "P \<subseteq> Q \<Longrightarrow> nodes P \<subseteq> nodes Q"
  by (auto simp: nodes_def)

lemma nodes_self: "p \<in> P \<Longrightarrow> p \<in> nodes P"
  by (force simp: nodes_def)

lemma untouched_refl [simp]: "untouched U s s"
  by (simp add: untouched_def)

lemma untouched_mono: "untouched U s s' \<Longrightarrow> W \<subseteq> U \<Longrightarrow> untouched W s s'"
  unfolding untouched_def by blast

lemma untouched_step:
  assumes "untouched U s s1" "untouched U s1 s2"
  shows "untouched U s s2"
  unfolding untouched_def
proof (intro conjI allI impI)
  show "\<forall>q \<in> U. fl_mem s2 q = fl_mem s q \<and> fl_next s2 q = fl_next s q"
    using assms by (simp add: untouched_def)
  show "fl_mem s2 q = None \<or> {q..<q + 48} \<inter> U = {}" if "fl_mem s2 q \<noteq> fl_mem s q" for q
    using assms that unfolding untouched_def by metis
  show "fl_next s2 q = None \<or> {q..<q + 8} \<inter> U = {}" if "fl_next s2 q \<noteq> fl_next s q" for q
    using assms that unfolding untouched_def by metis
qed

lemma untouched_trans: "untouched U s s1 \<Longrightarrow> untouched V s1 s2 \<Longrightarrow> W \<subseteq> U \<Longrightarrow> W \<subseteq> V \<Longrightarrow> untouched W s s2"
  using untouched_step untouched_mono by metis

lemma untouched_from_mem:
  assumes "untouched U (s\<lparr>fl_mem := (fl_mem s)(p := v)\<rparr>) s'" "W \<subseteq> U" "p \<notin> W" "fl_mem s' p = None"
  shows "untouched W s s'"
proof -
  have "untouched W (s\<lparr>fl_mem := (fl_mem s)(p := v)\<rparr>) s'" using untouched_mono [OF assms(1,2)] .
  then have u: "\<forall>q \<in> W. fl_mem s' q = ((fl_mem s)(p := v)) q \<and> fl_next s' q = fl_next s q"
    "\<And>q. fl_mem s' q \<noteq> ((fl_mem s)(p := v)) q \<Longrightarrow> fl_mem s' q = None \<or> {q..<q + 48} \<inter> W = {}"
    "\<forall>q. fl_next s' q \<noteq> fl_next s q \<longrightarrow> fl_next s' q = None \<or> {q..<q + 8} \<inter> W = {}"
    unfolding untouched_def by simp_all
  have "fl_mem s' q = None \<or> {q..<q + 48} \<inter> W = {}" if "fl_mem s' q \<noteq> fl_mem s q" for q
    using u(2) [of q] that assms(4) by (cases "q = p") simp_all
  moreover have "fl_mem s' q = fl_mem s q \<and> fl_next s' q = fl_next s q" if "q \<in> W" for q
    using u(1) that assms(3) by auto
  ultimately show ?thesis using u(3) unfolding untouched_def by blast
qed

lemma untouched_frame:
  assumes "fl_frame S s s'"
  shows "untouched (- nodes S) s s'"
proof -
  have "fl_mem s' q = fl_mem s q" if "q \<notin> S" for q using assms that by (simp add: fl_frame_def)
  moreover have "fl_next s' = fl_next s" using assms by (simp add: fl_frame_def)
  moreover have "{q..<q + 48} \<inter> - nodes S = {}" if "q \<in> S" for q using that by (auto simp: nodes_def)
  ultimately show ?thesis unfolding untouched_def using nodes_self by (metis ComplD)
qed

lemma untouched_upd [simp]:
  "untouched U s (s'\<lparr>fl_lists := ls\<rparr>) = untouched U s s'" "untouched U s (s'\<lparr>fl_blocks := c\<rparr>) = untouched U s s'"
  "untouched U s (s'\<lparr>fl_allocated := u\<rparr>) = untouched U s s'"
  "untouched U (s\<lparr>fl_blocks := c\<rparr>) s' = untouched U s s'"
  "untouched U (s\<lparr>fl_allocated := u\<rparr>) s' = untouched U s s'"
  by (simp_all add: untouched_def)

lemma untouched_overlap:
  assumes "untouched {p..<p + m} s s'" "0 < m"
  shows "fl_mem s' q = Some blk \<Longrightarrow> fl_mem s q \<noteq> Some blk \<Longrightarrow> q + 48 \<le> p \<or> p + m \<le> q"
    "fl_next s' q = Some nx \<Longrightarrow> fl_next s q \<noteq> Some nx \<Longrightarrow> q + 8 \<le> p \<or> p + m \<le> q"
proof -
  have disj: "q + k \<le> p \<or> p + m \<le> q" if "{q..<q + k} \<inter> {p..<p + m} = {}" "0 < k" for k :: nat
    using that assms(2) by (auto simp: disjoint_iff)
  show "fl_mem s' q = Some blk \<Longrightarrow> fl_mem s q \<noteq> Some blk \<Longrightarrow> q + 48 \<le> p \<or> p + m \<le> q"
    "fl_next s' q = Some nx \<Longrightarrow> fl_next s q \<noteq> Some nx \<Longrightarrow> q + 8 \<le> p \<or> p + m \<le> q"
    using assms(1) disj unfolding untouched_def by (metis option.distinct(1) zero_less_numeral)+
qed

text \<open>The bytes of a list of regions, and with them all bytes outside of the arena.\<close>

definition held :: "(addr \<times> size_t) list \<Rightarrow> addr set" where
  "held L = {q. \<exists>x \<in> set L. fst x \<le> q \<and> q < fst x + snd x}"

definition spared :: "addr \<Rightarrow> size_t \<Rightarrow> (addr \<times> size_t) list \<Rightarrow> addr set" where
  "spared b n L = held L \<union> - {b..<b + n}"

subsection \<open>Putting a region into the free lists\<close>

definition fresh :: "addr \<Rightarrow> fl_state \<Rightarrow> ab_state \<Rightarrow> bool" where
  "fresh p s A \<longleftrightarrow> p \<noteq> 0 \<and> p mod 16 = 0 \<and> p \<noteq> fl_nil s \<and> length (ab_small A) = 8 \<and>
     p \<notin> fst ` set (ab_regions A)"

lemma freshD:
  assumes "fresh p s A"
  shows "p \<noteq> 0" "p mod 16 = 0" "p \<noteq> fl_nil s" "length (ab_small A) = 8" "p \<notin> fst ` set (ab_tree A)"
    "i < 8 \<Longrightarrow> p \<notin> set (ab_small A ! i)"
proof -
  show "p \<noteq> 0" "p mod 16 = 0" "p \<noteq> fl_nil s" "length (ab_small A) = 8" "p \<notin> fst ` set (ab_tree A)"
    using assms by (auto simp: fresh_def ab_regions_def)
  assume "i < 8"
  then show "p \<notin> set (ab_small A ! i)"
    using assms class_set [of "(p, 16 * Suc i)" 0 "ab_small A"] by (force simp: fresh_def ab_regions_def image_iff)
qed

lemma push_small_refines:
  assumes R: "fl_refines b n s A" and p: "fresh p s A" and i: "i < 8"
  shows "\<exists>s'. push_small s i p = Some s' \<and> fl_refines b n s' (ab_push i p A) \<and> fl_nil s' = fl_nil s \<and>
    fl_mem s' p = None \<and> untouched (- {p..<p + 8}) s s'"
proof -
  note F = freshD [OF p]
  let ?s = "s\<lparr>fl_mem := (fl_mem s)(p := None)\<rparr>"
  have "fl_tree ?s (ab_tree A)" using R F by (intro fl_tree_upd) (auto simp: fl_refines_def)
  then have "fl_tree (?s\<lparr>fl_next := (fl_next s)(p \<mapsto> fl_lists s ! i), fl_lists := (fl_lists s)[i := p]\<rparr>) (ab_tree A)"
    by simp
  moreover have "chain ((fl_next s)(p \<mapsto> fl_lists s ! i)) ((fl_lists s)[i := p] ! j)
      ((ab_small A)[i := p # ab_small A ! i] ! j)" if "j < 8" for j
    using R F i that by (cases "j = i") (auto simp: fl_refines_def)
  ultimately show ?thesis
    using R i by (auto simp: push_small_def fl_refines_def ab_push_def untouched_def)
qed

lemma insert_refines:
  assumes R: "fl_refines b n s A" and p: "fresh p s A" and m: "0 < bsize blk" "bsize blk \<le> 2 ^ 30"
  shows "\<exists>s'. insert_node (s\<lparr>fl_mem := (fl_mem s)(p \<mapsto> blk)\<rparr>) p = Some s' \<and>
    fl_refines b n s' (ab_insert p (bsize blk) A) \<and> fl_nil s' = fl_nil s \<and>
    untouched (- nodes (insert p (fst ` set (ab_tree A)))) s s'"
proof -
  note F = freshD [OF p]
  let ?s = "s\<lparr>fl_mem := (fl_mem s)(p \<mapsto> blk)\<rparr>"
  have "fl_tree ?s (ab_tree A)" using R F by (intro fl_tree_upd) (auto simp: fl_refines_def)
  moreover have "rd bsize ?s p = Some (bsize blk)" by (simp add: rd_def)
  moreover have "tree_admits ?s p (bsize blk)" using F m by (simp add: tree_admits_def)
  ultimately obtain s' where s': "insert_node ?s p = Some s'" "fl_tree s' (insort_key fst (p, bsize blk) (ab_tree A))"
    "fl_frame (insert p (fst ` set (ab_tree A))) ?s s'"
    using tree.ins_law F(5) by blast
  moreover have "fl_refines b n ?s A" using R \<open>fl_tree ?s (ab_tree A)\<close> by (simp add: fl_refines_def)
  moreover have "untouched (- nodes (insert p (fst ` set (ab_tree A)))) s s'"
  proof -
    have "untouched (- nodes (insert p (fst ` set (ab_tree A)))) s ?s" by (auto simp: untouched_def)
    then show ?thesis using untouched_frame [OF s'(3)] untouched_step by blast
  qed
  ultimately show ?thesis
    using refines_frame [of b n ?s A _ s'] by (auto simp: ab_insert_def fl_frame_def)
qed

lemma refines_forget_next:
  assumes "fl_refines b n s A" "fresh p s A"
  shows "fl_refines b n (s\<lparr>fl_next := (fl_next s)(p := None)\<rparr>) A"
  using assms(1) freshD(6) [OF assms(2)] by (simp add: fl_refines_def)

lemma new_block_insert_refines:
  assumes R: "fl_refines b n s A" and p: "fresh p s A" and m: "0 < bsize blk" "bsize blk \<le> 2 ^ 30"
  shows "\<exists>s'. insert_node (new_block s p blk) p = Some s' \<and>
    fl_refines b n s' (ab_insert p (bsize blk) A) \<and> fl_nil s' = fl_nil s \<and>
    untouched (- nodes (insert p (fst ` set (ab_tree A)))) s s'"
proof -
  let ?s = "s\<lparr>fl_next := (fl_next s)(p := None)\<rparr>"
  have "new_block s p blk = ?s\<lparr>fl_mem := (fl_mem ?s)(p \<mapsto> blk)\<rparr>" by (simp add: new_block_def)
  moreover have "fresh p ?s A" using p by (simp add: fresh_def)
  moreover obtain s' where "insert_node (?s\<lparr>fl_mem := (fl_mem ?s)(p \<mapsto> blk)\<rparr>) p = Some s'"
    "fl_refines b n s' (ab_insert p (bsize blk) A)" "fl_nil s' = fl_nil ?s"
    "untouched (- nodes (insert p (fst ` set (ab_tree A)))) ?s s'"
    using insert_refines [OF refines_forget_next [OF R p] calculation(2) m] by blast
  moreover have "untouched (- nodes (insert p (fst ` set (ab_tree A)))) s ?s" by (auto simp: untouched_def)
  with calculation(6) have "untouched (- nodes (insert p (fst ` set (ab_tree A)))) s s'" using untouched_step by blast
  ultimately show ?thesis by simp
qed

lemma release_padding_refines:
  assumes R: "fl_refines b n s A" and p: "fresh p s A" and q: "q mod 16 = 0" "q \<le> 2 ^ 30"
    and mem: "fl_mem s p \<noteq> None"
  shows "\<exists>s'. release_padding s p q = Some s' \<and> fl_refines b n s' (ab_padding p q A) \<and> fl_nil s' = fl_nil s \<and>
    untouched (- ({p..<p + q} \<union> nodes (fst ` set (ab_tree A)))) s s'"
proof -
  obtain blk where blk: "fl_mem s p = Some blk" using mem by blast
  note F = freshD [OF p]
  consider "q < 16" | "16 \<le> q" "q \<le> 128" | "128 < q" by linarith
  then show ?thesis
  proof cases
    case 1
    then show ?thesis using R by (simp add: release_padding_def ab_padding_def fl_consts)
  next
    case 2
    let ?s = "s\<lparr>fl_mem := (fl_mem s)(p \<mapsto> blk\<lparr>bsize := q\<rparr>)\<rparr>"
    have "fl_refines b n ?s A" "fresh p ?s A"
      using R p fl_tree_upd [of s "ab_tree A" p] F by (simp_all add: fl_refines_def fresh_def)
    moreover have "q div 16 - 1 < 8" using class_of_bounds [of q] q 2 by (simp add: class_of_def)
    ultimately obtain s' where s': "push_small ?s (q div 16 - 1) p = Some s'" "fl_refines b n s' (ab_push (q div 16 - 1) p A)"
      "fl_nil s' = fl_nil s" "fl_mem s' p = None" "untouched (- {p..<p + 8}) ?s s'"
      using push_small_refines [of b n ?s A p "q div 16 - 1"] by auto
    have "untouched (- ({p..<p + q} \<union> nodes (fst ` set (ab_tree A)))) s s'"
      by (rule untouched_from_mem [OF s'(5) _ _ s'(4)]) (use 2 in auto)
    then show ?thesis
      using s'(1-3) 2 blk by (auto simp: release_padding_def ab_padding_def fl_consts heap_exec cong: bind_weak)
  next
    case 3
    let ?blk = "\<lparr>bsize = q, parent = fl_nil s, left = fl_nil s, right = fl_nil s, subtree_max = q, color = Red\<rparr>"
    have "fl_nil s \<noteq> 0" using R by (auto simp: fl_refines_def fl_tree_def tree_at_def)
    moreover have be: "blk\<lparr>bsize := q, parent := fl_nil s, left := fl_nil s, right := fl_nil s,
        subtree_max := q, color := Red\<rparr> = ?blk" by simp
    moreover obtain s' where s': "insert_node (s\<lparr>fl_mem := (fl_mem s)(p \<mapsto> ?blk)\<rparr>) p = Some s'" "fl_refines b n s' (ab_insert p q A)"
      "fl_nil s' = fl_nil s" "untouched (- nodes (insert p (fst ` set (ab_tree A)))) s s'"
      using insert_refines [OF R p, of ?blk] 3 q(2) by auto
    moreover have "untouched (- ({p..<p + q} \<union> nodes (fst ` set (ab_tree A)))) s s'"
      by (rule untouched_mono [OF s'(4)]) (use 3 in auto)
    ultimately show ?thesis
      using 3 blk by (auto simp: be release_padding_def ab_padding_def fl_consts heap_exec cong: bind_weak)
  qed
qed

lemma release_remainder_refines:
  assumes R: "fl_refines b n s A" and p: "0 < r \<Longrightarrow> fresh p s A" and r: "r mod 16 = 0" "r \<le> 2 ^ 30"
  shows "\<exists>s'. release_remainder s p r = Some (s', r < 16) \<and> fl_refines b n s' (ab_remainder p r A) \<and>
    fl_nil s' = fl_nil s \<and> untouched (- ({p..<p + r} \<union> nodes (fst ` set (ab_tree A)))) s s'"
proof -
  consider "r < 16" | "16 \<le> r" "r < 48" | "48 \<le> r" by linarith
  then show ?thesis
  proof cases
    case 1
    then show ?thesis using R by (simp add: release_remainder_def ab_remainder_def fl_consts)
  next
    case 2
    have "r div 16 - 1 < 8" using class_of_bounds [of r] r 2 by (simp add: class_of_def)
    then obtain s' where s': "push_small s (r div 16 - 1) p = Some s'" "fl_refines b n s' (ab_push (r div 16 - 1) p A)"
      "fl_nil s' = fl_nil s" "untouched (- {p..<p + 8}) s s'" using push_small_refines [OF R p] 2 by auto
    have "untouched (- ({p..<p + r} \<union> nodes (fst ` set (ab_tree A)))) s s'" by (rule untouched_mono [OF s'(4)]) (use 2 in auto)
    then show ?thesis using s'(1-3) 2 by (auto simp: release_remainder_def ab_remainder_def fl_consts)
  next
    case 3
    let ?blk = "\<lparr>bsize = r, parent = fl_nil s, left = fl_nil s, right = fl_nil s, subtree_max = r, color = Red\<rparr>"
    obtain s' where s': "insert_node (new_block s p ?blk) p = Some s'" "fl_refines b n s' (ab_insert p r A)"
      "fl_nil s' = fl_nil s" "untouched (- nodes (insert p (fst ` set (ab_tree A)))) s s'"
      using new_block_insert_refines [OF R p, of ?blk] 3 r(2) by auto
    have "untouched (- ({p..<p + r} \<union> nodes (fst ` set (ab_tree A)))) s s'" by (rule untouched_mono [OF s'(4)]) (use 3 in auto)
    then show ?thesis using s'(1-3) 3 by (auto simp: release_remainder_def ab_remainder_def fl_consts)
  qed
qed


subsection \<open>Allocation\<close>

text \<open>No free region starts inside a block of the tree once that block is taken out.\<close>

lemma inside_fresh:
  assumes wf: "ab_wf b n L A" and R: "fl_refines b n s A" and t: "ab_tree A = xs @ (a, m) # ys"
    and v: "a \<le> v" "v < a + m" "v mod 16 = 0"
  shows "fresh v s (A\<lparr>ab_tree := xs @ ys\<rparr>)"
proof -
  have am: "b \<le> a" "a + m \<le> b + n" "0 < m" using ab_wf_region [OF wf, of a m] t by (auto simp: ab_regions_def)
  have t': "tiled b n (xs @ (a, m) # (ys @ class_regions 0 (ab_small A) @ L))"
    using wf t by (simp add: ab_wf_def ab_regions_def)
  have "v \<noteq> fst x" if x: "x \<in> set (xs @ ys @ class_regions 0 (ab_small A))" for x
  proof -
    have "0 < snd x" using ab_wf_region(3) [OF wf, of "fst x" "snd x"] x t by (auto simp: ab_regions_def)
    then have "a + m \<le> fst x \<or> fst x + snd x \<le> a"
      using tiled_disjoint [OF t', of "fst x" "snd x"] x am(3) by auto
    then show ?thesis using v \<open>0 < snd x\<close> by linarith
  qed
  then have "v \<notin> fst ` set (ab_regions (A\<lparr>ab_tree := xs @ ys\<rparr>))" by (auto simp: ab_regions_def)
  moreover have "v \<noteq> fl_nil s" "v \<noteq> 0"
    using R am v wf by (auto simp: fl_refines_def ab_wf_def arena_ok_def)
  ultimately show ?thesis using wf v by (simp add: fresh_def ab_wf_def)
qed

lemma spared_not_in_tree:
  assumes wf: "ab_wf b n L A"
  shows "(a, m) \<in> set (ab_tree A) \<Longrightarrow> {a..<a + m} \<inter> spared b n L = {}" "spared b n L \<inter> nodes (fst ` set (ab_tree A)) = {}"
proof -
  have region: "{a..<a + m} \<inter> spared b n L = {}" if "(a, m) \<in> set (ab_tree A)" for a m
  proof -
    have y: "(a, m) \<in> set (ab_regions A)" using that by (simp add: ab_regions_def)
    have "fst x + snd x \<le> a \<or> a + m \<le> fst x" if "x \<in> set L" for x
      using live_disjoint [OF wf, of "fst x" "snd x" a m] that y by auto
    moreover have "b \<le> a" "a + m \<le> b + n" using ab_wf_region(4,5) [OF wf, of a m] y by auto
    ultimately show ?thesis by (fastforce simp: spared_def held_def)
  qed
  then show "(a, m) \<in> set (ab_tree A) \<Longrightarrow> {a..<a + m} \<inter> spared b n L = {}" .
  have "{fst x..<fst x + 48} \<inter> spared b n L = {}" if x: "x \<in> set (ab_tree A)" for x
  proof -
    have "48 \<le> snd x" using wf x by (simp add: ab_wf_def)
    then have "{fst x..<fst x + 48} \<subseteq> {fst x..<fst x + snd x}" by auto
    then show ?thesis using region [of "fst x" "snd x"] x by (metis (no_types) disjoint_iff prod.collapse subsetD)
  qed
  then show "spared b n L \<inter> nodes (fst ` set (ab_tree A)) = {}" unfolding nodes_def by blast
qed

text \<open>
  The part of \<open>allocate_carve\<close> that changes the free lists: the block leaves the tree, the gap before the aligned address
  and what remains behind the region go back.
\<close>

lemma carve_released:
  assumes wf: "ab_wf b n L A" and R: "fl_refines b n s A" and t: "ab_tree A = xs @ (a, m) # ys"
    and h: "(h :: addr) = a + q" "q mod 16 = 0" "m = q + (isz + r)" and isz: "isz mod 16 = 0" "0 < isz"
  defines "A1 \<equiv> ab_padding a q (A\<lparr>ab_tree := xs @ ys\<rparr>)"
  shows "\<exists>s0 s1 s2. delete_node s a = Some s0 \<and> release_padding s0 a q = Some s1 \<and>
    release_remainder s1 (h + isz) r = Some (s2, r < 16) \<and> fl_refines b n s2 (ab_remainder (h + isz) r A1) \<and> untouched (spared b n L) s s2"
proof -
  let ?A0 = "A\<lparr>ab_tree := xs @ ys\<rparr>"
  have am: "a mod 16 = 0" "m mod 16 = 0" "0 < m" "b \<le> a" "a + m \<le> b + n" "m \<le> n"
    using ab_wf_region [OF wf, of a m] t by (auto simp: ab_regions_def)
  have ar: "n \<le> 2 ^ 30" "b + n < 2 ^ 64" using wf by (auto simp: ab_wf_def arena_ok_def)
  have r16: "r mod 16 = 0" using am(2) h(2,3) isz(1) by presburger
  obtain s0 where 0: "delete_node s a = Some s0" "fl_tree s0 (xs @ ys)" "fl_frame (fst ` set (xs @ (a, m) # ys)) s s0"
     "fl_mem s0 a \<noteq> None"
    using delete_keeps_node R t by (metis fl_refines_def)
  have R0: "fl_refines b n s0 ?A0" and nl0: "fl_nil s0 = fl_nil s"
    using refines_frame [OF R 0(3,2)] 0(3) by (auto simp: fl_frame_def)
  have "fresh a s0 ?A0" using inside_fresh [OF wf R t, of a] am nl0 by (simp add: fresh_def)
  then obtain s1 where 1: "release_padding s0 a q = Some s1" "fl_refines b n s1 A1" "fl_nil s1 = fl_nil s"
     "untouched (- ({a..<a + q} \<union> nodes (fst ` set (xs @ ys)))) s0 s1"
    using release_padding_refines [OF R0 _ h(2) _ 0(4)] h(3) am ar nl0 by (auto simp: A1_def)
  have "fresh (h + isz) s1 A1" if "0 < r"
  proof -
    have "(h + isz) mod 16 = 0" using am(1) h(1,2) isz(1) by presburger
    then have "fresh (h + isz) s ?A0" using inside_fresh [OF wf R t, of "h + isz"] h that by simp
    moreover have "set (ab_regions A1) \<subseteq> insert (a, q) (set (ab_regions ?A0))"
      using set_padding [of ?A0 q a] h(2) wf by (auto simp: ab_wf_def A1_def)
    moreover have "h + isz \<noteq> a" using h(1) isz(2) by simp
    ultimately show ?thesis using 1(3) by (fastforce simp: fresh_def A1_def)
  qed
  then obtain s2 where 2: "release_remainder s1 (h + isz) r = Some (s2, r < 16)" "fl_refines b n s2 (ab_remainder (h + isz) r A1)"
     "untouched (- ({h + isz..<h + isz + r} \<union> nodes (fst ` set (ab_tree A1)))) s1 s2"
    using release_remainder_refines [OF 1(2) _ r16] h(3) am ar by auto
  have "set (ab_tree A1) \<subseteq> insert (a, q) (set (xs @ ys))"
    by (auto simp: A1_def ab_padding_def ab_insert_def ab_push_def set_insort_key)
  then have "fst ` set (ab_tree A1) \<subseteq> fst ` set (ab_tree A)" "fst ` set (xs @ ys) \<subseteq> fst ` set (ab_tree A)" unfolding t by fastforce+
  note X = this [THEN nodes_mono]
  have am': "(a, m) \<in> set (ab_tree A)" using t by simp
  have "{h + isz..<h + isz + r} \<subseteq> {a..<a + m}" "{a..<a + q} \<subseteq> {a..<a + m}" using h by auto
  then have "spared b n L \<subseteq> - ({h + isz..<h + isz + r} \<union> nodes (fst ` set (ab_tree A1)))"
    "spared b n L \<subseteq> - ({a..<a + q} \<union> nodes (fst ` set (xs @ ys)))" "spared b n L \<subseteq> - nodes (fst ` set (xs @ (a, m) # ys))"
    using spared_not_in_tree(1) [OF wf am'] spared_not_in_tree(2) [OF wf] X unfolding t [symmetric] by blast+
  then have "untouched (spared b n L) s s2"
    using untouched_trans [OF untouched_trans [OF untouched_frame [OF 0(3)] 1(4)] 2(3)] by blast
  then show ?thesis using 0(1) 1(1) 2(1,2) by blast
qed

lemma allocate_carve_refines:
  assumes wf: "ab_wf b n L A" and R: "fl_refines b n s A" and t: "ab_tree A = xs @ (a, m) # ys"
    and h: "a \<le> h" "h mod 16 = 0" "h - a + isz \<le> m" and isz: "isz mod 16 = 0" "0 < isz"
  shows "\<exists>s'. allocate_carve s isz a h = Some (Inr \<lparr>res_ptr = h, res_offset = h - b, res_actual_size = isz\<rparr>, s') \<and>
    fl_refines b n s' (ab_carve isz h a m A) \<and> untouched (spared b n L) s s'"
proof -
  define q where "q = h - a"
  define r where "r = m - q - isz"
  have am: "a mod 16 = 0" "m mod 16 = 0" "b \<le> a" "a + m \<le> b + n" "m \<le> n"
    using ab_wf_region [OF wf, of a m] t by (auto simp: ab_regions_def)
  have ar: "n \<le> 2 ^ 30" "b + n < 2 ^ 64" using wf by (auto simp: ab_wf_def arena_ok_def)
  have q16: "q mod 16 = 0" using am h unfolding q_def by (metis dvd_diff_nat mod_0_imp_dvd dvd_imp_mod_0)
  then have r16: "r mod 16 = 0" using am isz unfolding r_def by (metis dvd_diff_nat mod_0_imp_dvd dvd_imp_mod_0)
  have sum: "m = q + (isz + r)" "h = a + q" using h by (auto simp: q_def r_def)
  have bs: "rd bsize s a = Some m" using tree.holds_size R t by (auto simp: fl_refines_def)
  let ?A2 = "ab_remainder (h + isz) r (ab_padding a q (A\<lparr>ab_tree := xs @ ys\<rparr>))"
  obtain s0 s1 s2 where run: "delete_node s a = Some s0" "release_padding s0 a q = Some s1"
    "release_remainder s1 (h + isz) r = Some (s2, r < 16)" and R2: "fl_refines b n s2 ?A2" and un: "untouched (spared b n L) s s2"
    using carve_released [OF wf R t sum(2) q16 sum(1) isz] by blast
  let ?c = "if r < 16 then sub64 (ab_count ?A2) 1 else ab_count ?A2"
  let ?A3 = "?A2\<lparr>ab_count := ?c, ab_used := ab_used ?A2 + isz\<rparr>"
  let ?s3 = "s2\<lparr>fl_blocks := ?c, fl_allocated := ab_used ?A2 + isz\<rparr>"
  have R3: "fl_refines b n ?s3 ?A3" using refines_counters(2) [OF refines_counters(1) [OF R2]] by simp
  have C: "ab_carve isz h a m A = ?A3"
    using filter_split [of xs a m ys] wf t by (simp add: ab_wf_def ab_carve_def q_def r_def Let_def)
  have wf3: "ab_wf b n ((h, isz) # L) ?A3" using ab_carve_wf [OF wf t h isz] C by simp
  have ver: "verify_tree ?s3 (fl_root s2) = Some ()"
    using fl_tree_verify [of ?s3 "ab_tree ?A3"] R3 wf3 by (auto simp: fl_refines_def ab_wf_def ab_regions_def region_ok_def)
  have "bytes ((h, isz) # L) \<le> n"
    using tiled_bytes [of b n "ab_regions ?A3 @ (h, isz) # L"] wf3 by (auto simp: ab_wf_def region_ok_def bytes_def)
  then have u: "add64 (fl_allocated s2) isz = ab_used ?A2 + isz" "r < 16 \<Longrightarrow> r = 0"
    using R2 wf3 ar r16 by (auto simp: fl_refines_def ab_wf_def)
  have o: "sub64 h b = h - b" "sub64 (sub64 m q) isz = r" "fl_base s2 = b" "ab_count ?A2 = fl_blocks s2" "add64 isz 0 = isz"
    using am sum ar R2 by (auto simp: fl_refines_def)
  have "allocate_carve s isz a h = Some (Inr \<lparr>res_ptr = h, res_offset = h - b, res_actual_size = isz\<rparr>, ?s3)"
    using bs run ver u o
    by (cases "r < 16"; simp add: allocate_carve_def q_def [symmetric] Let_def cong: bind_weak)
  then show ?thesis using R3 C un by auto
qed

lemma find_skip: "(\<And>u. u \<in> set us \<Longrightarrow> \<not> P u) \<Longrightarrow> find P (us @ vs) = find P vs"
  by (induction us) auto

text \<open>The search loop visits the blocks in address order and takes the first that fits.\<close>

lemma allocate_loop_at:
  assumes "fl_tree s (xs @ ys)" "has_single_bit al"
  shows "allocate_loop s isz al (max isz 48) (first_fit (fl_nil s) (max isz 48) ys) =
    (case find (ab_fits isz al) ys of None \<Rightarrow> Some (Inl OutOfMemory, s)
     | Some (a, m) \<Rightarrow> allocate_carve s isz a (align_up al a))"
  using assms
proof (induction "length ys" arbitrary: xs ys rule: less_induct)
  case less
  show ?case
  proof (cases rule: first_fit_cases [of "fl_nil s" "max isz 48" ys])
    case none
    then have "find (ab_fits isz al) ys = None" by (auto simp: find_None_iff ab_fits_def)
    then show ?thesis using none by (subst allocate_loop.simps) simp
  next
    case (some us z m vs)
    have T: "fl_tree s ((xs @ us) @ (z, m) # vs)" using less.prems some by simp
    have z: "z \<noteq> fl_nil s" "rd bsize s z = Some m"
      using tree.holds_nil [OF T] tree.holds_size [OF T] by auto
    have us: "\<not> ab_fits isz al u" if "u \<in> set us" for u using that some(3) by (auto simp: ab_fits_def)
    have IH: "allocate_loop s isz al (max isz 48) (first_fit (fl_nil s) (max isz 48) vs) =
      (case find (ab_fits isz al) vs of None \<Rightarrow> Some (Inl OutOfMemory, s)
       | Some (a, m) \<Rightarrow> allocate_carve s isz a (align_up al a))"
      using less.hyps [of vs "xs @ us @ [(z, m)]"] T some(1) less.prems(2) by simp
    have find: "find (ab_fits isz al) ys = (if ab_fits isz al (z, m) then Some (z, m) else find (ab_fits isz al) vs)"
      using us some(1) by (simp add: find_skip)
    show ?thesis
    proof (cases "ab_fits isz al (z, m)")
      case True
      then show ?thesis using some(2,4) z find less.prems(2)
        by (subst allocate_loop.simps) (auto simp: std_align_def ab_fits_def cong: bind_weak)
    next
      case False
      have "std_align al isz z m = Some None" using False some(2) less.prems(2) by (auto simp: std_align_def ab_fits_def)
      then have "allocate_loop s isz al (max isz 48) z =
          (successor s z \<bind> skip_smaller s (max isz 48)) \<bind> allocate_loop s isz al (max isz 48)"
        using z by (subst allocate_loop.simps) (simp cong: bind_weak)
      then show ?thesis using tree_search.next_candidate [OF T, of "max isz 48"] IH find False some(4) by simp
    qed
  qed
qed

lemma allocate_small_refines:
  assumes wf: "ab_wf b n L A" and R: "fl_refines b n s A"
    and i: "i < 8" "ab_small A ! i = p # ps" and isz: "isz = 16 * Suc i"
  shows "p = fl_lists s ! i" "p \<noteq> 0" "b \<le> p" "p < 2 ^ 64" "add64 (fl_allocated s) isz = ab_used A + isz"
    "fl_next s p \<noteq> None"
    "fl_refines b n (s\<lparr>fl_lists := (fl_lists s)[i := the (fl_next s p)], fl_allocated := ab_used A + isz,
         fl_blocks := c\<rparr>)
       (A\<lparr>ab_small := (ab_small A)[i := ps], ab_used := ab_used A + isz, ab_count := c\<rparr>)"
proof -
  have c: "chain (fl_next s) (fl_lists s ! i) (p # ps)" using R i by (auto simp: fl_refines_def)
  then show "p = fl_lists s ! i" "p \<noteq> 0" "fl_next s p \<noteq> None" by auto
  have l8: "length (ab_small A) = 8" using wf by (simp add: ab_wf_def)
  have mem: "(p, isz) \<in> set (ab_regions A)" using i isz l8 by (auto simp: ab_regions_def class_set)
  then have pb: "b \<le> p" "p + isz \<le> b + n" using ab_wf_region(4,5) [OF wf, of p isz] by auto
  have "b + n < 2 ^ 64" using wf by (simp add: ab_wf_def arena_ok_def)
  then show "b \<le> p" "p < 2 ^ 64" using pb by linarith+
  have wf': "ab_wf b n ((p, isz) # L) (A\<lparr>ab_small := (ab_small A)[i := ps], ab_used := ab_used A + isz, ab_count := c\<rparr>)"
    (is "ab_wf _ _ _ ?A") by (rule ab_pop_wf [OF wf i isz])
  have "bytes ((p, isz) # L) \<le> n"
    using tiled_bytes [of b n "ab_regions ?A @ (p, isz) # L"] wf' by (auto simp: ab_wf_def region_ok_def bytes_def)
  then show "add64 (fl_allocated s) isz = ab_used A + isz"
    using R wf' by (auto simp: fl_refines_def ab_wf_def arena_ok_def)
  have "chain (fl_next s) ((fl_lists s)[i := the (fl_next s p)] ! j) ((ab_small A)[i := ps] ! j)" if "j < 8" for j
    using R c i l8 that by (cases "j = i") (auto simp: fl_refines_def)
  then show "fl_refines b n (s\<lparr>fl_lists := (fl_lists s)[i := the (fl_next s p)], fl_allocated := ab_used A + isz,
      fl_blocks := c\<rparr>) ?A"
    using R by (simp add: fl_refines_def)
qed

text \<open>\<open>allocate\<close> does what \<open>ab_allocate\<close> does and touches no held region.\<close>

definition allocates_as :: "addr \<Rightarrow> size_t \<Rightarrow> (addr \<times> size_t) list \<Rightarrow> fl_state \<Rightarrow> ab_state \<Rightarrow> size_t \<Rightarrow> size_t \<Rightarrow> bool" where
  "allocates_as b n L s A sz al \<longleftrightarrow> (\<exists>s'. allocate s sz al = Some (fst (ab_allocate b sz al A), s') \<and>
    fl_refines b n s' (snd (ab_allocate b sz al A)) \<and>
    (\<forall>e. fst (ab_allocate b sz al A) = Inl e \<longrightarrow> s' = s) \<and> untouched (spared b n L) s s')"

lemma allocate_refines_small:
  assumes wf: "ab_wf b n L A" and R: "fl_refines b n s A" and sz: "sz \<le> 2 ^ 64 - 16"
    and small: "internal_size_of sz \<le> 128" "ab_small A ! (internal_size_of sz div 16 - 1) = p # ps"
  shows "allocates_as b n L s A sz al"
proof -
  define isz where "isz = internal_size_of sz"
  define i where "i = isz div 16 - 1"
  note I = internal_size_bounds [OF sz, folded isz_def]
  have p: "ab_small A ! i = p # ps" "isz \<le> 128" using small by (simp_all add: i_def isz_def)
  have c: "i < 8" "isz = 16 * Suc i" using class_of_bounds [of isz] I(1,2) p(2) by (auto simp: i_def class_of_def)
  note S = allocate_small_refines(1-6) [OF wf R c(1) p(1) c(2)]
    allocate_small_refines(7) [OF wf R c(1) p(1) c(2), where c = "sub64 (ab_count A) 1"]
  obtain nx where nx: "fl_next s p = Some nx" using S(6) by blast
  have f: "fl_base s = b" "fl_blocks s = ab_count A" "sub64 p b = p - b"
    using R S(3,4) by (simp_all add: fl_refines_def)
  have "allocate s sz al = Some (Inr \<lparr>res_ptr = p, res_offset = p - b, res_actual_size = isz\<rparr>,
      s\<lparr>fl_lists := (fl_lists s)[i := nx], fl_allocated := ab_used A + isz, fl_blocks := sub64 (ab_count A) 1\<rparr>)"
    using S(2,5) f nx p(2) c(1) I(2)
    by (simp add: allocate_def Let_def fl_consts isz_def [symmetric] i_def [symmetric] S(1) [symmetric] del: One_nat_def)
  moreover have "ab_allocate b sz al A = (Inr \<lparr>res_ptr = p, res_offset = p - b, res_actual_size = isz\<rparr>,
      A\<lparr>ab_small := (ab_small A)[i := ps], ab_used := ab_used A + isz, ab_count := sub64 (ab_count A) 1\<rparr>)"
    using p by (simp add: ab_allocate_def Let_def isz_def [symmetric] i_def [symmetric] del: One_nat_def)
  ultimately show ?thesis using S(7) nx by (simp add: allocates_as_def)
qed

lemma allocate_refines_tree:
  assumes wf: "ab_wf b n L A" and R: "fl_refines b n s A" and sz: "sz \<le> 2 ^ 64 - 16" and al: "align_ok al"
    and tree: "\<not> (internal_size_of sz \<le> 128 \<and> ab_small A ! (internal_size_of sz div 16 - 1) \<noteq> [])"
  shows "allocates_as b n L s A sz al"
proof -
  define isz where "isz = internal_size_of sz"
  define i where "i = isz div 16 - 1"
  note I = internal_size_bounds [OF sz, folded isz_def]
  have ch: "i < 8 \<Longrightarrow> chain (fl_next s) (fl_lists s ! i) (ab_small A ! i)" using R by (simp add: fl_refines_def)
  have F: "\<not> (isz \<le> 128 \<and> ab_small A ! i \<noteq> [])" using tree by (simp add: isz_def i_def)
  let ?al = "max al 16"
  have "\<not> (isz \<le> 128 \<and> 16 \<le> isz \<and> i < 8 \<and> fl_lists s ! i \<noteq> 0)"
    using F ch by (cases "ab_small A ! i") auto
  then have "allocate s sz al = find_first_fit s (max isz 48) \<bind> allocate_loop s isz ?al (max isz 48)"
    by (auto simp: allocate_def Let_def fl_consts isz_def i_def)
  also have "\<dots> = (case find (ab_fits isz ?al) (ab_tree A) of None \<Rightarrow> Some (Inl OutOfMemory, s)
     | Some (a, m) \<Rightarrow> allocate_carve s isz a (align_up ?al a))"
    using tree.fit_law [of s "ab_tree A" "max isz 48"] allocate_loop_at [of s "[]" "ab_tree A" ?al isz] align_okD [OF al] R
    by (simp add: fl_refines_def)
  finally have E: "allocate s sz al = \<dots>" .
  have AB: "ab_allocate b sz al A = (case find (ab_fits isz ?al) (ab_tree A) of None \<Rightarrow> (Inl OutOfMemory, A)
     | Some (a, m) \<Rightarrow> (Inr \<lparr>res_ptr = align_up ?al a, res_offset = align_up ?al a - b, res_actual_size = isz\<rparr>,
         ab_carve isz (align_up ?al a) a m A))"
    using F by (auto simp: ab_allocate_def Let_def isz_def [symmetric] i_def [symmetric]
        split: option.split simp del: One_nat_def)
  show ?thesis
  proof (cases "find (ab_fits isz ?al) (ab_tree A)")
    case None
    then show ?thesis using E AB R by (simp add: allocates_as_def)
  next
    case (Some x)
    obtain a m where x: "x = (a, m)" by (cases x) auto
    obtain xs ys where t: "ab_tree A = xs @ (a, m) # ys" and fit: "ab_fits isz ?al (a, m)"
      using find_split [OF Some] x by blast
    have "a mod 16 = 0" using ab_wf_region(1) [OF wf, of a m] t by (simp add: ab_regions_def)
    note U = align_up_props [OF align_okD [OF al] _ this]
    have "\<exists>s'. allocate_carve s isz a (align_up ?al a) = Some (Inr \<lparr>res_ptr = align_up ?al a,
        res_offset = align_up ?al a - b, res_actual_size = isz\<rparr>, s') \<and>
      fl_refines b n s' (ab_carve isz (align_up ?al a) a m A) \<and> untouched (spared b n L) s s'"
      by (rule allocate_carve_refines [OF wf R t]) (use U fit I in \<open>auto simp: ab_fits_def\<close>)
    then show ?thesis using E AB Some x by (simp add: allocates_as_def)
  qed
qed

lemma allocate_refines:
  assumes "ab_wf b n L A" "fl_refines b n s A" "sz \<le> 2 ^ 64 - 16" "align_ok al"
  shows "\<exists>s'. allocate s sz al = Some (fst (ab_allocate b sz al A), s') \<and>
    fl_refines b n s' (snd (ab_allocate b sz al A)) \<and>
    (\<forall>e. fst (ab_allocate b sz al A) = Inl e \<longrightarrow> s' = s) \<and> untouched (spared b n L) s s'"
  using allocate_refines_small [OF assms(1-3)] allocate_refines_tree [OF assms] unfolding allocates_as_def
  by (metis neq_Nil_conv)

subsection \<open>Deallocation\<close>

lemma ab_merge_same: "f (ab_tree A) = ab_tree A \<Longrightarrow> ab_merge f A = A"
  by (simp add: ab_merge_def)

lemma coalesce_successor_refines:
  assumes R: "fl_refines b n s A" and t: "ab_tree A = xs @ (p, m) # ys" "p \<notin> fst ` set xs"
    and sz: "\<forall>x \<in> set (ab_tree A). 0 < snd x \<and> snd x \<le> n" "n \<le> 2 ^ 30"
  shows "\<exists>s'. coalesce_successor s p = Some s' \<and> fl_refines b n s' (ab_merge (merge_next p) A) \<and>
    untouched (- nodes (fst ` set (ab_tree A))) s s'"
proof -
  have T: "fl_tree s (xs @ (p, m) # ys)" using R t by (simp add: fl_refines_def)
  have nx: "successor s p = Some (first_addr (fl_nil s) ys)" "rd bsize s p = Some m"
    using tree.nxt_law [OF T] tree.holds_size [OF T] by auto
  have f: "fl_size s = n" "fl_blocks s = ab_count A" using R by (simp_all add: fl_refines_def)
  show ?thesis
  proof (cases ys)
    case Nil
    then show ?thesis using R nx merge_next_split [OF t(2), of m ys] t
      by (simp add: coalesce_successor_def ab_merge_same first_addr_def)
  next
    case (Cons w zs)
    obtain c k where w: "w = (c, k)" by (cases w) auto
    have T': "fl_tree s ((xs @ [(p, m)]) @ (c, k) # zs)" using T Cons w by simp
    have c: "c \<noteq> fl_nil s" "rd bsize s c = Some k" "0 < k" "k \<le> n" "m \<le> n"
      using tree.holds_nil [OF T'] tree.holds_size [OF T'] sz t Cons w by auto
    show ?thesis
    proof (cases "p + m = c")
      case False
      then show ?thesis using R nx c merge_next_split [OF t(2), of m ys] t Cons w
        by (simp add: coalesce_successor_def ab_merge_same first_addr_def)
    next
      case True
      have mn: "merge_next p (ab_tree A) = xs @ (p, m + k) # zs"
        using merge_next_split [OF t(2), of m ys] True Cons w t by simp
      obtain s1 s2 where 1: "delete_node s c = Some s1" "grow_block s1 p k = Some s2"
         "fl_tree s2 (xs @ (p, m + k) # zs)"
         "fl_frame (fst ` set (xs @ (p, m) # (c, k) # zs)) s s1" "fl_frame (fst ` set (xs @ (p, m) # zs)) s1 s2"
        using tree_growth.absorb_next [of s xs p m c k zs] T Cons w c sz(2) by auto
      have F: "fl_frame (fst ` set (xs @ (p, m) # (c, k) # zs)) s s2"
        by (rule fl_frame_trans [OF 1(4,5)]) auto
      have R2: "fl_refines b n s2 (A\<lparr>ab_tree := xs @ (p, m + k) # zs\<rparr>)" by (rule refines_frame [OF R F 1(3)])
      then have b2: "fl_blocks s2 = ab_count A" by (simp add: fl_refines_def)
      have "coalesce_successor s p = Some (s2\<lparr>fl_blocks := sub64 (ab_count A) 1\<rparr>)"
        using nx c 1(1,2) True Cons w f b2
        by (simp add: coalesce_successor_def first_addr_def cong: bind_weak)
      then show ?thesis using refines_counters(1) [OF R2, of "sub64 (ab_count A) 1"] mn t Cons w untouched_frame [OF F]
        by (simp add: ab_merge_def)
    qed
  qed
qed

lemma coalesce_predecessor_refines:
  assumes R: "fl_refines b n s A" and t: "ab_tree A = xs @ (p, m) # ys" "p \<notin> fst ` set (xs @ ys)"
    and sz: "\<forall>x \<in> set (ab_tree A). 0 < snd x \<and> snd x \<le> n" "n \<le> 2 ^ 30"
  shows "\<exists>s'. coalesce_predecessor s p = Some s' \<and> fl_refines b n s' (ab_merge (merge_prev p) A) \<and>
    untouched (- nodes (fst ` set (ab_tree A))) s s'"
proof -
  have T: "fl_tree s (xs @ (p, m) # ys)" using R t by (simp add: fl_refines_def)
  have nx: "predecessor s p = Some (last_addr (fl_nil s) xs)" "rd bsize s p = Some m"
    using tree.prv_law [OF T] tree.holds_size [OF T] by auto
  have f: "fl_size s = n" "fl_blocks s = ab_count A" using R by (simp_all add: fl_refines_def)
  show ?thesis
  proof (cases xs rule: rev_cases)
    case Nil
    have "p \<notin> fst ` set ys" using t(2) by auto
    then show ?thesis using R nx Nil t merge_prev_first [of p ys m]
      by (simp add: coalesce_predecessor_def ab_merge_same last_addr_def)
  next
    case (snoc us w)
    obtain a l where w: "w = (a, l)" by (cases w) auto
    have T': "fl_tree s (us @ (a, l) # (p, m) # ys)" using T snoc w by simp
    have c: "a \<noteq> fl_nil s" "rd bsize s a = Some l" "0 < m" "m \<le> n" "l \<le> n"
      using tree.holds_nil [OF T'] tree.holds_size [OF T'] sz t snoc w by auto
    have mp: "merge_prev p (ab_tree A) = (if a + l = p then us @ (a, l + m) # ys else us @ (a, l) # (p, m) # ys)"
      using merge_prev_split [of p us a l m ys] t snoc w by (auto simp: image_Un)
    show ?thesis
    proof (cases "a + l = p")
      case False
      then show ?thesis using R nx c mp t snoc w
        by (simp add: coalesce_predecessor_def ab_merge_same last_addr_def)
    next
      case True
      obtain s1 s2 where 1: "delete_node s p = Some s1" "grow_block s1 a m = Some s2"
         "fl_tree s2 (us @ (a, l + m) # ys)"
         "fl_frame (fst ` set (us @ (a, l) # (p, m) # ys)) s s1" "fl_frame (fst ` set (us @ (a, l) # ys)) s1 s2"
        using tree_growth.absorb_next [OF T'] c sz(2) by auto
      have F: "fl_frame (fst ` set (us @ (a, l) # (p, m) # ys)) s s2"
        by (rule fl_frame_trans [OF 1(4,5)]) auto
      have R2: "fl_refines b n s2 (A\<lparr>ab_tree := us @ (a, l + m) # ys\<rparr>)" by (rule refines_frame [OF R F 1(3)])
      then have b2: "fl_blocks s2 = ab_count A" by (simp add: fl_refines_def)
      have "coalesce_predecessor s p = Some (s2\<lparr>fl_blocks := sub64 (ab_count A) 1\<rparr>)"
        using nx c 1(1,2) True snoc w f b2
        by (simp add: coalesce_predecessor_def last_addr_def cong: bind_weak)
      then show ?thesis using refines_counters(1) [OF R2, of "sub64 (ab_count A) 1"] mp True t snoc w untouched_frame [OF F]
        by (simp add: ab_merge_def)
    qed
  qed
qed

lemma ab_insert_tree:
  assumes wf: "ab_wf b n L A" and p: "(p, m) \<in> set L"
  obtains xs ys where "ab_tree A = xs @ ys" "p \<notin> fst ` set (xs @ ys)"
    "insort_key fst (p, m) (ab_tree A) = xs @ (p, m) # ys"
proof -
  obtain xs ys where t: "ab_tree A = xs @ ys" "all_below p xs" "all_above p ys"
    using live_split [OF wf p] by blast
  then show thesis using insort_middle [OF t(2,3), of m] by (intro that) (auto simp: all_below_def all_above_def)
qed

lemma live_fresh:
  assumes wf: "ab_wf b n L A" and R: "fl_refines b n s A" and p: "(p, m) \<in> set L"
  shows "fresh p s A"
proof -
  have P: "p mod 16 = 0" "0 < m" "b \<le> p" "p + m \<le> b + n" using ab_wf_region [OF wf, of p m] p by auto
  have "p \<noteq> fst x" if "x \<in> set (ab_regions A)" for x
    using live_disjoint [OF wf p, of "fst x" "snd x"] that P(2) ab_wf_region(3) [OF wf, of "fst x" "snd x"] by auto
  then have "p \<notin> fst ` set (ab_regions A)" by auto
  moreover have "p \<noteq> 0" "p \<noteq> fl_nil s" using P R wf by (auto simp: fl_refines_def ab_wf_def arena_ok_def)
  ultimately show ?thesis using P wf by (simp add: fresh_def ab_wf_def)
qed

lemma merge_next_first:
  assumes "p \<notin> fst ` set (xs @ ys)"
  obtains k zs where "merge_next p (xs @ (p, m) # ys) = xs @ (p, k) # zs" "p \<notin> fst ` set (xs @ zs)"
proof -
  have "p \<notin> fst ` set xs" "p \<notin> fst ` set ys" using assms by auto
  from merge_next_split [OF this(1), of m ys] this that show thesis
    by (cases ys) (auto simp: image_Un split: if_splits)
qed

text \<open>The sizes of the tree stay within the arena while a region moves from live to free.\<close>

lemma free_sizes:
  assumes wf: "ab_wf b n L A" and p: "(p, m) \<in> set L" and m: "128 < m"
    and B: "\<And>v. cover (ab_tree B) v = cover [(p, m)] v + cover (ab_tree A) v"
      "\<forall>x \<in> set (ab_tree B). region_ok x \<and> 48 \<le> snd x"
  shows "\<forall>x \<in> set (ab_tree B). 0 < snd x \<and> snd x \<le> n"
proof
  fix x assume x: "x \<in> set (ab_tree B)"
  have "tiled b n (ab_tree B @ class_regions 0 (ab_small A) @ remove1 (p, m) L)"
    using wf cover_remove1 [OF p] B(1) by (simp add: ab_wf_def tiled_def ab_regions_def ac_simps)
  from tiled_bounds [OF this, of "fst x" "snd x"] x B(2) show "0 < snd x \<and> snd x \<le> n"
    by (auto simp: region_ok_def)
qed

lemma ab_counters:
  "(ab_push i p A)\<lparr>ab_used := u, ab_count := c\<rparr> = ab_push i p (A\<lparr>ab_used := u, ab_count := c\<rparr>)"
  "(ab_insert p m A)\<lparr>ab_count := c, ab_used := u\<rparr> = ab_insert p m (A\<lparr>ab_used := u, ab_count := c\<rparr>)"
  by (simp_all add: ab_push_def ab_insert_def)

lemma merge_next_addrs: "fst ` set (merge_next p bs) \<subseteq> fst ` set bs"
  by (induction p bs rule: merge_next.induct) auto

lemma spared_other:
  assumes wf: "ab_wf b n L A" and p: "(p, m) \<in> set L"
  shows "{p..<p + m} \<inter> spared b n (remove1 (p, m) L) = {}" "spared b n (remove1 (p, m) L) \<inter> nodes (fst ` set (ab_tree A)) = {}"
proof -
  obtain us vs where L: "L = us @ (p, m) # vs" "(p, m) \<notin> set us" using p by (metis split_list_first)
  then have r: "remove1 (p, m) L = us @ vs" by (simp add: remove1_append)
  have t: "tiled b n ((ab_regions A @ us) @ (p, m) # vs)" using wf L(1) by (simp add: ab_wf_def)
  have "p + m \<le> fst x \<or> fst x + snd x \<le> p" if "x \<in> set (us @ vs)" for x
  proof (rule tiled_disjoint [OF t])
    show "0 < m" "0 < snd x" "(fst x, snd x) \<in> set ((ab_regions A @ us) @ vs)"
      using that L(1) ab_wf_region(3) [OF wf, of p m] ab_wf_region(3) [OF wf, of "fst x" "snd x"] by auto
  qed
  moreover have "b \<le> p" "p + m \<le> b + n" using ab_wf_region(4,5) [OF wf, of p m] p by auto
  ultimately show "{p..<p + m} \<inter> spared b n (remove1 (p, m) L) = {}" unfolding r by (fastforce simp: spared_def held_def)
  have "spared b n (remove1 (p, m) L) \<subseteq> spared b n L" unfolding r L(1) by (auto simp: held_def spared_def)
  then show "spared b n (remove1 (p, m) L) \<inter> nodes (fst ` set (ab_tree A)) = {}" using spared_not_in_tree(2) [OF wf] by blast
qed

lemma deallocate_large_refines:
  assumes wf: "ab_wf b n L A" and R: "fl_refines b n s A" and p: "(p, m) \<in> set L" and m: "128 < m"
  defines "A' \<equiv> A\<lparr>ab_used := ab_used A - m, ab_count := add64 (ab_count A) 1\<rparr>"
  shows "\<exists>s1 s2 s'. insert_node (new_block s p \<lparr>bsize = m, parent = fl_nil s, left = fl_nil s, right = fl_nil s,
      subtree_max = m, color = Red\<rparr>) p = Some s1 \<and> fl_blocks s1 = ab_count A \<and> fl_allocated s1 = ab_used A \<and>
    coalesce_successor (s1\<lparr>fl_blocks := add64 (ab_count A) 1, fl_allocated := ab_used A - m\<rparr>) p = Some s2 \<and>
    coalesce_predecessor s2 p = Some s' \<and>
    fl_refines b n s' (ab_merge (merge_prev p) (ab_merge (merge_next p) (ab_insert p m A'))) \<and>
    untouched (spared b n (remove1 (p, m) L)) s s'"
proof -
  have P: "p mod 16 = 0" "m mod 16 = 0" "0 < m" "m \<le> n" using ab_wf_region [OF wf, of p m] p by auto
  have n: "n \<le> 2 ^ 30" using wf by (simp add: ab_wf_def arena_ok_def)
  obtain xs ys where t: "ab_tree A = xs @ ys" "p \<notin> fst ` set (xs @ ys)"
    "insort_key fst (p, m) (ab_tree A) = xs @ (p, m) # ys" by (rule ab_insert_tree [OF wf p])
  have "\<forall>x \<in> set (ab_tree A). region_ok x \<and> 48 \<le> snd x" using wf by (auto simp: ab_wf_def ab_regions_def)
  then have pos: "\<forall>x \<in> set (xs @ (p, m) # ys). region_ok x \<and> 48 \<le> snd x"
    using t(1) P m by (simp add: region_ok_def)
  obtain s1 where 1: "insert_node (new_block s p \<lparr>bsize = m, parent = fl_nil s, left = fl_nil s, right = fl_nil s,
      subtree_max = m, color = Red\<rparr>) p = Some s1" "fl_refines b n s1 (ab_insert p m A)"
      "untouched (- nodes (insert p (fst ` set (ab_tree A)))) s s1"
    using new_block_insert_refines [OF R live_fresh [OF wf R p], of "\<lparr>bsize = m, parent = fl_nil s,
        left = fl_nil s, right = fl_nil s, subtree_max = m, color = Red\<rparr>"] P n by auto
  let ?s1 = "s1\<lparr>fl_blocks := add64 (ab_count A) 1, fl_allocated := ab_used A - m\<rparr>"
  have R1: "fl_refines b n ?s1 (ab_insert p m A')"
    using refines_counters(2) [OF refines_counters(1) [OF 1(2)]] by (simp add: A'_def ab_counters)
  have T1: "ab_tree (ab_insert p m A') = xs @ (p, m) # ys" using t by (simp add: A'_def)
  have "\<forall>x \<in> set (ab_tree (ab_insert p m A')). 0 < snd x \<and> snd x \<le> n"
    by (rule free_sizes [OF wf p m]) (use T1 pos t(1) in auto)
  then obtain s2 where 2: "coalesce_successor ?s1 p = Some s2"
     "fl_refines b n s2 (ab_merge (merge_next p) (ab_insert p m A'))"
     "untouched (- nodes (fst ` set (ab_tree (ab_insert p m A')))) ?s1 s2"
    using coalesce_successor_refines [OF R1 T1] t(2) n by auto
  obtain k zs where T2: "merge_next p (xs @ (p, m) # ys) = xs @ (p, k) # zs" "p \<notin> fst ` set (xs @ zs)"
    by (rule merge_next_first [OF t(2)])
  let ?A2 = "ab_merge (merge_next p) (ab_insert p m A')"
  have T2': "ab_tree ?A2 = xs @ (p, k) # zs" using T1 T2(1) by (simp add: ab_merge_def)
  have "\<forall>x \<in> set (ab_tree ?A2). region_ok x \<and> 48 \<le> snd x"
    using region_merge(1) [OF pos, of p] T2' T2(1) by simp
  moreover have "cover (ab_tree ?A2) v = cover [(p, m)] v + cover (ab_tree A) v" for v
    using cover_merge_next [of p "xs @ (p, m) # ys" v] T2' T2(1) t(1) by simp
  ultimately have "\<forall>x \<in> set (ab_tree ?A2). 0 < snd x \<and> snd x \<le> n" by (intro free_sizes [OF wf p m])
  then obtain s' where 3: "coalesce_predecessor s2 p = Some s'" "fl_refines b n s' (ab_merge (merge_prev p) ?A2)"
     "untouched (- nodes (fst ` set (ab_tree ?A2))) s2 s'"
    using coalesce_predecessor_refines [OF 2(2) T2' T2(2)] n by auto
  let ?H = "spared b n (remove1 (p, m) L)" and ?X = "insert p (fst ` set (ab_tree A))"
  have "fst ` set (xs @ (p, m) # ys) = ?X" using t(1) by auto
  moreover have "fst ` set (ab_tree ?A2) \<subseteq> fst ` set (xs @ (p, m) # ys)"
    using merge_next_addrs [of p "xs @ (p, m) # ys"] T2' T2(1) by simp
  moreover have "?H \<subseteq> - nodes ?X" using spared_other [OF wf p] m by fastforce
  moreover have "untouched (- nodes (fst ` set (xs @ (p, m) # ys))) s1 s2" using 2(3) unfolding T1 by simp
  ultimately have u: "untouched (- nodes ?X) s1 s2" "fst ` set (ab_tree ?A2) \<subseteq> ?X" "?H \<subseteq> - nodes ?X" by (simp_all only:)
  have "?H \<subseteq> - nodes (fst ` set (ab_tree ?A2))" using nodes_mono [OF u(2)] u(3) by blast
  then have "untouched ?H s s'"
    using untouched_trans [OF untouched_trans [OF 1(3) u(1) u(3) u(3)] 3(3)] by blast
  then show ?thesis using 1 2 3 by (auto simp: fl_refines_def)
qed

lemma deallocate_refines:
  assumes wf: "ab_wf b n L A" and R: "fl_refines b n s A" and p: "(p, m) \<in> set L"
  shows "\<exists>s'. deallocate s p m = Some (Inr (), s') \<and> fl_refines b n s' (ab_deallocate p m A) \<and>
    untouched (spared b n (remove1 (p, m) L)) s s'"
proof -
  have P: "p mod 16 = 0" "m mod 16 = 0" "0 < m" "b \<le> p" "p + m \<le> b + n" "m \<le> n"
    using ab_wf_region [OF wf, of p m] p by auto
  have m16: "16 \<le> m" using P(2,3) by (auto simp: mod_eq_0_iff_dvd elim!: dvdE)
  have f: "fl_base s = b" "fl_size s = n" "fl_allocated s = ab_used A" "fl_blocks s = ab_count A" "0 < b" "n \<le> 2 ^ 30"
    using R wf by (auto simp: fl_refines_def ab_wf_def arena_ok_def)
  have "bytes L \<le> n"
    using tiled_bytes [of b n "ab_regions A @ L"] wf by (auto simp: ab_wf_def region_ok_def bytes_def)
  then have al: "sub64 (ab_used A) m = ab_used A - m"
    using bytes_remove1 [OF p] wf f(6) by (simp add: ab_wf_def)
  show ?thesis
  proof (cases "m \<le> 128")
    case True
    have c: "m div 16 - 1 < 8" using class_of_bounds [OF P(2,3) True] by (simp add: class_of_def)
    obtain s1 where 1: "push_small s (m div 16 - 1) p = Some s1" "fl_refines b n s1 (ab_push (m div 16 - 1) p A)"
      "untouched (- {p..<p + 8}) s s1" using push_small_refines [OF R live_fresh [OF wf R p] c] by blast
    have "fl_refines b n (s1\<lparr>fl_allocated := ab_used A - m, fl_blocks := add64 (ab_count A) 1\<rparr>) (ab_deallocate p m A)"
      using refines_counters(1) [OF refines_counters(2) [OF 1(2)]] True by (simp add: ab_deallocate_def ab_counters)
    moreover have "fl_allocated s1 = ab_used A" "fl_blocks s1 = ab_count A" using 1(2) by (auto simp: fl_refines_def)
    moreover have "untouched (spared b n (remove1 (p, m) L)) s s1"
      by (rule untouched_mono [OF 1(3)]) (use spared_other(1) [OF wf p] m16 in fastforce)
    ultimately show ?thesis
      using P f m16 True c 1(1) al by (simp add: deallocate_def fl_consts Let_def cong: bind_weak del: One_nat_def)
  next
    case False
    then obtain s1 s2 s' where 1: "insert_node (new_block s p \<lparr>bsize = m, parent = fl_nil s, left = fl_nil s,
        right = fl_nil s, subtree_max = m, color = Red\<rparr>) p = Some s1"
      "fl_blocks s1 = ab_count A" "fl_allocated s1 = ab_used A"
      "coalesce_successor (s1\<lparr>fl_blocks := add64 (ab_count A) 1, fl_allocated := ab_used A - m\<rparr>) p = Some s2"
      "coalesce_predecessor s2 p = Some s'" "fl_refines b n s' (ab_deallocate p m A)"
      "untouched (spared b n (remove1 (p, m) L)) s s'"
      using deallocate_large_refines [OF wf R p] by (auto simp: ab_deallocate_def Let_def)
    have "ab_wf b n (remove1 (p, m) L) (ab_deallocate p m A)" by (rule ab_deallocate_wf [OF wf p])
    then have ver: "verify_tree s' (fl_root s') = Some ()"
      using fl_tree_verify [of s' "ab_tree (ab_deallocate p m A)"] 1(6)
      by (auto simp: fl_refines_def ab_wf_def ab_regions_def region_ok_def)
    show ?thesis
      using P f m16 False 1 al ver by (simp add: deallocate_def fl_consts Let_def cong: bind_weak del: One_nat_def)
  qed
qed

end
