(* ===== verification/Free_List_Safety.thy ===== *)
theory Free_List_Safety
  imports Free_List_Refine
begin

text \<open>
  The allocator as a state machine over the pointer program: the invariant \<open>fl_inv\<close> relates a
  state to the regions its clients hold, the step relation runs \<open>allocate\<close> and \<open>deallocate\<close>, and
  every reachable state satisfies the invariant. The consequences for clients are proved here once.
\<close>

subsection \<open>Construction\<close>

definition ab_init :: "addr \<Rightarrow> size_t \<Rightarrow> ab_state" where
  "ab_init b n = \<lparr>ab_tree = [(b, n)], ab_small = replicate 8 [], ab_used = 0, ab_count = 1\<rparr>"

definition create_ok :: "addr \<Rightarrow> addr \<Rightarrow> size_t \<Rightarrow> bool" where
  "create_ok nilp b n \<longleftrightarrow> arena_ok b n \<and> 48 \<le> n \<and> nilp \<noteq> 0 \<and> (nilp < b \<or> b + n \<le> nilp)"

lemma class_regions_empty: "class_regions j (replicate k []) = []"
  by (induction k arbitrary: j) auto

lemma ab_init_wf: "create_ok nilp b n \<Longrightarrow> ab_wf b n [] (ab_init b n)"
  by (simp add: ab_wf_def create_ok_def ab_init_def ab_regions_def tiled_def region_ok_def arena_ok_def
      coalesced_def bytes_def class_regions_empty)

lemma fl_create_refines:
  assumes "create_ok nilp b n"
  shows "\<exists>s. fl_create nilp g b n = Some s \<and> fl_refines b n s (ab_init b n)"
proof -
  let ?nb = "\<lparr>bsize = 0, parent = nilp, left = nilp, right = nilp, subtree_max = 0, color = Black\<rparr>"
  let ?blk = "\<lparr>bsize = n, parent = nilp, left = nilp, right = nilp, subtree_max = n, color = Black\<rparr>"
  let ?s0 = "\<lparr>fl_base = b, fl_size = n, fl_root = nilp, fl_nil = nilp, fl_lists = [], fl_allocated = 0,
      fl_blocks = 0, fl_mem = [nilp \<mapsto> ?nb], fl_next = Map.empty, fl_log = g\<rparr>"
  have A: "0 < b" "b mod 16 = 0" "n \<le> 2 ^ 30" "48 \<le> n" "nilp \<noteq> 0" "nilp < b \<or> b + n \<le> nilp"
    using assms by (auto simp: create_ok_def arena_ok_def)
  let ?s = "new_block ?s0 b ?blk"
  have "tree_at ?s Lf" using A by (auto simp: tree_at_def nil_block_def new_block_def)
  then have "fl_tree ?s []" by (auto simp: fl_tree_def rbt_ok_def intro: exI [of _ Lf])
  moreover have "rd bsize ?s b = Some n" by (simp add: rd_def new_block_def)
  moreover have "tree_admits ?s b n" using A by (auto simp: tree_admits_def new_block_def)
  ultimately obtain s where s: "insert_node ?s b = Some s" "fl_tree s [(b, n)]" "fl_frame {b} ?s s"
    using tree.ins_law [of ?s "[]" b n] by auto
  let ?s' = "s\<lparr>fl_blocks := 1, fl_lists := replicate 8 0\<rparr>"
  have "fl_create nilp g b n = Some ?s'" using s(1) by (simp add: fl_create_def fl_consts)
  moreover have "fl_refines b n ?s' (ab_init b n)"
    using s(2,3) A by (auto simp: fl_refines_def ab_init_def fl_frame_def new_block_def)
  ultimately show ?thesis by blast
qed

subsection \<open>The invariant of the pointer program\<close>

definition fl_inv :: "fl_state \<Rightarrow> (addr \<times> size_t) list \<Rightarrow> bool" where
  "fl_inv s L \<longleftrightarrow> (\<exists>A. ab_wf (fl_base s) (fl_size s) L A \<and> fl_refines (fl_base s) (fl_size s) s A)"

lemma fl_invI: "ab_wf b n L A \<Longrightarrow> fl_refines b n s A \<Longrightarrow> fl_inv s L"
  by (auto simp: fl_inv_def fl_refines_def)

lemma fl_create_inv:
  assumes "create_ok nilp b n"
  shows "\<exists>s. fl_create nilp g b n = Some s \<and> fl_inv s []"
  using fl_create_refines [OF assms] ab_init_wf [OF assms] fl_invI by blast

lemma allocate_inv:
  assumes "fl_inv s L" "sz \<le> 2 ^ 64 - 16" "align_ok al"
  shows "\<exists>res s'. allocate s sz al = Some (res, s') \<and>
    (case res of Inl e \<Rightarrow> e = OutOfMemory \<and> s' = s
     | Inr r \<Rightarrow> fl_inv s' ((res_ptr r, res_actual_size r) # L) \<and> fl_base s' = fl_base s \<and> fl_size s' = fl_size s) \<and>
    untouched (spared (fl_base s) (fl_size s) L) s s'"
proof -
  let ?b = "fl_base s" and ?n = "fl_size s"
  obtain A where A: "ab_wf ?b ?n L A" "fl_refines ?b ?n s A" using assms(1) by (auto simp: fl_inv_def)
  obtain res A' where r: "ab_allocate ?b sz al A = (res, A')" by (cases "ab_allocate ?b sz al A") auto
  obtain s' where s': "allocate s sz al = Some (res, s')" "fl_refines ?b ?n s' A'" "\<And>e. res = Inl e \<Longrightarrow> s' = s"
     "untouched (spared ?b ?n L) s s'"
    using allocate_refines [OF A assms(2,3)] r by auto
  show ?thesis
  proof (cases res)
    case (Inl e)
    then show ?thesis using s' ab_allocate_error [of ?b sz al A e A'] r by auto
  next
    case (Inr x)
    have "ab_wf ?b ?n ((res_ptr x, res_actual_size x) # L) A'"
      using ab_allocate_wf [OF A(1) assms(2,3), of x A'] r Inr by simp
    moreover have "fl_base s' = ?b" "fl_size s' = ?n" using s'(2) by (auto simp: fl_refines_def)
    ultimately show ?thesis using s' Inr fl_invI by auto
  qed
qed

lemma deallocate_inv:
  assumes "fl_inv s L" "(p, m) \<in> set L"
  shows "\<exists>s'. deallocate s p m = Some (Inr (), s') \<and> fl_inv s' (remove1 (p, m) L) \<and>
    fl_base s' = fl_base s \<and> fl_size s' = fl_size s \<and>
    untouched (spared (fl_base s) (fl_size s) (remove1 (p, m) L)) s s'"
proof -
  let ?b = "fl_base s" and ?n = "fl_size s"
  obtain A where A: "ab_wf ?b ?n L A" "fl_refines ?b ?n s A" using assms(1) by (auto simp: fl_inv_def)
  obtain s' where "deallocate s p m = Some (Inr (), s')" "fl_refines ?b ?n s' (ab_deallocate p m A)"
    "untouched (spared ?b ?n (remove1 (p, m) L)) s s'"
    using deallocate_refines [OF A assms(2)] by blast
  moreover from this(2) have "fl_base s' = ?b" "fl_size s' = ?n" by (auto simp: fl_refines_def)
  ultimately show ?thesis using fl_invI [OF ab_deallocate_wf [OF A(1) assms(2)]] by auto
qed

subsection \<open>Runs\<close>

text \<open>A client only frees regions it holds, with the size \<open>allocate\<close> reported.\<close>

inductive fl_step :: "fl_state \<times> (addr \<times> size_t) list \<Rightarrow> fl_state \<times> (addr \<times> size_t) list \<Rightarrow> bool" where
  step_alloc: "sz \<le> 2 ^ 64 - 16 \<Longrightarrow> align_ok al \<Longrightarrow> allocate s sz al = Some (Inr r, s') \<Longrightarrow>
    fl_step (s, L) (s', (res_ptr r, res_actual_size r) # L)"
| step_fail: "sz \<le> 2 ^ 64 - 16 \<Longrightarrow> align_ok al \<Longrightarrow> allocate s sz al = Some (Inl e, s') \<Longrightarrow>
    fl_step (s, L) (s', L)"
| step_free: "(p, m) \<in> set L \<Longrightarrow> deallocate s p m = Some (res, s') \<Longrightarrow>
    fl_step (s, L) (s', remove1 (p, m) L)"

inductive fl_reach :: "addr \<Rightarrow> size_t \<Rightarrow> fl_state \<times> (addr \<times> size_t) list \<Rightarrow> bool" for b n where
  reach_init: "create_ok nilp b n \<Longrightarrow> fl_create nilp g b n = Some s \<Longrightarrow> fl_reach b n (s, [])"
| reach_step: "fl_reach b n c \<Longrightarrow> fl_step c c' \<Longrightarrow> fl_reach b n c'"

lemma fl_step_inv:
  assumes "fl_inv s L" "fl_step (s, L) (s', L')"
  shows "fl_inv s' L' \<and> fl_base s' = fl_base s \<and> fl_size s' = fl_size s"
  using assms(2)
proof (cases rule: fl_step.cases)
  case (step_alloc sz al r)
  then show ?thesis using allocate_inv [OF assms(1), of sz al] by auto
next
  case (step_fail sz al e)
  then show ?thesis using allocate_inv [OF assms(1), of sz al] assms(1) by auto
next
  case (step_free p m res)
  then show ?thesis using deallocate_inv [OF assms(1), of p m] by auto
qed

lemma fl_reach_inv: "fl_reach b n (s, L) \<Longrightarrow> fl_inv s L \<and> fl_base s = b \<and> fl_size s = n"
proof (induction "(s, L)" arbitrary: s L rule: fl_reach.induct)
  case (reach_init nilp g s)
  from fl_create_refines [OF reach_init(1), of g] reach_init(2) ab_init_wf [OF reach_init(1)] show ?case
    by (auto simp: fl_refines_def intro: fl_invI)
next
  case (reach_step c s L)
  obtain s0 L0 where c: "c = (s0, L0)" by (cases c) auto
  then show ?case using reach_step.hyps(2) [OF c] fl_step_inv [of s0 L0 s L] reach_step.hyps(3) by simp
qed

subsection \<open>What clients see\<close>

lemma fl_inv_regions:
  assumes "fl_inv s L" "L = us @ (p, m) # vs"
  shows "p mod 16 = 0" "0 < m" "fl_base s \<le> p" "p + m \<le> fl_base s + fl_size s"
    "(c, k) \<in> set (us @ vs) \<Longrightarrow> p + m \<le> c \<or> c + k \<le> p"
proof -
  obtain A where A: "ab_wf (fl_base s) (fl_size s) L A" using assms(1) by (auto simp: fl_inv_def)
  show "p mod 16 = 0" "0 < m" "fl_base s \<le> p" "p + m \<le> fl_base s + fl_size s"
    using ab_wf_region [OF A, of p m] assms(2) by auto
  assume c: "(c, k) \<in> set (us @ vs)"
  have t: "tiled (fl_base s) (fl_size s) ((ab_regions A @ us) @ (p, m) # vs)" using A assms(2) by (simp add: ab_wf_def)
  show "p + m \<le> c \<or> c + k \<le> p"
    by (rule tiled_disjoint [OF t]) (use c assms(2) \<open>0 < m\<close> ab_wf_region(3) [OF A, of c k] in auto)
qed

lemma fl_inv_accounting:
  assumes "fl_inv s L"
  shows "bytes_allocated s = bytes L" "bytes_allocated s + bytes_free s = capacity s"
proof -
  obtain A where A: "ab_wf (fl_base s) (fl_size s) L A" "fl_refines (fl_base s) (fl_size s) s A"
    using assms by (auto simp: fl_inv_def)
  then show "bytes_allocated s = bytes L" by (simp add: bytes_allocated_def fl_refines_def ab_wf_def)
  moreover have "bytes L \<le> fl_size s"
    using tiled_bytes [of "fl_base s" "fl_size s" "ab_regions A @ L"] A(1)
    by (auto simp: ab_wf_def region_ok_def bytes_def)
  ultimately show "bytes_allocated s + bytes_free s = capacity s"
    using A(1) by (simp add: bytes_free_def bytes_allocated_def capacity_def ab_wf_def arena_ok_def)
qed

end
