(* ===== verification/Free_List_Props.thy ===== *)
theory Free_List_Props
  imports Free_List_Safety
begin

text \<open>
  Further consequences for the pointer program: first fit and exhaustion in terms of the stored
  blocks, alignment, exactness of the block counter, recovery of the whole arena, round trips and
  the height of the tree.
\<close>

subsection \<open>The blocks a state stores are unique\<close>

lemma rep_unique:
  "rep nl m p t \<Longrightarrow> rep nl m p' t' \<Longrightarrow> ptr nl t = ptr nl t' \<Longrightarrow> nl \<notin> set (addrs t) \<Longrightarrow>
   nl \<notin> set (addrs t') \<Longrightarrow> t = t'"
proof (induction t arbitrary: p p' t')
  case Lf
  then show ?case by (cases t') auto
next
  case (Nd c l a s x r)
  then obtain c' l' s' x' r' where t': "t' = Nd c' l' a s' x' r'" by (cases t') auto
  have "l = l'" by (rule Nd.IH(1)) (use Nd.prems t' in auto)
  moreover have "r = r'" by (rule Nd.IH(2)) (use Nd.prems t' in auto)
  ultimately show ?case using Nd.prems t' by auto
qed

lemma fl_tree_unique: "fl_tree s bs \<Longrightarrow> fl_tree s cs \<Longrightarrow> bs = cs"
  using rep_unique by (fastforce simp: fl_tree_def tree_at_def)

subsection \<open>First fit, exhaustion and alignment\<close>

definition no_small :: "fl_state \<Rightarrow> size_t \<Rightarrow> bool" where
  "no_small s isz \<longleftrightarrow> 128 < isz \<or> fl_lists s ! (isz div 16 - 1) = 0"

lemma no_small_refines:
  assumes "ab_wf b n L A" "fl_refines b n s A" "sz \<le> 2 ^ 64 - 16"
  defines "isz \<equiv> internal_size_of sz"
  shows "no_small s isz \<longleftrightarrow> \<not> (isz \<le> 128 \<and> ab_small A ! (isz div 16 - 1) \<noteq> [])"
proof (cases "isz \<le> 128")
  case True
  have "isz div 16 - 1 < 8"
    using class_of_bounds [of isz] internal_size_bounds [OF assms(3)] True by (simp add: class_of_def isz_def)
  then have "chain (fl_next s) (fl_lists s ! (isz div 16 - 1)) (ab_small A ! (isz div 16 - 1))"
    using assms(2) by (simp add: fl_refines_def)
  then show ?thesis using True by (cases "ab_small A ! (isz div 16 - 1)") (auto simp: no_small_def)
next
  case False
  then show ?thesis by (simp add: no_small_def)
qed

lemma ab_allocate_slow:
  "\<not> (internal_size_of sz \<le> 128 \<and> ab_small A ! (internal_size_of sz div 16 - 1) \<noteq> []) \<Longrightarrow>
   ab_allocate b sz al A = (case find (ab_fits (internal_size_of sz) (max al 16)) (ab_tree A) of
     None \<Rightarrow> (Inl OutOfMemory, A)
   | Some (a, m) \<Rightarrow> (Inr \<lparr>res_ptr = align_up (max al 16) a, res_offset = align_up (max al 16) a - b,
         res_actual_size = internal_size_of sz\<rparr>,
       ab_carve (internal_size_of sz) (align_up (max al 16) a) a m A))"
  by (auto simp: ab_allocate_def Let_def split: option.split)

lemma allocate_tree_path:
  assumes inv: "fl_inv s L" and sz: "sz \<le> 2 ^ 64 - 16" and al: "align_ok al"
    and t: "fl_tree s bs" and ns: "no_small s (internal_size_of sz)"
  shows "\<exists>s'. allocate s sz al = Some (case find (ab_fits (internal_size_of sz) (max al 16)) bs of
      None \<Rightarrow> Inl OutOfMemory
    | Some (a, m) \<Rightarrow> Inr \<lparr>res_ptr = align_up (max al 16) a, res_offset = align_up (max al 16) a - fl_base s,
         res_actual_size = internal_size_of sz\<rparr>, s')"
proof -
  obtain A where A: "ab_wf (fl_base s) (fl_size s) L A" "fl_refines (fl_base s) (fl_size s) s A"
    using inv by (auto simp: fl_inv_def)
  have bs: "ab_tree A = bs" using A(2) t fl_tree_unique by (auto simp: fl_refines_def)
  note slow = ab_allocate_slow [OF no_small_refines [OF A sz, THEN iffD1, OF ns]]
  obtain s' where "allocate s sz al = Some (fst (ab_allocate (fl_base s) sz al A), s')"
    using allocate_refines [OF A sz al] by blast
  then show ?thesis unfolding slow bs by (cases "find (ab_fits (internal_size_of sz) (max al 16)) bs") auto
qed

lemma allocate_small_path:
  assumes inv: "fl_inv s L" and sz: "sz \<le> 2 ^ 64 - 16" and al: "align_ok al"
    and ns: "\<not> no_small s (internal_size_of sz)"
  shows "\<exists>s'. allocate s sz al = Some (Inr \<lparr>res_ptr = fl_lists s ! (internal_size_of sz div 16 - 1),
      res_offset = fl_lists s ! (internal_size_of sz div 16 - 1) - fl_base s,
      res_actual_size = internal_size_of sz\<rparr>, s')"
proof -
  obtain A where A: "ab_wf (fl_base s) (fl_size s) L A" "fl_refines (fl_base s) (fl_size s) s A"
    using inv by (auto simp: fl_inv_def)
  define i where "i = internal_size_of sz div 16 - 1"
  have small: "internal_size_of sz \<le> 128 \<and> ab_small A ! i \<noteq> []"
    using no_small_refines [OF A sz] ns by (simp add: i_def)
  then have "i < 8" using class_of_bounds [of "internal_size_of sz"] internal_size_bounds [OF sz]
    by (simp add: class_of_def i_def)
  then have "chain (fl_next s) (fl_lists s ! i) (ab_small A ! i)" using A(2) by (simp add: fl_refines_def)
  then have "fl_lists s ! i = hd (ab_small A ! i)" using small by (cases "ab_small A ! i") auto
  moreover obtain s' where "allocate s sz al = Some (fst (ab_allocate (fl_base s) sz al A), s')"
    using allocate_refines [OF A sz al] by blast
  ultimately show ?thesis using small by (simp add: ab_allocate_def Let_def i_def)
qed

lemma allocate_oom_iff:
  assumes inv: "fl_inv s L" and sz: "sz \<le> 2 ^ 64 - 16" and al: "align_ok al" and t: "fl_tree s bs"
  shows "(\<exists>s'. allocate s sz al = Some (Inl OutOfMemory, s')) \<longleftrightarrow>
    no_small s (internal_size_of sz) \<and> (\<forall>x \<in> set bs. \<not> ab_fits (internal_size_of sz) (max al 16) x)"
proof (cases "no_small s (internal_size_of sz)")
  case True
  then show ?thesis using allocate_tree_path [OF inv sz al t]
    by (cases "find (ab_fits (internal_size_of sz) (max al 16)) bs") (auto simp: find_None_iff dest!: find_split)
next
  case False
  then show ?thesis using allocate_small_path [OF inv sz al] by auto
qed

lemma allocate_result:
  assumes inv: "fl_inv s L" and sz: "sz \<le> 2 ^ 64 - 16" and al: "align_ok al"
    and r: "allocate s sz al = Some (Inr r, s')"
  shows "res_offset r = res_ptr r - fl_base s" "res_actual_size r = internal_size_of sz" "res_ptr r mod 16 = 0"
proof -
  obtain bs where t: "fl_tree s bs" using inv by (auto simp: fl_inv_def fl_refines_def)
  show "res_offset r = res_ptr r - fl_base s" "res_actual_size r = internal_size_of sz"
    using allocate_tree_path [OF inv sz al t] allocate_small_path [OF inv sz al] r
    by (cases "no_small s (internal_size_of sz)"; auto split: option.splits)+
  have "fl_inv s' ((res_ptr r, res_actual_size r) # L)" using allocate_inv [OF inv sz al] r by auto
  then show "res_ptr r mod 16 = 0" using fl_inv_regions(1) [of s' _ "[]" "res_ptr r" "res_actual_size r" L] by simp
qed

lemma allocate_aligned:
  assumes inv: "fl_inv s L" and sz: "sz \<le> 2 ^ 64 - 16" and al: "has_single_bit al"
    and r: "allocate s sz al = Some (Inr r, s')" and ns: "no_small s (internal_size_of sz)"
  shows "res_ptr r mod al = 0"
proof -
  have ok: "align_ok al" using al by (simp add: align_ok_def)
  obtain bs where t: "fl_tree s bs" using inv by (auto simp: fl_inv_def fl_refines_def)
  obtain a where a: "res_ptr r = align_up (max al 16) a"
    using allocate_tree_path [OF inv sz ok t ns] r by (auto split: option.splits)
  obtain k where k: "al = 2 ^ k" using al has_single_bit_iff by blast
  have "al dvd max al 16"
  proof (cases "k \<le> 4")
    case True
    then have "al dvd 2 ^ 4" unfolding k by (rule le_imp_power_dvd)
    then show ?thesis by (auto simp: max_def)
  next
    case False
    then have "(2 :: nat) ^ 4 \<le> al" unfolding k by (intro power_increasing) auto
    then show ?thesis by (simp add: max_def)
  qed
  moreover have "max al 16 dvd res_ptr r" by (simp add: a align_up_def)
  ultimately show ?thesis by (meson dvd_imp_mod_0 dvd_trans)
qed

subsection \<open>Runs followed on the specification\<close>

lemma reach_alloc:
  assumes r: "fl_reach b n (s, L)" and wf: "ab_wf b n L A" and R: "fl_refines b n s A"
    and sz: "sz \<le> 2 ^ 64 - 16" and al: "align_ok al" and a: "ab_allocate b sz al A = (Inr x, A')"
  shows "\<exists>s'. allocate s sz al = Some (Inr x, s') \<and> fl_reach b n (s', (res_ptr x, res_actual_size x) # L) \<and>
    ab_wf b n ((res_ptr x, res_actual_size x) # L) A' \<and> fl_refines b n s' A'"
proof -
  obtain s' where s': "allocate s sz al = Some (Inr x, s')" "fl_refines b n s' A'"
    using allocate_refines [OF wf R sz al] a by auto
  then show ?thesis using ab_allocate_wf [OF wf sz al, of x A'] a reach_step [OF r step_alloc [OF sz al s'(1)]] by simp
qed

lemma reach_free:
  assumes r: "fl_reach b n (s, L)" and wf: "ab_wf b n L A" and R: "fl_refines b n s A" and p: "(p, m) \<in> set L"
  shows "\<exists>s'. deallocate s p m = Some (Inr (), s') \<and> fl_reach b n (s', remove1 (p, m) L) \<and>
    ab_wf b n (remove1 (p, m) L) (ab_deallocate p m A) \<and> fl_refines b n s' (ab_deallocate p m A)"
proof -
  obtain s' where s': "deallocate s p m = Some (Inr (), s')" "fl_refines b n s' (ab_deallocate p m A)"
    using deallocate_refines [OF wf R p] by blast
  then show ?thesis using ab_deallocate_wf [OF wf p] reach_step [OF r step_free [OF p s'(1)]] by simp
qed

subsection \<open>Recovery of the whole arena\<close>

lemma cover_pos: "1 \<le> cover xs v \<Longrightarrow> \<exists>a m. (a, m) \<in> set xs \<and> a \<le> v \<and> v < a + m"
  by (induction xs v rule: cover.induct) (auto split: if_splits)

lemma tiled_gapped_single:
  assumes t: "tiled b n bs" and g: "gapped bs" and pos: "\<forall>x \<in> set bs. 0 < snd x" and n: "0 < n"
  shows "bs = [(b, n)]"
proof -
  have "1 \<le> cover bs b" using t n by (simp add: tiled_def)
  then obtain a m where am: "(a, m) \<in> set bs" "a \<le> b" "b < a + m" using cover_pos by blast
  then have a: "a = b" "b + m \<le> b + n" using tiled_bounds [OF t am(1)] by auto
  obtain xs ys where bs: "bs = xs @ (b, m) # ys" using am(1) a by (metis split_list)
  have "xs = []"
  proof (rule ccontr)
    assume "xs \<noteq> []"
    then obtain x where x: "x \<in> set xs" by (cases xs) auto
    then have "0 < snd x" "fst x + snd x < b" using g pos by (auto simp: bs gapped_append)
    then show False using tiled_bounds(1) [OF t, of "fst x" "snd x"] x bs by auto
  qed
  moreover have "m = n"
  proof (rule ccontr)
    assume "m \<noteq> n"
    then have "1 \<le> cover bs (b + m)" using t a by (simp add: tiled_def)
    then obtain c k where ck: "(c, k) \<in> set bs" "c \<le> b + m" "b + m < c + k" using cover_pos by blast
    then have "(c, k) \<in> set ys" using bs \<open>xs = []\<close> by auto
    moreover have "\<forall>y \<in> set ys. b + m < fst y" using g by (simp add: bs gapped_append)
    ultimately have "b + m < c" by force
    then show False using ck by simp
  qed
  moreover have "ys = []"
  proof (rule ccontr)
    assume "ys \<noteq> []"
    then obtain x where x: "x \<in> set ys" by (cases ys) auto
    then have "0 < snd x" "b + m < fst x" using g pos by (auto simp: bs gapped_append)
    then show False using tiled_bounds(2) [OF t, of "fst x" "snd x"] x bs \<open>m = n\<close> by auto
  qed
  ultimately show ?thesis using bs by simp
qed

lemma arena_recovered:
  assumes inv: "fl_inv s []" and e: "\<forall>i < 8. fl_lists s ! i = 0" and n: "0 < fl_size s"
  shows "fl_tree s [(fl_base s, fl_size s)]"
proof -
  obtain A where A: "ab_wf (fl_base s) (fl_size s) [] A" "fl_refines (fl_base s) (fl_size s) s A"
    using inv by (auto simp: fl_inv_def)
  have "ab_small A ! i = []" if "i < 8" for i
  proof -
    have "chain (fl_next s) (fl_lists s ! i) (ab_small A ! i)" using A(2) that by (simp add: fl_refines_def)
    then show ?thesis using e that by (cases "ab_small A ! i") auto
  qed
  moreover have "length (ab_small A) = 8" using A(1) by (simp add: ab_wf_def)
  ultimately have "ab_small A = replicate 8 []"
    by (intro replicate_eqI) (auto simp: in_set_conv_nth)
  then have "ab_regions A = ab_tree A" by (simp add: ab_regions_def class_regions_empty)
  then have "ab_tree A = [(fl_base s, fl_size s)]"
    using A(1) ab_wf_gapped [OF A(1)] n by (intro tiled_gapped_single) (auto simp: ab_wf_def region_ok_def)
  then show ?thesis using A(2) by (simp add: fl_refines_def)
qed

subsection \<open>Round trip\<close>

text \<open>A block that touches neither neighbour is not merged.\<close>

lemma merges_gapped:
  assumes g: "gapped (xs @ (a, m) # ys)" and px: "all_below a xs" "all_above a ys"
  shows "merge_prev a (xs @ (a, m) # ys) = xs @ (a, m) # ys" "merge_next a (xs @ (a, m) # ys) = xs @ (a, m) # ys"
proof -
  have na: "a \<notin> fst ` set xs" "a \<notin> fst ` set ys" using px by (auto simp: all_below_def all_above_def)
  show "merge_prev a (xs @ (a, m) # ys) = xs @ (a, m) # ys"
  proof (cases xs rule: rev_cases)
    case Nil
    then show ?thesis using na(2) merge_prev_first by simp
  next
    case (snoc us w)
    obtain c l where w: "w = (c, l)" by (cases w) auto
    have "c + l < a" using g snoc w by (simp add: gapped_append)
    then show ?thesis using merge_prev_split [of a us c l m ys] na snoc w by auto
  qed
  show "merge_next a (xs @ (a, m) # ys) = xs @ (a, m) # ys"
  proof (cases ys)
    case (Cons w zs)
    obtain c k where w: "w = (c, k)" by (cases w) auto
    have "a + m < c" using g Cons w by (simp add: gapped_append)
    then show ?thesis using merge_next_split [OF na(1), of m ys] Cons w by simp
  qed (use merge_next_split [OF na(1), of m ys] in simp)
qed

subsection \<open>Round trips\<close>

lemma ab_count_bound:
  assumes "ab_count A < 2 ^ 64"
  shows "ab_count (snd (ab_allocate b sz al A)) < 2 ^ 64" "ab_count (ab_deallocate p m A) < 2 ^ 64"
proof -
  have keep: "ab_count (ab_push i q B) = ab_count B" "ab_count (ab_insert q k B) = ab_count B"
    "ab_count (ab_padding q k B) = ab_count B" "ab_count (ab_remainder q k B) = ab_count B" for i q k B
    by (simp_all add: ab_push_def ab_insert_def ab_padding_def ab_remainder_def)
  have lt: "sub64 x y < 2 ^ 64" "add64 x y < 2 ^ 64" for x y by (simp_all add: sub64_def add64_def)
  show "ab_count (snd (ab_allocate b sz al A)) < 2 ^ 64"
    using assms lt by (auto simp: ab_allocate_def ab_carve_def Let_def keep split: option.splits)
  have mg: "ab_count (ab_merge f B) < 2 ^ 64" if "ab_count B < 2 ^ 64" for f B
    using that lt by (auto simp: ab_merge_def)
  show "ab_count (ab_deallocate p m A) < 2 ^ 64" using lt mg by (simp add: ab_deallocate_def Let_def keep)
qed

lemma fl_blocks_bound: "fl_reach b n (s, L) \<Longrightarrow> fl_blocks s < 2 ^ 64"
proof (induction "(s, L)" arbitrary: s L rule: fl_reach.induct)
  case (reach_init nilp g s)
  then show ?case using fl_create_refines [OF reach_init(1), of g] by (auto simp: fl_refines_def ab_init_def)
next
  case (reach_step c s L)
  obtain s0 L0 where c: "c = (s0, L0)" by (cases c) auto
  have bound: "fl_blocks s0 < 2 ^ 64" using reach_step.hyps(2) [OF c] .
  have "fl_inv s0 L0" using fl_reach_inv reach_step.hyps(1) c by blast
  then obtain A where A: "ab_wf (fl_base s0) (fl_size s0) L0 A" "fl_refines (fl_base s0) (fl_size s0) s0 A" by (auto simp: fl_inv_def)
  then have cnt: "ab_count A < 2 ^ 64" using bound by (simp add: fl_refines_def)
  from reach_step.hyps(3) [unfolded c] show ?case
  proof (cases rule: fl_step.cases)
    case (step_alloc sz al r)
    then show ?thesis using allocate_refines [OF A, of sz al] ab_count_bound(1) [OF cnt, of "fl_base s0" sz al] by (auto simp: fl_refines_def)
  next
    case (step_fail sz al e)
    then show ?thesis using allocate_refines [OF A, of sz al] ab_count_bound(1) [OF cnt, of "fl_base s0" sz al] by (auto simp: fl_refines_def)
  next
    case (step_free p m res)
    then show ?thesis using deallocate_refines [OF A, of p m] ab_count_bound(2) [OF cnt, of p m] by (auto simp: fl_refines_def)
  qed
qed

lemma count64_back:
  assumes "c < 2 ^ 64"
  shows "add64 (sub64 c 1) 1 = c" "sub64 (add64 c 1) 1 = c"
proof -
  show "add64 (sub64 c 1) 1 = c" using assms by (cases "c = 0") (simp_all add: add64_def sub64_def mod_if, arith)
  show "sub64 (add64 c 1) 1 = c"
  proof (cases "c + 1 < 2 ^ 64")
    case False
    then have "c = 2 ^ 64 - 1" using assms by simp
    then show ?thesis by (simp add: add64_def sub64_def)
  qed simp
qed

lemma ab_round_trip:
  assumes wf: "ab_wf b n L A" and t: "ab_tree A = xs @ (a, m) # ys" and isz: "128 < isz" "isz \<le> m"
    and r: "m - isz = 0 \<or> 48 \<le> m - isz" and c: "ab_count A < 2 ^ 64"
  shows "ab_tree (ab_deallocate a isz (ab_carve isz a a m A)) = ab_tree A \<and>
    ab_small (ab_deallocate a isz (ab_carve isz a a m A)) = ab_small A \<and>
    ab_count (ab_deallocate a isz (ab_carve isz a a m A)) = ab_count A"
proof -
  have srt: "sorted_wrt (<) (map fst (xs @ (a, m) # ys))" using wf t by (simp add: ab_wf_def)
  have f: "filter (\<lambda>x. fst x \<noteq> a) (ab_tree A) = xs @ ys" using filter_split [OF srt] t by simp
  have g: "gapped (xs @ (a, m) # ys)" using ab_wf_gapped [OF wf] t by simp
  have px: "all_below a xs" "all_above a ys"
    using srt by (auto simp: sorted_wrt_append all_below_def all_above_def)
  then have na: "a \<notin> fst ` set xs" by (auto simp: all_below_def)
  note mp = merges_gapped(1) [OF g px]
  have small: "ab_small (ab_deallocate a isz (ab_carve isz a a m A)) = ab_small A"
    using isz r by (auto simp: ab_deallocate_def ab_carve_def ab_merge_def ab_padding_def ab_remainder_def
        ab_insert_def Let_def)
  note cnt = count64_back [OF c]
  show ?thesis
  proof (cases "m = isz")
    case True
    have "insort_key fst (a, m) (xs @ ys) = xs @ (a, m) # ys" by (rule insort_middle [OF px])
    then show ?thesis using True small merges_gapped(2) [OF g px] f mp t isz cnt(1)
      by (simp add: ab_deallocate_def ab_carve_def ab_merge_def ab_padding_def ab_remainder_def ab_insert_def Let_def)
  next
    case False
    let ?r = "(a + isz, m - isz)"
    have ym: "a + m < fst y" if "y \<in> set ys" for y using g that by (auto simp: gapped_append)
    have "all_below (a + isz) xs" "all_above (a + isz) ys"
      using px isz ym by (fastforce simp: all_below_def all_above_def)+
    then have i1: "insort_key fst ?r (xs @ ys) = xs @ ?r # ys" by (rule insort_middle)
    have "all_above a (?r # ys)" using px isz by simp
    then have i2: "insort_key fst (a, isz) (xs @ ?r # ys) = xs @ (a, isz) # ?r # ys"
      by (rule insort_middle [OF px(1)])
    have "merge_next a (xs @ (a, isz) # ?r # ys) = xs @ (a, m) # ys"
      using merge_next_split [OF na, of isz "?r # ys"] isz by simp
    then show ?thesis using False small f mp t isz r i1 i2 cnt(2)
      by (simp add: ab_deallocate_def ab_carve_def ab_merge_def ab_padding_def ab_remainder_def ab_insert_def Let_def)
  qed
qed

text \<open>
  The requests whose region goes back where it came from: those a small list serves, and those above 128 bytes, with no
  alignment above 16, whose block leaves no remainder or one the tree keeps.
\<close>

definition restores :: "fl_state \<Rightarrow> size_t \<Rightarrow> size_t \<Rightarrow> (addr \<times> size_t) list \<Rightarrow> bool" where
  "restores s sz al bs \<longleftrightarrow> (let isz = internal_size_of sz in
     if no_small s isz then al \<le> 16 \<and> 128 < isz \<and>
       (case find (ab_fits isz 16) bs of None \<Rightarrow> False | Some (a, m) \<Rightarrow> m = isz \<or> isz + 48 \<le> m)
     else True)"

lemma ab_round_trip_small:
  assumes "isz \<le> 128" "ab_small A ! (isz div 16 - 1) \<noteq> []" "internal_size_of sz = isz" "ab_allocate b sz al A = (Inr r, A1)"
    "length (ab_small A) = 8" "0 < isz" "isz mod 16 = 0" "ab_count A < 2 ^ 64"
  shows "ab_tree (ab_deallocate (res_ptr r) isz A1) = ab_tree A \<and> ab_small (ab_deallocate (res_ptr r) isz A1) = ab_small A \<and>
    ab_count (ab_deallocate (res_ptr r) isz A1) = ab_count A"
proof -
  have i: "isz div 16 - 1 < 8" using class_of_bounds [of isz] assms by (simp add: class_of_def)
  show ?thesis using assms i count64_back(1) [OF assms(8)]
    by (cases "ab_small A ! (isz div 16 - 1)") (auto simp: ab_allocate_def ab_deallocate_def ab_push_def Let_def list_update_same_conv)
qed

lemma chain_head: "chain nx p as \<Longrightarrow> p = (case as of [] \<Rightarrow> 0 | a # _ \<Rightarrow> a)"
  by (cases as) auto

lemma refines_heads:
  assumes "fl_refines b n s A" "fl_refines b n s' A'" "ab_small A' = ab_small A"
  shows "fl_lists s' = fl_lists s"
proof (rule nth_equalityI)
  show "length (fl_lists s') = length (fl_lists s)" using assms(1,2) by (simp add: fl_refines_def)
  fix i assume "i < length (fl_lists s')"
  then have "i < 8" using assms(2) by (simp add: fl_refines_def)
  then have "chain (fl_next s) (fl_lists s ! i) (ab_small A ! i)" "chain (fl_next s') (fl_lists s' ! i) (ab_small A ! i)"
    using assms by (auto simp: fl_refines_def)
  from this [THEN chain_head] show "fl_lists s' ! i = fl_lists s ! i" by simp
qed

lemma refines_no_small:
  assumes "fl_refines b n s A" "ab_small A = replicate 8 []"
  shows "fl_lists s = replicate 8 0"
proof (rule nth_equalityI)
  show "length (fl_lists s) = length (replicate 8 0)" using assms(1) by (simp add: fl_refines_def)
  fix i assume "i < length (fl_lists s)"
  then have i: "i < 8" using assms(1) by (simp add: fl_refines_def)
  then have "chain (fl_next s) (fl_lists s ! i) []" using assms by (auto simp: fl_refines_def dest!: spec)
  then show "fl_lists s ! i = replicate 8 0 ! i" using i by simp
qed

lemma fl_reach_size: "fl_reach b n c \<Longrightarrow> 0 < n"
  by (induction rule: fl_reach.induct) (auto simp: create_ok_def)

lemma ab_round_trip_all:
  assumes wf: "ab_wf b n L A" and R: "fl_refines b n s A" and c: "ab_count A < 2 ^ 64"
    and sz: "sz \<le> 2 ^ 64 - 16" and al: "ab_allocate b sz al A = (Inr r, A1)" and ok: "restores s sz al (ab_tree A)"
  shows "ab_tree (ab_deallocate (res_ptr r) (internal_size_of sz) A1) = ab_tree A \<and>
    ab_small (ab_deallocate (res_ptr r) (internal_size_of sz) A1) = ab_small A \<and>
    ab_count (ab_deallocate (res_ptr r) (internal_size_of sz) A1) = ab_count A"
proof -
  define isz where "isz = internal_size_of sz"
  note I = internal_size_bounds [OF sz, folded isz_def] and ns = no_small_refines [OF wf R sz, folded isz_def]
  show ?thesis
  proof (cases "no_small s isz")
    case True
    obtain a m where f: "find (ab_fits isz 16) (ab_tree A) = Some (a, m)" and big: "128 < isz" "al \<le> 16" "m = isz \<or> isz + 48 \<le> m"
      using ok True by (auto simp: restores_def isz_def Let_def split: option.splits)
    have mx: "max al 16 = 16" using big by (simp add: max_def)
    obtain xs ys where t: "ab_tree A = xs @ (a, m) # ys" using find_split [OF f] by blast
    have "a mod 16 = 0" using ab_wf_region(1) [OF wf, of a m] t by (simp add: ab_regions_def)
    then have a: "align_up 16 a = a" by (auto simp: align_up_def mod_eq_0_iff_dvd elim!: dvdE)
    have "ab_allocate b sz al A = (Inr \<lparr>res_ptr = a, res_offset = a - b, res_actual_size = isz\<rparr>, ab_carve isz a a m A)"
      using ab_allocate_slow [of sz A b al] big(1) f a by (simp add: mx isz_def)
    then have "res_ptr r = a" "A1 = ab_carve isz a a m A" using al by auto
    then show ?thesis using ab_round_trip [OF wf t big(1) _ _ c] big(3) by (auto simp: isz_def)
  next
    case False
    then have "isz \<le> 128" "ab_small A ! (isz div 16 - 1) \<noteq> []" using ns by auto
    from ab_round_trip_small [OF this isz_def [symmetric] al _ _ I(1) c] show ?thesis using wf I(2) by (simp add: isz_def ab_wf_def)
  qed
qed

lemma round_trip_at:
  assumes r: "fl_reach b n (s, L)" and sz: "sz \<le> 2 ^ 64 - 16" and al: "align_ok al"
    and t: "fl_tree s bs" and a: "allocate s sz al = Some (Inr r, s1)"
  shows "\<exists>s2. deallocate s1 (res_ptr r) (res_actual_size r) = Some (Inr (), s2) \<and> fl_reach b n (s2, L) \<and>
     bytes_allocated s2 = bytes_allocated s \<and>
     (restores s sz al bs \<longrightarrow> fl_tree s2 bs \<and> fl_lists s2 = fl_lists s \<and> free_block_count s2 = free_block_count s)"
proof -
  have i: "fl_inv s L" "fl_base s = b" "fl_size s = n" using fl_reach_inv [OF r] by auto
  obtain A where wf: "ab_wf b n L A" and R: "fl_refines b n s A" using i by (auto simp: fl_inv_def)
  have bs: "ab_tree A = bs" using R t fl_tree_unique by (auto simp: fl_refines_def)
  have c: "ab_count A < 2 ^ 64" using fl_blocks_bound [OF r] R by (simp add: fl_refines_def)
  obtain A1 where A1: "ab_allocate b sz al A = (Inr r, A1)"
    using allocate_refines [OF wf R sz al] a by (cases "ab_allocate b sz al A") auto
  from reach_alloc [OF r wf R sz al A1] a have s1: "fl_reach b n (s1, (res_ptr r, res_actual_size r) # L)"
    "ab_wf b n ((res_ptr r, res_actual_size r) # L) A1" "fl_refines b n s1 A1" by auto
  obtain s2 where s2: "deallocate s1 (res_ptr r) (res_actual_size r) = Some (Inr (), s2)" "fl_reach b n (s2, L)"
    "fl_refines b n s2 (ab_deallocate (res_ptr r) (res_actual_size r) A1)" using reach_free [OF s1, of "res_ptr r" "res_actual_size r"] by auto
  have "fl_tree s2 bs \<and> fl_lists s2 = fl_lists s \<and> free_block_count s2 = free_block_count s" if "restores s sz al bs"
  proof -
    note rt = ab_round_trip_all [OF wf R c sz A1 that [folded bs], folded allocate_result(2) [OF i(1) sz al a]]
    show ?thesis using refines_heads [OF R s2(3)] rt s2(3) R bs by (auto simp: fl_refines_def free_block_count_def)
  qed
  moreover have "bytes_allocated s2 = bytes_allocated s"
    using fl_inv_accounting(1) fl_reach_inv [OF r] fl_reach_inv [OF s2(2)] by metis
  ultimately show ?thesis using s2(1,2) by blast
qed

subsection \<open>The block counter\<close>

lemma length_regions: "length (ab_regions A) = length (ab_tree A) + sum_list (map length (ab_small A))"
  by (simp add: ab_regions_def length_class_regions)

lemma sum_list_push: "i < length cs \<Longrightarrow> sum_list (map length (cs[i := p # cs ! i])) = Suc (sum_list (map length cs))"
  by (induction cs arbitrary: i) (auto split: nat.splits)

lemma sum_list_pop:
  "i < length cs \<Longrightarrow> cs ! i = p # q \<Longrightarrow> sum_list (map length cs) = Suc (sum_list (map length (cs[i := q])))"
  by (induction cs arbitrary: i) (auto split: nat.splits)

lemma length_push:
  "length (ab_small A) = 8 \<Longrightarrow> i < 8 \<Longrightarrow> length (ab_regions (ab_push i p A)) = Suc (length (ab_regions A))"
  by (simp add: length_regions ab_push_def sum_list_push)

lemma length_insert: "length (ab_regions (ab_insert p m A)) = Suc (length (ab_regions A))"
  by (simp add: length_regions ab_insert_def)

lemma length_remainder:
  "length (ab_small A) = 8 \<Longrightarrow>
   length (ab_regions (ab_remainder p m A)) = length (ab_regions A) + (if m < 16 then 0 else 1)"
  using length_push [of A "m div 16 - 1" p] by (auto simp: ab_remainder_def length_insert)

lemma length_le_bytes: "\<forall>x \<in> set xs. 0 < snd x \<Longrightarrow> length xs \<le> bytes xs"
  by (induction xs) (auto simp: bytes_def)

lemma ab_wf_length: "ab_wf b n L A \<Longrightarrow> length (ab_regions A @ L) \<le> n"
  using length_le_bytes [of "ab_regions A @ L"] tiled_bytes [of b n "ab_regions A @ L"]
  by (auto simp: ab_wf_def region_ok_def)

lemma ab_allocate_exact:
  assumes wf: "ab_wf b n L A" and ex: "ab_exact A" and sz: "sz \<le> 2 ^ 64 - 16" and al: "al \<le> 16"
  shows "ab_exact (snd (ab_allocate b sz al A))"
proof -
  define isz where "isz = internal_size_of sz"
  define i where "i = isz div 16 - 1"
  note I = internal_size_bounds [OF sz, folded isz_def]
  have len: "length (ab_regions A) \<le> n" "n \<le> 2 ^ 30" "length (ab_small A) = 8"
    using ab_wf_length [OF wf] wf by (auto simp: ab_wf_def arena_ok_def)
  have dec: "sub64 (ab_count A) 1 = k" if "length (ab_regions A) = Suc k" for k
    using ex len that by (simp add: ab_exact_def)
  show ?thesis
  proof (cases "isz \<le> 128 \<and> ab_small A ! i \<noteq> []")
    case True
    then obtain p ps where p: "ab_small A ! i = p # ps" by (cases "ab_small A ! i") auto
    have "i < 8" using class_of_bounds [of isz] I(1,2) True by (auto simp: i_def class_of_def)
    then have "length (ab_regions A) = Suc (length (ab_regions (A\<lparr>ab_small := (ab_small A)[i := ps]\<rparr>)))"
      using sum_list_pop [of i "ab_small A" p ps] p len(3) by (simp add: length_regions)
    from dec [OF this] show ?thesis
      using True p by (simp add: ab_exact_def ab_allocate_def Let_def isz_def [symmetric] i_def [symmetric] length_regions
          del: One_nat_def)
  next
    case False
    have mx: "max al 16 = 16" using al by (simp add: max_def)
    have S: "ab_allocate b sz al A = (case find (ab_fits isz 16) (ab_tree A) of None \<Rightarrow> (Inl OutOfMemory, A)
       | Some (a, m) \<Rightarrow> (Inr \<lparr>res_ptr = align_up 16 a, res_offset = align_up 16 a - b, res_actual_size = isz\<rparr>,
           ab_carve isz (align_up 16 a) a m A))"
      using ab_allocate_slow [of sz A b al] False unfolding mx isz_def i_def by simp
    show ?thesis
    proof (cases "find (ab_fits isz 16) (ab_tree A)")
      case None
      then show ?thesis using S ex by simp
    next
      case (Some x)
      obtain a m where x: "x = (a, m)" by (cases x) auto
      obtain xs ys where t: "ab_tree A = xs @ (a, m) # ys" using find_split [OF Some] x by blast
      have "a mod 16 = 0" using ab_wf_region(1) [OF wf, of a m] t by (simp add: ab_regions_def)
      then have a: "align_up 16 a = a" by (auto simp: align_up_def mod_eq_0_iff_dvd elim!: dvdE)
      let ?A0 = "A\<lparr>ab_tree := xs @ ys\<rparr>" and ?r = "m - isz"
      have C: "ab_carve isz a a m A = (let B = ab_remainder (a + isz) ?r ?A0 in
         B\<lparr>ab_used := ab_used B + isz, ab_count := (if ?r < 16 then sub64 (ab_count B) 1 else ab_count B)\<rparr>)"
        using filter_split [of xs a m ys] wf t by (simp add: ab_wf_def ab_carve_def ab_padding_def Let_def)
      have l0: "length (ab_regions A) = Suc (length (ab_regions ?A0))" by (simp add: length_regions t)
      have "ab_exact (ab_carve isz a a m A)"
        using length_remainder [of ?A0 "a + isz" ?r] len(3) l0 ex dec [OF l0]
        unfolding C Let_def ab_exact_def by (auto simp: length_regions)
      then show ?thesis using S Some x a by simp
    qed
  qed
qed

lemma ab_deallocate_exact:
  assumes wf: "ab_wf b n L A" and ex: "ab_exact A" and p: "(p, m) \<in> set L"
  shows "ab_exact (ab_deallocate p m A)"
proof -
  have "0 < length L" using p by (auto dest: length_pos_if_in_set)
  then have len0: "length (ab_regions A) < n" using ab_wf_length [OF wf] by (simp del: length_greater_0_conv)
  have len: "length (ab_regions A) < n" "n \<le> 2 ^ 30" "length (ab_small A) = 8"
    using len0 wf by (auto simp: ab_wf_def arena_ok_def)
  let ?A = "A\<lparr>ab_used := ab_used A - m, ab_count := add64 (ab_count A) 1\<rparr>"
  have inc: "ab_count ?A = Suc (length (ab_regions A))" using ex len by (simp add: ab_exact_def)
  have same: "length (ab_regions ?A) = length (ab_regions A)" "length (ab_small ?A) = 8"
    using len(3) by (simp_all add: length_regions)
  have merge: "ab_exact (ab_merge f B)"
    if "ab_exact B" "length (ab_regions B) \<le> n" "length (f (ab_tree B)) = length (ab_tree B) \<or> Suc (length (f (ab_tree B))) = length (ab_tree B)"
    for f B using that len by (auto simp: ab_exact_def ab_merge_def length_regions)
  have ml: "length (merge_next p bs) = length bs \<or> Suc (length (merge_next p bs)) = length bs" for bs
    by (induction p bs rule: merge_next.induct) auto
  have mp: "length (merge_prev p bs) = length bs \<or> Suc (length (merge_prev p bs)) = length bs" for bs
    by (induction p bs rule: merge_prev.induct) auto
  have P: "m mod 16 = 0" "0 < m" using ab_wf_region [OF wf, of p m] p by auto
  show ?thesis
  proof (cases "m \<le> 128")
    case True
    then have "m div 16 - 1 < 8" using class_of_bounds [OF P] by (simp add: class_of_def)
    then show ?thesis using True inc same length_push [of ?A "m div 16 - 1" p]
      by (simp add: ab_deallocate_def ab_exact_def)
  next
    case False
    let ?B = "ab_insert p m ?A"
    have B: "ab_exact ?B" "length (ab_regions ?B) \<le> n"
      using inc same len(1) by (simp_all add: ab_exact_def length_insert)
    have B1: "ab_exact (ab_merge (merge_next p) ?B)" using merge [of ?B "merge_next p"] B ml by blast
    moreover have "length (ab_regions (ab_merge (merge_next p) ?B)) \<le> n"
      using B(2) ml [of "ab_tree ?B"] by (auto simp: ab_merge_def length_regions)
    ultimately have "ab_exact (ab_merge (merge_prev p) (ab_merge (merge_next p) ?B))"
      using merge [of "ab_merge (merge_next p) ?B" "merge_prev p"] mp by blast
    then show ?thesis using False by (simp add: ab_deallocate_def)
  qed
qed

subsection \<open>The height of the tree\<close>

fun height :: "rbt \<Rightarrow> nat" where
  "height Lf = 0"
| "height (Nd c l a s x r) = Suc (max (height l) (height r))"

lemma bh_blocks: "invh t \<Longrightarrow> 2 ^ bh t \<le> Suc (length (blocks t))"
  by (induction t) auto

lemma height_bh: "invc t \<Longrightarrow> invh t \<Longrightarrow> height t \<le> 2 * bh t + (if rc t = Red then 1 else 0)"
proof (induction t)
  case (Nd c l a s x r)
  then show ?case by (cases c; cases "rc l"; cases "rc r") auto
qed simp

lemma height_bound:
  assumes "rbt_ok T"
  shows "2 ^ height T \<le> (Suc (length (blocks T))) ^ 2"
proof -
  have "height T \<le> 2 * bh T" using assms height_bh [of T] by (simp add: rbt_ok_def)
  then have "(2 :: nat) ^ height T \<le> 2 ^ (2 * bh T)" by (rule power_increasing) simp
  also have "\<dots> = (2 ^ bh T) ^ 2" by (simp add: power_mult [symmetric] mult.commute)
  also have "\<dots> \<le> (Suc (length (blocks T))) ^ 2"
    using assms bh_blocks [of T] by (intro power_mono) (auto simp: rbt_ok_def)
  finally show ?thesis .
qed

end
