(* ===== verification/Allocator_Theorems.thy ===== *)
theory Allocator_Theorems
  imports Free_List_Props
begin

text \<open>
  The theorems on the free-list allocator, each over the pointer program of \<open>free_list.cpp\<close>, with
  witnesses on an arena of 64 KiB at address 4096. \<open>fl_reach b n (s, L)\<close> says that an allocator
  constructed on the \<open>n\<close> bytes at \<open>b\<close> can get into state \<open>s\<close> while its clients hold the regions \<open>L\<close>.
\<close>

subsection \<open>A concrete arena for the witnesses\<close>

lemma demo_create_ok: "create_ok 64 4096 65536"
  by (simp add: create_ok_def arena_ok_def)

lemma demo_fresh:
  "\<exists>s. fl_create 64 zero_log 4096 65536 = Some s \<and> fl_reach 4096 65536 (s, []) \<and>
     ab_wf 4096 65536 [] (ab_init 4096 65536) \<and> fl_refines 4096 65536 s (ab_init 4096 65536)"
  using fl_create_refines [OF demo_create_ok] reach_init [OF demo_create_ok] ab_init_wf [OF demo_create_ok] by blast

lemma demo_alloc:
  "ab_allocate 4096 256 16 (ab_init 4096 65536) =
     (Inr \<lparr>res_ptr = 4096, res_offset = 0, res_actual_size = 256\<rparr>,
      \<lparr>ab_tree = [(4352, 65280)], ab_small = replicate 8 [], ab_used = 256, ab_count = 1\<rparr>)"
  "ab_allocate 4096 500 64 \<lparr>ab_tree = [(4352, 65280)], ab_small = replicate 8 [], ab_used = 256, ab_count = 1\<rparr> =
     (Inr \<lparr>res_ptr = 4352, res_offset = 256, res_actual_size = 512\<rparr>,
      \<lparr>ab_tree = [(4864, 64768)], ab_small = replicate 8 [], ab_used = 768, ab_count = 1\<rparr>)"
  by (simp_all add: ab_allocate_def ab_init_def internal_size_eq max_def ab_fits_def align_up_def ab_carve_def
      ab_padding_def ab_remainder_def ab_insert_def)

lemma align_ok_64: "align_ok 64"
  using has_single_bit_power [of 6] by (simp add: align_ok_def)

lemma demo_held:
  "\<exists>s A. fl_reach 4096 65536 (s, [(4096, 256)]) \<and> ab_wf 4096 65536 [(4096, 256)] A \<and>
     fl_refines 4096 65536 s A \<and>
     A = \<lparr>ab_tree = [(4352, 65280)], ab_small = replicate 8 [], ab_used = 256, ab_count = 1\<rparr>"
proof -
  obtain s where s: "fl_reach 4096 65536 (s, [])" "ab_wf 4096 65536 [] (ab_init 4096 65536)"
    "fl_refines 4096 65536 s (ab_init 4096 65536)" using demo_fresh by blast
  from reach_alloc [OF s _ _ demo_alloc(1)] show ?thesis by (auto simp: align_ok_def)
qed

lemma demo_step: "\<exists>s r s'. fl_reach 4096 65536 (s, [(4096, 256)]) \<and> allocate s 500 64 = Some (Inr r, s')"
proof -
  obtain s A where s: "fl_reach 4096 65536 (s, [(4096, 256)])" "ab_wf 4096 65536 [(4096, 256)] A" "fl_refines 4096 65536 s A"
    and A: "A = \<lparr>ab_tree = [(4352, 65280)], ab_small = replicate 8 [], ab_used = 256, ab_count = 1\<rparr>" using demo_held by blast
  then show ?thesis using allocate_refines [OF s(2,3) _ align_ok_64, of 500] demo_alloc(2) by auto
qed

lemma demo_two:
  "\<exists>s A. fl_reach 4096 65536 (s, [(4352, 512), (4096, 256)]) \<and>
     ab_wf 4096 65536 [(4352, 512), (4096, 256)] A \<and> fl_refines 4096 65536 s A \<and>
     A = \<lparr>ab_tree = [(4864, 64768)], ab_small = replicate 8 [], ab_used = 768, ab_count = 1\<rparr>"
proof -
  obtain s A where s: "fl_reach 4096 65536 (s, [(4096, 256)])" "ab_wf 4096 65536 [(4096, 256)] A"
    "fl_refines 4096 65536 s A"
    and A: "A = \<lparr>ab_tree = [(4352, 65280)], ab_small = replicate 8 [], ab_used = 256, ab_count = 1\<rparr>"
    using demo_held by blast
  from reach_alloc [OF s _ align_ok_64, of 500] demo_alloc(2) A show ?thesis by auto
qed

subsection \<open>Safety of the two operations\<close>

text \<open>C1. In every reachable state \<open>allocate\<close> returns, for every size up to \<open>2 ^ 64 - 16\<close> and every alignment that is a power of
  two or at most 16. It either reports \<open>OutOfMemory\<close> and leaves the state alone, or hands out a region that is large enough,
  inside the arena and disjoint from every region a client still holds; the new state is reachable again. The
  region is always 16-byte aligned. The requested alignment is met when the region comes from the tree; when the small list of its
  size class is not empty the region is the head of that list, whatever alignment was requested.\<close>

theorem allocate_safe:
  assumes "fl_reach b n (s, L)" "sz \<le> 2 ^ 64 - 16" "align_ok al"
  shows "allocate s sz al = Some (Inl OutOfMemory, s) \<or>
    (\<exists>r s'. allocate s sz al = Some (Inr r, s') \<and> sz \<le> res_actual_size r \<and> res_ptr r mod 16 = 0 \<and>
       b \<le> res_ptr r \<and> res_ptr r + res_actual_size r \<le> b + n \<and> res_offset r = res_ptr r - b \<and>
       list_all (\<lambda>(c, k). res_ptr r + res_actual_size r \<le> c \<or> c + k \<le> res_ptr r) L \<and>
       (if no_small s (internal_size_of sz) then has_single_bit al \<longrightarrow> res_ptr r mod al = 0
        else res_ptr r = fl_lists s ! (internal_size_of sz div 16 - 1)) \<and>
       fl_reach b n (s', (res_ptr r, res_actual_size r) # L))"
proof -
  have inv: "fl_inv s L" "fl_base s = b" "fl_size s = n" using fl_reach_inv [OF assms(1)] by auto
  obtain res s' where a: "allocate s sz al = Some (res, s')"
    "case res of Inl e \<Rightarrow> e = OutOfMemory \<and> s' = s
      | Inr r \<Rightarrow> fl_inv s' ((res_ptr r, res_actual_size r) # L) \<and> fl_base s' = fl_base s \<and> fl_size s' = fl_size s"
    using allocate_inv [OF inv(1) assms(2,3)] by blast
  show ?thesis
  proof (cases res)
    case (Inl e)
    then show ?thesis using a by simp
  next
    case (Inr r)
    have i: "fl_inv s' ([] @ (res_ptr r, res_actual_size r) # L)" "fl_base s' = b" "fl_size s' = n"
      using a(2) Inr inv by auto
    have o: "res_offset r = res_ptr r - b" "res_actual_size r = internal_size_of sz"
      using allocate_result [OF inv(1) assms(2,3)] a(1) Inr inv(2) by auto
    have "list_all (\<lambda>(c, k). res_ptr r + res_actual_size r \<le> c \<or> c + k \<le> res_ptr r) L"
      using fl_inv_regions(5) [OF i(1) refl] by (auto simp: list_all_iff)
    moreover have "if no_small s (internal_size_of sz) then has_single_bit al \<longrightarrow> res_ptr r mod al = 0
        else res_ptr r = fl_lists s ! (internal_size_of sz div 16 - 1)"
      using allocate_aligned [OF inv(1) assms(2)] allocate_small_path [OF inv(1) assms(2,3)] a(1) Inr by auto
    ultimately show ?thesis
      using a(1) Inr o internal_size_bounds(3) [OF assms(2)] fl_inv_regions(1,3,4) [OF i(1) refl] i(2,3)
        reach_step [OF assms(1) step_alloc [OF assms(2,3)]] by auto
  qed
qed

theorem allocate_safe_witness:
  "\<exists>s r s'. fl_reach 4096 65536 (s, [(4096, 256)]) \<and> allocate s 500 64 = Some (Inr r, s') \<and>
     500 \<le> res_actual_size r \<and> res_ptr r mod 64 = 0 \<and> res_ptr r + res_actual_size r \<le> 69632 \<and>
     (res_ptr r + res_actual_size r \<le> 4096 \<or> 4352 \<le> res_ptr r)"
proof -
  obtain s r s' where s: "fl_reach 4096 65536 (s, [(4096, 256)])" "allocate s 500 64 = Some (Inr r, s')" using demo_step by blast
  have "no_small s (internal_size_of 500)" by (simp add: no_small_def internal_size_eq max_def)
  then show ?thesis using allocate_safe [OF s(1), of 500 64] align_ok_64 has_single_bit_power [of 6] s by auto
qed

text \<open>C4. Freeing a region a client holds, with the size \<open>allocate\<close> reported, always succeeds (no
  abort, no error), and the region is gone from the held ones in the new reachable state.\<close>

theorem deallocate_safe:
  assumes "fl_reach b n (s, L)" "(p, m) \<in> set L"
  shows "\<exists>s'. deallocate s p m = Some (Inr (), s') \<and> fl_reach b n (s', remove1 (p, m) L)"
proof -
  obtain s' where "deallocate s p m = Some (Inr (), s')"
    using deallocate_inv [of s L p m] fl_reach_inv [OF assms(1)] assms(2) by blast
  then show ?thesis using reach_step [OF assms(1) step_free [OF assms(2)]] by auto
qed

theorem deallocate_safe_witness:
  "\<exists>s s'. fl_reach 4096 65536 (s, [(4096, 256)]) \<and> deallocate s 4096 256 = Some (Inr (), s') \<and>
     fl_reach 4096 65536 (s', [])"
proof -
  obtain s where s: "fl_reach 4096 65536 (s, [(4096, 256)])" using demo_held by blast
  then show ?thesis using deallocate_safe [OF s, of 4096 256] by auto
qed

text \<open>At any time two regions held by clients do not overlap, and each is 16-byte aligned, not
  empty and inside the arena.\<close>

lemma held_regions_disjoint:
  assumes "fl_reach b n (s, us @ (p, m) # vs)"
  shows "p mod 16 = 0 \<and> 0 < m \<and> b \<le> p \<and> p + m \<le> b + n \<and>
    list_all (\<lambda>(c, k). p + m \<le> c \<or> c + k \<le> p) (us @ vs)"
  using fl_inv_regions [of s "us @ (p, m) # vs" us p m vs] fl_reach_inv [OF assms]
  by (auto simp: list_all_iff)

text \<open>C22. The allocator never writes into memory a client holds: in a step that leaves a region with the
  client no node of the tree (48 bytes) or of a small list (8 bytes) that is new or changed overlaps the region.\<close>

theorem held_memory_untouched:
  assumes "fl_reach b n (s, L)" "fl_step (s, L) (s', L')" "(p, m) \<in> set L" "(p, m) \<in> set L'"
  shows "(\<forall>q blk. fl_mem s' q = Some blk \<and> fl_mem s q \<noteq> Some blk \<longrightarrow> q + 48 \<le> p \<or> p + m \<le> q) \<and>
    (\<forall>q nx. fl_next s' q = Some nx \<and> fl_next s q \<noteq> Some nx \<longrightarrow> q + 8 \<le> p \<or> p + m \<le> q)"
proof -
  have inv: "fl_inv s L" using fl_reach_inv [OF assms(1)] by simp
  from assms(2) have "untouched (held L) s s' \<or> untouched (held L') s s'"
  proof (cases rule: fl_step.cases)
    case (step_alloc sz al r)
    then show ?thesis using allocate_inv [OF inv, of sz al] by (auto simp: spared_def intro: untouched_mono)
  next
    case (step_fail sz al e)
    then show ?thesis using allocate_inv [OF inv, of sz al] by auto
  next
    case (step_free c k res)
    then show ?thesis using deallocate_inv [OF inv, of c k] by (auto simp: spared_def intro: untouched_mono)
  qed
  moreover have "{p..<p + m} \<subseteq> held L" "{p..<p + m} \<subseteq> held L'" using assms(3,4) by (force simp: held_def)+
  ultimately have U: "untouched {p..<p + m} s s'" using untouched_mono by blast
  have "0 < m" using inv assms(3) by (metis fl_inv_regions(2) split_list)
  then show ?thesis using untouched_overlap [OF U] by blast
qed

theorem held_memory_untouched_witness:
  "\<exists>s r s'. fl_reach 4096 65536 (s, [(4096, 256)]) \<and> allocate s 500 64 = Some (Inr r, s') \<and>
     (\<forall>q blk. fl_mem s' q = Some blk \<and> fl_mem s q \<noteq> Some blk \<longrightarrow> q + 48 \<le> 4096 \<or> 4352 \<le> q)"
proof -
  obtain s r s' where s: "fl_reach 4096 65536 (s, [(4096, 256)])" "allocate s 500 64 = Some (Inr r, s')" using demo_step by blast
  show ?thesis using held_memory_untouched [OF s(1) step_alloc [OF _ align_ok_64 s(2)], of 4096 256] s by auto
qed

text \<open>The statistics are exact: the bytes reported as allocated are those of the held regions,
  and together with the bytes reported free they make up the capacity.\<close>

lemma accounting_exact:
  assumes "fl_reach b n (s, L)"
  shows "bytes_allocated s = sum_list (map snd L) \<and> bytes_allocated s + bytes_free s = capacity s \<and> capacity s = n"
  using fl_inv_accounting [of s L] fl_reach_inv [OF assms] by (auto simp: bytes_def capacity_def)

subsection \<open>Refinement of the abstract allocator\<close>

text \<open>C12. \<open>allocate\<close> implements the abstract allocator, whose state is an ordered list of free
  regions and eight lists of small ones: from related states it returns the abstract result and
  ends in a related state.\<close>

theorem allocate_implements_spec:
  assumes "ab_wf b n L A" "fl_refines b n s A" "sz \<le> 2 ^ 64 - 16" "align_ok al"
  shows "\<exists>s'. allocate s sz al = Some (fst (ab_allocate b sz al A), s') \<and>
    fl_refines b n s' (snd (ab_allocate b sz al A))"
  using allocate_refines [OF assms] by blast

theorem allocate_implements_spec_witness:
  "\<exists>s s'. fl_create 64 zero_log 4096 65536 = Some s \<and> fl_refines 4096 65536 s (ab_init 4096 65536) \<and>
     allocate s 256 16 = Some (Inr \<lparr>res_ptr = 4096, res_offset = 0, res_actual_size = 256\<rparr>, s') \<and>
     fl_refines 4096 65536 s'
       \<lparr>ab_tree = [(4352, 65280)], ab_small = replicate 8 [], ab_used = 256, ab_count = 1\<rparr>"
proof -
  obtain s where s: "fl_create 64 zero_log 4096 65536 = Some s" "ab_wf 4096 65536 [] (ab_init 4096 65536)"
    "fl_refines 4096 65536 s (ab_init 4096 65536)" using demo_fresh by blast
  then show ?thesis using allocate_implements_spec [OF s(2,3), of 256 16] by (auto simp: demo_alloc(1) align_ok_def)
qed

text \<open>C13. \<open>deallocate\<close> of a held region implements the abstract operation: the region joins its
  size class, or the ordered list with both adjacent free regions merged in.\<close>

theorem deallocate_implements_spec:
  assumes "ab_wf b n L A" "fl_refines b n s A" "(p, m) \<in> set L"
  shows "\<exists>s'. deallocate s p m = Some (Inr (), s') \<and> fl_refines b n s' (ab_deallocate p m A) \<and>
    ab_wf b n (remove1 (p, m) L) (ab_deallocate p m A)"
  using deallocate_refines [OF assms] ab_deallocate_wf [OF assms(1,3)] by blast

theorem deallocate_implements_spec_witness:
  "\<exists>s s'. fl_refines 4096 65536 s
       \<lparr>ab_tree = [(4864, 64768)], ab_small = replicate 8 [], ab_used = 768, ab_count = 1\<rparr> \<and>
     deallocate s 4352 512 = Some (Inr (), s') \<and>
     fl_refines 4096 65536 s'
       \<lparr>ab_tree = [(4352, 65280)], ab_small = replicate 8 [], ab_used = 256, ab_count = 1\<rparr>"
proof -
  let ?A = "\<lparr>ab_tree = [(4864, 64768)], ab_small = replicate 8 [], ab_used = 768, ab_count = 1\<rparr>"
  obtain s where s: "ab_wf 4096 65536 [(4352, 512), (4096, 256)] ?A" "fl_refines 4096 65536 s ?A"
    using demo_two by blast
  have "ab_deallocate 4352 512 ?A =
      \<lparr>ab_tree = [(4352, 65280)], ab_small = replicate 8 [], ab_used = 256, ab_count = 1\<rparr>"
    by (simp add: ab_deallocate_def ab_insert_def ab_merge_def)
  then show ?thesis using deallocate_implements_spec [OF s, of 4352 512] s(2) by auto
qed

subsection \<open>Placement\<close>

text \<open>When no segregated list serves the request, \<open>allocate\<close> is address-ordered first fit: it
  takes the first free block that holds the rounded size at the requested alignment and returns its
  first aligned address, and it reports \<open>OutOfMemory\<close> only when no block fits.\<close>

lemma allocate_first_fit:
  assumes "fl_reach b n (s, L)" "sz \<le> 2 ^ 64 - 16" "align_ok al" "fl_tree s bs" "no_small s (internal_size_of sz)"
  shows "\<exists>s'. allocate s sz al = Some (case find (ab_fits (internal_size_of sz) (max al 16)) bs of
      None \<Rightarrow> Inl OutOfMemory
    | Some (a, m) \<Rightarrow> Inr \<lparr>res_ptr = align_up (max al 16) a, res_offset = align_up (max al 16) a - b,
         res_actual_size = internal_size_of sz\<rparr>, s')"
  using allocate_tree_path [of s L sz al bs] fl_reach_inv [OF assms(1)] assms by auto

text \<open>C16. \<open>allocate\<close> fails exactly when the size class is empty (or the request is not small) and
  no block of the tree fits; otherwise it succeeds.\<close>

theorem allocate_fails_iff:
  assumes "fl_reach b n (s, L)" "sz \<le> 2 ^ 64 - 16" "align_ok al" "fl_tree s bs"
  shows "(\<exists>s'. allocate s sz al = Some (Inl OutOfMemory, s')) \<longleftrightarrow>
    no_small s (internal_size_of sz) \<and> filter (ab_fits (internal_size_of sz) (max al 16)) bs = []"
  using allocate_oom_iff [of s L sz al bs] fl_reach_inv [OF assms(1)] assms by (simp add: filter_empty_conv)

theorem allocate_fails_iff_witness:
  "\<exists>s s'. fl_reach 4096 65536 (s, [(4096, 256)]) \<and> fl_tree s [(4352, 65280)] \<and>
     allocate s 65536 16 = Some (Inl OutOfMemory, s')"
proof -
  obtain s A where s: "fl_reach 4096 65536 (s, [(4096, 256)])" "fl_refines 4096 65536 s A"
    "A = \<lparr>ab_tree = [(4352, 65280)], ab_small = replicate 8 [], ab_used = 256, ab_count = 1\<rparr>"
    using demo_held by blast
  have t: "fl_tree s [(4352, 65280)]" using s by (simp add: fl_refines_def)
  have "align_ok 16" "internal_size_of 65536 = 65536" by (simp_all add: align_ok_def internal_size_eq max_def)
  then show ?thesis using allocate_fails_iff [OF s(1) _ _ t, of 65536 16] s(1) t
    by (auto simp: no_small_def ab_fits_def max_def)
qed

text \<open>A block cut from the tree is aligned to any requested power of two; the segregated lists
  only give the 16-byte alignment.\<close>

lemma allocate_alignment:
  assumes "fl_reach b n (s, L)" "sz \<le> 2 ^ 64 - 16" "has_single_bit al"
    "allocate s sz al = Some (Inr r, s')" "no_small s (internal_size_of sz)"
  shows "res_ptr r mod al = 0"
  using allocate_aligned [of s L sz al r s'] fl_reach_inv [OF assms(1)] assms by blast

subsection \<open>Recovery and round trips\<close>

text \<open>C17. Coalescing is complete: once every region is free again and no block sits in a segregated
  list, the tree is the single block the constructor made.\<close>

theorem arena_fully_recovered:
  assumes "fl_reach b n (s, [])" "fl_lists s = replicate 8 0"
  shows "fl_tree s [(b, n)] \<and> bytes_free s = n"
proof -
  have i: "fl_inv s []" "fl_base s = b" "fl_size s = n" using fl_reach_inv [OF assms(1)] by auto
  have "0 < n" using assms(1) by (rule fl_reach_size)
  then show ?thesis using arena_recovered [OF i(1)] fl_inv_accounting [OF i(1)] i assms(2)
    by (simp add: bytes_def capacity_def)
qed

theorem arena_fully_recovered_witness:
  "\<exists>s s' s''. fl_reach 4096 65536 (s, [(4352, 512), (4096, 256)]) \<and> deallocate s 4096 256 = Some (Inr (), s') \<and>
     deallocate s' 4352 512 = Some (Inr (), s'') \<and> fl_tree s'' [(4096, 65536)] \<and> bytes_free s'' = 65536"
proof -
  let ?A = "\<lparr>ab_tree = [(4864, 64768)], ab_small = replicate 8 [], ab_used = 768, ab_count = 1\<rparr>"
  obtain s where s: "fl_reach 4096 65536 (s, [(4352, 512), (4096, 256)])"
    "ab_wf 4096 65536 [(4352, 512), (4096, 256)] ?A" "fl_refines 4096 65536 s ?A" using demo_two by blast
  obtain s' where s': "deallocate s 4096 256 = Some (Inr (), s')" "fl_reach 4096 65536 (s', [(4352, 512)])"
    "ab_wf 4096 65536 [(4352, 512)] (ab_deallocate 4096 256 ?A)" "fl_refines 4096 65536 s' (ab_deallocate 4096 256 ?A)"
    using reach_free [OF s, of 4096 256] by auto
  obtain s'' where s'': "deallocate s' 4352 512 = Some (Inr (), s'')" "fl_reach 4096 65536 (s'', [])"
    "fl_refines 4096 65536 s'' (ab_deallocate 4352 512 (ab_deallocate 4096 256 ?A))"
    using reach_free [OF s'(2-), of 4352 512] by auto
  have "ab_small (ab_deallocate 4352 512 (ab_deallocate 4096 256 ?A)) = replicate 8 []"
    by (simp add: ab_deallocate_def ab_insert_def ab_merge_def)
  then have "fl_lists s'' = replicate 8 0" using refines_no_small [OF s''(3)] by blast
  from arena_fully_recovered [OF s''(2) this] show ?thesis using s(1) s'(1) s''(1) by blast
qed

text \<open>C18. A successful \<open>allocate\<close> can always be undone by \<open>deallocate\<close> at the returned pointer and size, which
  succeeds and gives back the bytes. It also restores the free blocks, that is the tree, the heads of the segregated
  lists and \<open>free_block_count\<close>, when a segregated list served the request, or when the request is above 128 bytes with an
  alignment of at most 16 and its block leaves no remainder or one of at least 48 bytes. (A small request
  carved from the tree goes to its segregated list instead.)\<close>

theorem allocate_deallocate_roundtrip:
  assumes "fl_reach b n (s, L)" "sz \<le> 2 ^ 64 - 16" "align_ok al" "fl_tree s bs" "allocate s sz al = Some (Inr r, s1)"
  shows "\<exists>s2. deallocate s1 (res_ptr r) (res_actual_size r) = Some (Inr (), s2) \<and> fl_reach b n (s2, L) \<and>
     bytes_allocated s2 = bytes_allocated s \<and>
     (restores s sz al bs \<longrightarrow> fl_tree s2 bs \<and> fl_lists s2 = fl_lists s \<and> free_block_count s2 = free_block_count s)"
  by (rule round_trip_at [OF assms])

theorem allocate_deallocate_roundtrip_witness:
  "\<exists>s r s1 s2. fl_reach 4096 65536 (s, [(4096, 256)]) \<and> fl_tree s [(4352, 65280)] \<and> free_block_count s = 1 \<and>
     allocate s 500 16 = Some (Inr r, s1) \<and> deallocate s1 (res_ptr r) (res_actual_size r) = Some (Inr (), s2) \<and>
     fl_tree s2 [(4352, 65280)] \<and> free_block_count s2 = 1 \<and> bytes_allocated s2 = bytes_allocated s"
proof -
  obtain s A where s: "fl_reach 4096 65536 (s, [(4096, 256)])" "ab_wf 4096 65536 [(4096, 256)] A" "fl_refines 4096 65536 s A"
    and A: "A = \<lparr>ab_tree = [(4352, 65280)], ab_small = replicate 8 [], ab_used = 256, ab_count = 1\<rparr>" using demo_held by blast
  have al: "align_ok 16" by (simp add: align_ok_def)
  have i: "internal_size_of 500 = 512" by (simp add: internal_size_eq max_def)
  have t: "fl_tree s [(4352, 65280)]" "free_block_count s = 1" using s(3) A by (auto simp: fl_refines_def free_block_count_def)
  obtain r s1 where a: "allocate s 500 16 = Some (Inr r, s1)"
    using allocate_refines [OF s(2,3) _ al, of 500] A
    by (auto simp: ab_allocate_def i max_def ab_fits_def align_up_def)
  have "restores s 500 16 [(4352, 65280)]" by (simp add: restores_def i no_small_def ab_fits_def align_up_def)
  then show ?thesis using allocate_deallocate_roundtrip [OF s(1) _ al t(1) a] s(1) t a by auto
qed

text \<open>With alignments up to 16, \<open>free_block_count\<close> is exact: if it equals the number of free
  blocks in the tree and the lists it still does after \<open>allocate\<close>.\<close>

lemma block_count_exact:
  assumes "ab_wf b n L A" "fl_refines b n s A" "free_block_count s = length (ab_regions A)"
    "sz \<le> 2 ^ 64 - 16" "al \<le> 16"
  shows "\<exists>res s'. allocate s sz al = Some (res, s') \<and>
    free_block_count s' = length (ab_regions (snd (ab_allocate b sz al A)))"
proof -
  have ok: "align_ok al" using assms(5) by (simp add: align_ok_def)
  have ex: "ab_exact A" using assms(2,3) by (simp add: ab_exact_def fl_refines_def free_block_count_def)
  then show ?thesis using allocate_refines [OF assms(1,2,4) ok] ab_allocate_exact [OF assms(1) ex assms(4,5)]
    by (auto simp: ab_exact_def fl_refines_def free_block_count_def)
qed

text \<open>\<open>deallocate\<close> keeps \<open>free_block_count\<close> exact, whatever neighbours it merges.\<close>

lemma block_count_after_free:
  assumes "ab_wf b n L A" "fl_refines b n s A" "free_block_count s = length (ab_regions A)" "(p, m) \<in> set L"
  shows "\<exists>s'. deallocate s p m = Some (Inr (), s') \<and>
    free_block_count s' = length (ab_regions (ab_deallocate p m A))"
proof -
  have ex: "ab_exact A" using assms(2,3) by (simp add: ab_exact_def fl_refines_def free_block_count_def)
  then show ?thesis using deallocate_refines [OF assms(1,2,4)] ab_deallocate_exact [OF assms(1) ex assms(4)]
    by (auto simp: ab_exact_def fl_refines_def free_block_count_def)
qed

subsection \<open>The red-black tree of free blocks\<close>

text \<open>C14. \<open>insert_node\<close> returns and adds the block at its place in address order; the result is a
  red-black tree with correct subtree maxima, and nothing outside the nodes of the tree changes.\<close>

theorem insert_node_correct:
  assumes "tree_at s T" "rbt_ok T" "fl_mem s z = Some blk" "z \<noteq> fl_nil s" "z \<noteq> 0" "z \<notin> set (addrs T)"
    "z mod 16 = 0" "0 < bsize blk" "bsize blk \<le> 2 ^ 30"
  shows "\<exists>s' T'. insert_node s z = Some s' \<and> tree_at s' T' \<and> rbt_ok T' \<and>
     blocks T' = insort_key fst (z, bsize blk) (blocks T) \<and> fl_frame (insert z (set (addrs T))) s s'"
  by (rule insert_node_at [OF assms])

text \<open>A block of 256 bytes at 4096, not in the tree yet.\<close>

lemma demo_node:
  "\<exists>s blk. fl_tree s [(4352, 65280)] \<and> fl_mem s 4096 = Some blk \<and> bsize blk = 256 \<and> fl_nil s \<noteq> 4096"
proof -
  obtain s A where s: "fl_refines 4096 65536 s A"
    "A = \<lparr>ab_tree = [(4352, 65280)], ab_small = replicate 8 [], ab_used = 256, ab_count = 1\<rparr>"
    using demo_held by blast
  then have t: "fl_tree s [(4352, 65280)]" "fl_nil s \<noteq> 4096" by (auto simp: fl_refines_def)
  let ?b = "\<lparr>bsize = 256, parent = 0, left = 0, right = 0, subtree_max = 256, color = Red\<rparr>"
  have "fl_tree (s\<lparr>fl_mem := (fl_mem s)(4096 \<mapsto> ?b)\<rparr>) [(4352, 65280)]" by (rule fl_tree_upd) (use t in auto)
  then show ?thesis using t(2) by (intro exI [of _ "s\<lparr>fl_mem := (fl_mem s)(4096 \<mapsto> ?b)\<rparr>"] exI [of _ ?b]) simp
qed

theorem insert_node_correct_witness:
  "\<exists>s s' T'. insert_node s 4096 = Some s' \<and> tree_at s' T' \<and> rbt_ok T' \<and> blocks T' = [(4096, 256), (4352, 65280)]"
proof -
  obtain s blk T where s: "tree_at s T" "rbt_ok T" "blocks T = [(4352, 65280)]" "fl_mem s 4096 = Some blk"
    "bsize blk = 256" "fl_nil s \<noteq> 4096" using demo_node by (auto simp: fl_tree_def)
  then show ?thesis using insert_node_correct [OF s(1,2,4)] by (fastforce simp: addrs_blocks)
qed

text \<open>C15. \<open>delete_node\<close> returns and removes exactly the given block; the result is a red-black tree
  with correct subtree maxima, and nothing outside the nodes of the tree changes.\<close>

theorem delete_node_correct:
  assumes "tree_at s T" "rbt_ok T" "blocks T = xs @ (z, n) # ys"
  shows "\<exists>s' T'. delete_node s z = Some s' \<and> tree_at s' T' \<and> rbt_ok T' \<and> blocks T' = xs @ ys \<and>
    fl_frame (set (addrs T)) s s'"
proof -
  have "fl_tree s (xs @ (z, n) # ys)" using assms by (auto simp: fl_tree_def)
  from delete_keeps_node [OF this] obtain s' T' where "delete_node s z = Some s'" "tree_at s' T'" "rbt_ok T'"
    "blocks T' = xs @ ys" "fl_frame (fst ` set (xs @ (z, n) # ys)) s s'" by (auto simp: fl_tree_def)
  then show ?thesis using assms(3) by (auto simp: addrs_blocks image_Un)
qed

theorem delete_node_correct_witness:
  "\<exists>s s' T'. fl_tree s ([] @ (4096, 65536) # []) \<and> delete_node s 4096 = Some s' \<and> tree_at s' T' \<and> blocks T' = []"
proof -
  obtain s where "fl_refines 4096 65536 s (ab_init 4096 65536)" using demo_fresh by blast
  then have t: "fl_tree s ([] @ (4096, 65536) # [])" by (simp add: fl_refines_def ab_init_def)
  then obtain T where "tree_at s T" "rbt_ok T" "blocks T = [] @ (4096, 65536) # []" by (auto simp: fl_tree_def)
  from delete_node_correct [OF this] show ?thesis using t by auto
qed

text \<open>Deleting what was just inserted restores the set of blocks.\<close>

lemma insert_delete_roundtrip:
  assumes "fl_tree s bs" "rd bsize s z = Some n" "tree_admits s z n" "z \<notin> fst ` set bs"
  shows "\<exists>s1 s2. insert_node s z = Some s1 \<and> delete_node s1 z = Some s2 \<and> fl_tree s2 bs"
  by (rule tree.ins_del [OF assms])

text \<open>C19. The pruned search \<open>find_first_fit\<close> agrees with a linear scan: it returns the lowest block
  of at least the wanted size, and the sentinel when there is none.\<close>

theorem find_first_fit_correct:
  assumes "fl_tree s bs"
  shows "find_first_fit s n = Some (case find (\<lambda>b. n \<le> snd b) bs of None \<Rightarrow> fl_nil s | Some b \<Rightarrow> fst b)"
proof -
  have "first_fit nl n bs = (case find (\<lambda>b. n \<le> snd b) bs of None \<Rightarrow> nl | Some b \<Rightarrow> fst b)" for nl
    by (induction bs) (auto simp: first_fit_def first_addr_def)
  then show ?thesis using tree.fit_law [OF assms] by simp
qed

theorem find_first_fit_correct_witness:
  "\<exists>s. fl_tree s [(4352, 65280)] \<and> find_first_fit s 1000 = Some 4352 \<and> find_first_fit s 70000 = Some (fl_nil s)"
proof -
  obtain s where s: "fl_tree s [(4352, 65280)]" using demo_node by blast
  then show ?thesis using find_first_fit_correct [OF s, of 1000] find_first_fit_correct [OF s, of 70000] by auto
qed

text \<open>\<open>successor\<close> and \<open>predecessor\<close> return the neighbours of a block in address order, the
  sentinel at either end.\<close>

lemma neighbours_correct:
  assumes "fl_tree s (xs @ (z, n) # ys)"
  shows "successor s z = Some (if ys = [] then fl_nil s else fst (hd ys)) \<and>
    predecessor s z = Some (if xs = [] then fl_nil s else fst (last xs))"
  using tree.nxt_law [OF assms] tree.prv_law [OF assms]
  by (auto simp: first_addr_def last_addr_def split: list.splits)

text \<open>In every reachable state \<open>largest_free_block\<close> is the size of the largest block in the
  tree, 0 when the tree is empty.\<close>

lemma largest_free_block_correct:
  assumes "fl_reach b n (s, L)" "fl_tree s bs"
  shows "largest_free_block s = Some (if bs = [] then 0 else Max (snd ` set bs))"
proof -
  obtain T where T: "tree_at s T" "rbt_ok T" "blocks T = bs" using assms(2) by (auto simp: fl_tree_def)
  show ?thesis
  proof (cases T)
    case Lf
    then show ?thesis using T by (auto simp: largest_free_block_def tree_at_def)
  next
    case (Nd c l a m x r)
    then have "rd subtree_max s (fl_root s) = Some (tmax T)" "fl_root s \<noteq> fl_nil s" "bs \<noteq> []"
      using T by (auto simp: tree_at_def rd_def)
    moreover have "tmax T = Max (snd ` set (blocks T))" using tmax_Max [of T] T(2) Nd by (simp add: rbt_ok_def)
    ultimately show ?thesis using T(3) by (simp add: largest_free_block_def)
  qed
qed

text \<open>The self-check \<open>verify_tree\<close> never aborts in a reachable state.\<close>

lemma verify_tree_passes:
  assumes "fl_reach b n (s, L)"
  shows "verify_tree s (fl_root s) = Some ()"
proof -
  obtain A where A: "ab_wf b n L A" "fl_refines b n s A" using fl_reach_inv [OF assms] by (auto simp: fl_inv_def)
  have "\<forall>x \<in> set (ab_tree A). fst x mod 16 = 0" using A(1) by (auto simp: ab_wf_def ab_regions_def region_ok_def)
  then show ?thesis using A(2) fl_tree_verify by (auto simp: fl_refines_def)
qed

text \<open>C20. The tree stays balanced: in every reachable state its height is at most twice the binary
  logarithm of one more than the number of its blocks.\<close>

theorem tree_height_logarithmic:
  assumes "fl_reach b n (s, L)"
  shows "\<exists>T. tree_at s T \<and> fl_tree s (blocks T) \<and> 2 ^ height T \<le> (length (blocks T) + 1) ^ 2"
proof -
  obtain bs where "fl_tree s bs" using fl_reach_inv [OF assms] by (auto simp: fl_inv_def fl_refines_def)
  then show ?thesis using height_bound by (fastforce simp: fl_tree_def)
qed

theorem tree_height_logarithmic_witness:
  "\<exists>s T. fl_reach 4096 65536 (s, [(4096, 256)]) \<and> tree_at s T \<and> 2 ^ height T \<le> (length (blocks T) + 1) ^ 2"
  using demo_held tree_height_logarithmic by meson

subsection \<open>Errors\<close>

text \<open>Every argument \<open>deallocate\<close> does not accept: a null pointer is ignored, a pointer outside
  the arena gives \<open>BadPointer\<close>, a size below 16 or past the end aborts, a misaligned pointer gives
  \<open>InvalidAlignment\<close>; the state is unchanged whenever the call returns.\<close>

lemma deallocate_rejects:
  assumes "p = 0 \<or> p \<notin> {fl_base s..<fl_base s + fl_size s} \<or> m < 16 \<or> fl_base s + fl_size s < p + m \<or> p mod 16 \<noteq> 0"
  shows "deallocate s p m =
     (if p = 0 then Some (Inr (), s)
      else if p \<notin> {fl_base s..<fl_base s + fl_size s} then Some (Inl BadPointer, s)
      else if m < 16 \<or> fl_base s + fl_size s < p + m then None
      else Some (Inl InvalidAlignment, s))"
  using assms by (auto simp: deallocate_def fl_consts Let_def)

subsection \<open>Where the arithmetic wraps\<close>



text \<open>A padding gap is freed without counting it, so \<open>free_block_count\<close> drifts: after three
  allocations that use up the arena it has wrapped to \<open>2 ^ 64 - 1\<close>.\<close>

lemma block_count_underflows:
  "\<exists>s0 s1 s2 s3 r1 r2 r3. fl_create 64 zero_log 4112 8192 = Some s0 \<and>
     allocate s0 256 64 = Some (Inr r1, s1) \<and> allocate s1 48 16 = Some (Inr r2, s2) \<and>
     allocate s2 7888 16 = Some (Inr r3, s3) \<and> free_block_count s3 = 2 ^ 64 - 1"
proof -
  have ok: "create_ok 64 4112 8192" by (simp add: create_ok_def arena_ok_def)
  let ?e = "[[], [], [], [], [], [], [], []] :: addr list list"
  let ?A1 = "\<lparr>ab_tree = [(4416, 7888)], ab_small = [[], [], [4112], [], [], [], [], []], ab_used = 256, ab_count = 1\<rparr>"
  let ?A2 = "\<lparr>ab_tree = [(4416, 7888)], ab_small = ?e, ab_used = 304, ab_count = 0\<rparr>"
  let ?A3 = "\<lparr>ab_tree = [], ab_small = ?e, ab_used = 8192, ab_count = 2 ^ 64 - 1\<rparr>"
  note ab = ab_allocate_def ab_init_def internal_size_eq max_def ab_fits_def align_up_def ab_carve_def
      ab_padding_def ab_remainder_def ab_insert_def ab_push_def
  have e: "replicate 8 [] = ?e" by (simp add: numeral_eq_Suc)
  obtain s0 where s0: "fl_create 64 zero_log 4112 8192 = Some s0" "fl_refines 4112 8192 s0 (ab_init 4112 8192)"
    using fl_create_refines [OF ok] by blast
  note r0 = reach_init [OF ok s0(1)]
  have "ab_allocate 4112 256 64 (ab_init 4112 8192) =
      (Inr \<lparr>res_ptr = 4160, res_offset = 48, res_actual_size = 256\<rparr>, ?A1)" by (simp add: ab e)
  from reach_alloc [OF r0 ab_init_wf [OF ok] s0(2) _ align_ok_64 this] obtain s1 where s1:
    "allocate s0 256 64 = Some (Inr \<lparr>res_ptr = 4160, res_offset = 48, res_actual_size = 256\<rparr>, s1)"
    "fl_reach 4112 8192 (s1, [(4160, 256)])" "ab_wf 4112 8192 [(4160, 256)] ?A1" "fl_refines 4112 8192 s1 ?A1" by auto
  have "ab_allocate 4112 48 16 ?A1 = (Inr \<lparr>res_ptr = 4112, res_offset = 0, res_actual_size = 48\<rparr>, ?A2)"
    by (simp add: ab)
  from reach_alloc [OF s1(2-) _ _ this] obtain s2 where s2:
    "allocate s1 48 16 = Some (Inr \<lparr>res_ptr = 4112, res_offset = 0, res_actual_size = 48\<rparr>, s2)"
    "fl_reach 4112 8192 (s2, [(4112, 48), (4160, 256)])" "ab_wf 4112 8192 [(4112, 48), (4160, 256)] ?A2"
    "fl_refines 4112 8192 s2 ?A2" by (auto simp: align_ok_def)
  have "ab_allocate 4112 7888 16 ?A2 = (Inr \<lparr>res_ptr = 4416, res_offset = 304, res_actual_size = 7888\<rparr>, ?A3)"
    by (simp add: ab sub64_def)
  from reach_alloc [OF s2(2-) _ _ this] obtain s3 where s3:
    "allocate s2 7888 16 = Some (Inr \<lparr>res_ptr = 4416, res_offset = 304, res_actual_size = 7888\<rparr>, s3)"
    "fl_refines 4112 8192 s3 ?A3" by (auto simp: align_ok_def)
  then have "free_block_count s3 = 2 ^ 64 - 1" by (simp add: free_block_count_def fl_refines_def)
  with s0(1) s1(1) s2(1) s3(1) show ?thesis by blast
qed

end
