(* ===== verification/State_Types.thy ===== *)
theory State_Types
  imports Allocator_Theorems
begin

text \<open>
  The machine types of the state. The model keeps \<open>size_t\<close> values and addresses as natural numbers; here every
  reachable allocator is shown to hold only values of the machine types: 64-bit sizes and counters, and pointers
  that are null, the sentinel or 16-byte aligned addresses of its arena.
\<close>

text \<open>An address of a block that lies in the arena with its first \<open>m\<close> bytes.\<close>

definition block_ptr :: "fl_state \<Rightarrow> size_t \<Rightarrow> addr \<Rightarrow> bool" where
  "block_ptr s m p \<longleftrightarrow> fl_base s \<le> p \<and> p + m \<le> fl_base s + fl_size s \<and> p mod 16 = 0"

text \<open>
  The links of the node \<open>p\<close> of a tree with the blocks \<open>bs\<close>: a child is the sentinel or a node of the tree whose
  parent link is \<open>p\<close>; the parent is the sentinel at the root, and elsewhere a node of the tree that has \<open>p\<close> as a child.
\<close>

definition child_typed :: "fl_state \<Rightarrow> (addr \<times> size_t) list \<Rightarrow> addr \<Rightarrow> addr \<Rightarrow> bool" where
  "child_typed s bs p c \<longleftrightarrow> c = fl_nil s \<or> c \<in> fst ` set bs \<and> map_option parent (fl_mem s c) = Some p"

definition parent_typed :: "fl_state \<Rightarrow> (addr \<times> size_t) list \<Rightarrow> addr \<Rightarrow> addr \<Rightarrow> bool" where
  "parent_typed s bs p q \<longleftrightarrow>
     (if p = fl_root s then q = fl_nil s
      else q \<in> fst ` set bs \<and> (map_option left (fl_mem s q) = Some p \<or> map_option right (fl_mem s q) = Some p))"

definition node_typed :: "fl_state \<Rightarrow> (addr \<times> size_t) list \<Rightarrow> addr \<Rightarrow> FreeBlock \<Rightarrow> bool" where
  "node_typed s bs p b \<longleftrightarrow> block_ptr s (bsize b) p \<and> 48 \<le> bsize b \<and> bsize b mod 16 = 0 \<and>
     bsize b \<le> subtree_max b \<and> subtree_max b \<le> fl_size s \<and>
     child_typed s bs p (left b) \<and> child_typed s bs p (right b) \<and> parent_typed s bs p (parent b)"

definition fl_typed :: "fl_state \<Rightarrow> bool" where
  "fl_typed s \<longleftrightarrow> 0 < fl_base s \<and> fl_base s + fl_size s < 2 ^ 64 \<and> fl_allocated s \<le> fl_size s \<and> fl_blocks s < 2 ^ 64 \<and>
     length (fl_lists s) = kNumSmallClasses \<and>
     (\<forall>i < 8. fl_lists s ! i = nullptr \<or> block_ptr s (16 * Suc i) (fl_lists s ! i)) \<and>
     (fl_root s = fl_nil s \<or> block_ptr s 48 (fl_root s))"


subsection \<open>Tree nodes\<close>

lemma tmax_zero_or_mem: "mok t \<Longrightarrow> tmax t \<in> insert 0 (snd ` set (blocks t))"
  by (induction t) (auto simp: max_def)

lemma tmax_mem:
  assumes "mok t" "t \<noteq> Lf"
  shows "\<exists>x \<in> set (blocks t). tmax t = snd x"
proof (cases "tmax t = 0")
  case True
  obtain c l a s x r where t: "t = Nd c l a s x r" using assms(2) by (cases t) auto
  then have "s = 0" using True assms(1) by (auto simp: max_def split: if_splits)
  then show ?thesis using t True by auto
next
  case False
  then show ?thesis using tmax_zero_or_mem [OF assms(1)] by auto
qed

lemma rep_child:
  assumes "rep nl m p T"
  shows "ptr nl T = nl \<or> ptr nl T \<in> set (addrs T) \<and> map_option parent (m (ptr nl T)) = Some p"
  using assms by (cases T) auto

lemma rep_node:
  assumes "rep nl m p T" "mok T" "(a, k) \<in> set (blocks T)"
  shows "\<exists>b. m a = Some b \<and> bsize b = k \<and>
    (left b = nl \<or> left b \<in> set (addrs T) \<and> map_option parent (m (left b)) = Some a) \<and>
    (right b = nl \<or> right b \<in> set (addrs T) \<and> map_option parent (m (right b)) = Some a) \<and>
    (a = ptr nl T \<and> parent b = p \<or> parent b \<in> set (addrs T) \<and>
       (map_option left (m (parent b)) = Some a \<or> map_option right (m (parent b)) = Some a)) \<and>
    k \<le> subtree_max b \<and> (\<exists>x \<in> set (blocks T). subtree_max b = snd x)"
  using assms
proof (induction nl m p T rule: rep.induct)
  case (2 nl m p c l a' s x r)
  consider "(a, k) = (a', s)" | "(a, k) \<in> set (blocks l)" | "(a, k) \<in> set (blocks r)" using 2(5) by auto
  then show ?case
  proof cases
    case 1
    have "\<exists>y \<in> set (blocks (Nd c l a' s x r)). x = snd y" "s \<le> x" using tmax_mem [of "Nd c l a' s x r"] 2(4) by auto
    then show ?thesis using 1 2(3) rep_child [of nl m a' l] rep_child [of nl m a' r] by auto
  next
    case 2
    then show ?thesis using "2.IH"(1) "2.prems"(1,2) by fastforce
  next
    case 3
    then show ?thesis using "2.IH"(2) "2.prems"(1,2) by fastforce
  qed
qed simp

subsection \<open>The state\<close>

text \<open>C21. Every reachable allocator state is well-typed: its sizes and counters are 64-bit values, the heads of the
  size classes are null or aligned addresses with room for a block of the class. Every node of the tree lies in the arena with
  all of its bytes; its children are the sentinel or nodes of the tree that point back to it, and its parent is the
  sentinel for the root and otherwise a node of the tree that has it as a child.\<close>

theorem reachable_states_typed:
  assumes "fl_reach b n (s, L)" "fl_tree s bs"
  shows "fl_typed s \<and> list_all (\<lambda>(p, m). \<exists>nb. fl_mem s p = Some nb \<and> bsize nb = m \<and> node_typed s bs p nb) bs"
proof -
  obtain A where A: "ab_wf (fl_base s) (fl_size s) L A" "fl_refines (fl_base s) (fl_size s) s A"
    using fl_reach_inv [OF assms(1)] by (auto simp: fl_inv_def)
  have wf: "0 < fl_base s" "fl_base s + fl_size s < 2 ^ 64" "length (ab_small A) = 8" "\<And>x. x \<in> set (ab_tree A) \<Longrightarrow> 48 \<le> snd x"
    using A(1) by (auto simp: ab_wf_def arena_ok_def)
  have "fl_tree s (ab_tree A)" using A(2) by (simp add: fl_refines_def)
  then have bs: "ab_tree A = bs" using fl_tree_unique assms(2) by blast
  have reg: "block_ptr s k p \<and> k mod 16 = 0" if "(p, k) \<in> set (ab_regions A)" for p k
    using ab_wf_region [OF A(1), of p k] that by (auto simp: block_ptr_def)
  have tr: "block_ptr s k p" "k mod 16 = 0" "48 \<le> k" "k \<le> fl_size s" if "(p, k) \<in> set bs" for p k
    using reg [of p k] wf(4) [of "(p, k)"] that bs by (auto simp: ab_regions_def block_ptr_def)
  obtain T where T: "tree_at s T" "mok T" "blocks T = bs" using assms(2) by (auto simp: fl_tree_def rbt_ok_def)
  have addr: "block_ptr s 48 p" if "p \<in> set (addrs T)" for p
    using that tr(1,3) T(3) by (fastforce simp: addrs_blocks block_ptr_def)
  have "ptr (fl_nil s) T = fl_nil s \<or> ptr (fl_nil s) T \<in> set (addrs T)" by (cases T) auto
  then have root: "fl_root s = fl_nil s \<or> block_ptr s 48 (fl_root s)" using T(1) addr by (auto simp: tree_at_def)
  have heads: "fl_lists s ! i = nullptr \<or> block_ptr s (16 * Suc i) (fl_lists s ! i)" if i: "i < 8" for i
  proof (cases "ab_small A ! i")
    case Nil
    then show ?thesis using A(2) i by (auto simp: fl_refines_def)
  next
    case (Cons q qs)
    then have "(q, 16 * Suc i) \<in> set (ab_regions A)" using i wf(3) by (auto simp: ab_regions_def class_set intro!: exI [of _ i])
    moreover have "fl_lists s ! i = q" using A(2) i Cons by (auto simp: fl_refines_def)
    ultimately show ?thesis using reg by auto
  qed
  have used: "fl_allocated s \<le> fl_size s"
    using fl_inv_accounting [OF fl_invI [OF A]] by (simp add: bytes_allocated_def capacity_def)
  have "length (fl_lists s) = kNumSmallClasses" using A(2) by (simp add: fl_refines_def kNumSmallClasses_def)
  then have "fl_typed s" unfolding fl_typed_def using wf(1,2) used fl_blocks_bound [OF assms(1)] heads root by blast
  moreover have "\<exists>nb. fl_mem s p = Some nb \<and> bsize nb = m \<and> node_typed s bs p nb" if p: "(p, m) \<in> set bs" for p m
  proof -
    have at: "rep (fl_nil s) (fl_mem s) (fl_nil s) T" "fl_root s = ptr (fl_nil s) T" "fl_nil s \<notin> set (addrs T)"
      using T(1) by (auto simp: tree_at_def)
    have ad: "set (addrs T) = fst ` set bs" using T(3) by (auto simp: addrs_blocks)
    obtain nb where nb: "fl_mem s p = Some nb" "bsize nb = m" "child_typed s bs p (left nb)" "child_typed s bs p (right nb)"
      "p = fl_root s \<and> parent nb = fl_nil s \<or> parent nb \<in> fst ` set bs \<and>
         (map_option left (fl_mem s (parent nb)) = Some p \<or> map_option right (fl_mem s (parent nb)) = Some p)"
      "m \<le> subtree_max nb" "\<exists>x \<in> set bs. subtree_max nb = snd x"
      using rep_node [OF at(1) T(2), of p m] T(3) p at(2) unfolding child_typed_def ad [symmetric] by auto
    have "p \<in> set (addrs T)" using p ad by force
    then have "p = fl_root s \<Longrightarrow> parent nb = fl_nil s" using rep_child [OF at(1)] at(2,3) nb(1) by auto
    then have "parent_typed s bs p (parent nb)" using nb(5) by (auto simp: parent_typed_def)
    then have "node_typed s bs p nb" unfolding node_typed_def using nb tr [OF p] tr(4) by auto
    then show ?thesis using nb(1,2) by blast
  qed
  ultimately show ?thesis by (auto simp: list_all_iff)
qed

theorem reachable_states_typed_witness:
  "\<exists>s. fl_create 64 zero_log 4096 65536 = Some s \<and> fl_typed s \<and> (\<exists>nb. fl_mem s 4096 = Some nb \<and> node_typed s [(4096, 65536)] 4096 nb)"
proof -
  obtain s where s: "fl_create 64 zero_log 4096 65536 = Some s" "fl_refines 4096 65536 s (ab_init 4096 65536)"
    using fl_create_refines [OF demo_create_ok, of zero_log] by blast
  then have "fl_reach 4096 65536 (s, [])" "fl_tree s [(4096, 65536)]"
    using reach_init [OF demo_create_ok] by (auto simp: fl_refines_def ab_init_def)
  then show ?thesis using reachable_states_typed [of 4096 65536 s "[]" "[(4096, 65536)]"] s(1) by auto
qed

end
