(* ===== verification/Mmap_Arena.thy ===== *)
theory Mmap_Arena
  imports Mmap_Prelude "HOL-Library.Multiset"
begin

text \<open>
  The owner of the mapped memory (\<open>src/src/allocator/arena.hpp\<close> and \<open>arena.cpp\<close>). The page size
  (\<open>sysconf\<close>) and the outcome of \<open>mmap\<close> are arguments; a destructor or an assignment yields the list
  of \<open>munmap\<close> calls it makes.
\<close>

record Arena =
  ar_base :: addr
  ar_capacity :: size_t

datatype errc = invalid_argument | errno_error nat

text \<open>\<open>Inl e\<close>: \<open>MAP_FAILED\<close> with \<open>errno = e\<close>.\<close>

definition arena_create :: "size_t \<Rightarrow> (size_t \<Rightarrow> nat + addr) \<Rightarrow> size_t \<Rightarrow> errc + Arena" where
  "arena_create page_size mmap cap =
     (if cap = 0 then Inl invalid_argument
      else
        let ps = page_size;
            aligned_capacity = mul64 (sub64 (add64 cap ps) 1 div ps) ps
        in case mmap aligned_capacity of
             Inl e \<Rightarrow> Inl (errno_error e)
           | Inr p \<Rightarrow> Inr \<lparr>ar_base = p, ar_capacity = aligned_capacity\<rparr>)"

definition arena_destroy :: "Arena \<Rightarrow> (addr \<times> size_t) list" where
  "arena_destroy a = (if ar_base a \<noteq> nullptr then [(ar_base a, ar_capacity a)] else [])"

text \<open>The move constructor yields the new object and what is left of \<open>other\<close>.\<close>

definition arena_move :: "Arena \<Rightarrow> Arena \<times> Arena" where
  "arena_move other =
     (\<lparr>ar_base = ar_base other, ar_capacity = ar_capacity other\<rparr>,
      other\<lparr>ar_base := nullptr, ar_capacity := 0\<rparr>)"

text \<open>
  Move assignment between two objects of a store; \<open>i = j\<close> is self-assignment. The result lists the
  \<open>munmap\<close> calls.
\<close>

definition arena_assign :: "Arena list \<Rightarrow> nat \<Rightarrow> nat \<Rightarrow> Arena list \<times> (addr \<times> size_t) list" where
  "arena_assign as i j =
     (if i \<noteq> j then
        let unmapped = (if ar_base (as ! i) \<noteq> nullptr then [(ar_base (as ! i), ar_capacity (as ! i))] else []);
            other = as ! j;
            as = as[i := \<lparr>ar_base = ar_base other, ar_capacity = ar_capacity other\<rparr>];
            as = as[j := other\<lparr>ar_base := nullptr, ar_capacity := 0\<rparr>]
        in (as, unmapped)
      else (as, []))"

text \<open>The mappings a list of arenas owns.\<close>

definition owned :: "Arena list \<Rightarrow> (addr \<times> size_t) multiset" where
  "owned as = mset (concat (map arena_destroy as))"

subsection \<open>Rounding to pages\<close>

lemma round_up_page:
  assumes "0 < ps" "cap + ps < 2 ^ 64"
  shows "mul64 (sub64 (add64 cap ps) 1 div ps) ps = (cap + ps - 1) div ps * ps"
    "cap \<le> (cap + ps - 1) div ps * ps" "(cap + ps - 1) div ps * ps < cap + ps"
proof -
  have le: "(cap + ps - 1) div ps * ps \<le> cap + ps - 1" by (rule div_times_less_eq_dividend)
  then show less: "(cap + ps - 1) div ps * ps < cap + ps" using assms(1) by linarith
  have "sub64 (add64 cap ps) 1 = cap + ps - 1" using assms by simp
  then show "mul64 (sub64 (add64 cap ps) 1 div ps) ps = (cap + ps - 1) div ps * ps"
    using less assms(2) by (simp add: mul64_def)
  have "cap + ps - 1 < (cap + ps - 1) div ps * ps + ps"
    using assms(1) by (metis add.commute dividend_less_div_times)
  then show "cap \<le> (cap + ps - 1) div ps * ps" using assms(1) by linarith
qed

text \<open>\<open>Arena::create\<close> rejects an empty arena, passes on the error of \<open>mmap\<close>, and otherwise
  owns a mapping of whole pages that holds the requested capacity and wastes less than a page.\<close>

lemma arena_create_correct:
  assumes "0 < ps" "cap + ps < 2 ^ 64"
  shows "case arena_create ps mm cap of
      Inl e \<Rightarrow> if cap = 0 then e = invalid_argument else (\<exists>n. e = errno_error n \<and> mm ((cap + ps - 1) div ps * ps) = Inl n)
    | Inr a \<Rightarrow> 0 < cap \<and> mm (ar_capacity a) = Inr (ar_base a) \<and> ps dvd ar_capacity a \<and>
        cap \<le> ar_capacity a \<and> ar_capacity a < cap + ps"
  using round_up_page [OF assms] by (auto simp: arena_create_def Let_def split: sum.splits)

subsection \<open>Ownership\<close>

lemma owned_update:
  "i < length as \<Longrightarrow> owned (as[i := a]) + mset (arena_destroy (as ! i)) = owned as + mset (arena_destroy a)"
  by (induction as arbitrary: i) (auto simp: owned_def nth_Cons ac_simps split: nat.split)

text \<open>Moving arenas around neither loses nor duplicates a mapping: what the objects own after
  an assignment, together with what it unmapped, is what they owned before.\<close>

lemma arena_assign_owns_once:
  assumes "i < length as" "j < length as"
  shows "owned (fst (arena_assign as i j)) + mset (snd (arena_assign as i j)) = owned as"
proof (cases "i = j")
  case True
  then show ?thesis by (simp add: arena_assign_def)
next
  case False
  let ?a = "\<lparr>ar_base = ar_base (as ! j), ar_capacity = ar_capacity (as ! j)\<rparr>"
  let ?b = "(as ! j)\<lparr>ar_base := nullptr, ar_capacity := 0\<rparr>"
  have "owned (as[i := ?a]) + mset (arena_destroy (as ! i)) = owned as + mset (arena_destroy (as ! j))"
    using owned_update [OF assms(1), of ?a] by (simp add: arena_destroy_def)
  moreover have "owned (as[i := ?a, j := ?b]) + mset (arena_destroy (as ! j)) = owned (as[i := ?a])"
    using owned_update [of j "as[i := ?a]" ?b] assms(2) False by (simp add: arena_destroy_def)
  ultimately have "owned (as[i := ?a, j := ?b]) + mset (arena_destroy (as ! i)) + mset (arena_destroy (as ! j)) =
      owned as + mset (arena_destroy (as ! j))" by (simp add: ac_simps)
  then show ?thesis using False by (simp add: arena_assign_def arena_destroy_def Let_def split: if_splits)
qed

end
