(* ===== verification/Allocator_Benchmarks.thy ===== *)
theory Allocator_Benchmarks
  imports Allocator_Theorems Mmap_Arena
begin

text \<open>
  The micro-benchmarks of the allocator (\<open>src/bench/bench_allocator.cpp\<close>, \<open>bench_scalability.cpp\<close> and
  \<open>BM_AllocatorOnly\<close> of \<open>bench_throughput.cpp\<close>). The benchmark library decides how often the measured loop
  runs; the number of iterations is an argument, as are the page size, the outcome of \<open>mmap\<close> and the
  address of the sentinel. A benchmark yields the message of \<open>SkipWithError\<close>, if any, and the
  allocator it leaves behind; \<open>None\<close> is an abort or the exception of \<open>value()\<close> on an error.
\<close>

record bench_env =
  be_page_size :: size_t
  be_mmap :: "size_t \<Rightarrow> nat + addr"
  be_nil :: addr
  be_log :: AllocLog

subsection \<open>The benchmarks\<close>

definition bench_allocator :: "bench_env \<Rightarrow> size_t \<Rightarrow> fl_state option" where
  "bench_allocator e n = (case arena_create (be_page_size e) (be_mmap e) n of
     Inl _ \<Rightarrow> None
   | Inr arena \<Rightarrow> fl_create (be_nil e) (be_log e) (ar_base arena) (ar_capacity arena))"

fun Allocate64B_iters :: "nat \<Rightarrow> fl_state \<Rightarrow> (string option \<times> fl_state) option" where
  "Allocate64B_iters 0 alloc = Some (None, alloc)"
| "Allocate64B_iters (Suc n) alloc = do {
     (r, alloc) \<leftarrow> allocate alloc 64 16;
     case r of Inl _ \<Rightarrow> Some (Some ''OOM'', alloc) | Inr _ \<Rightarrow> Allocate64B_iters n alloc }"

definition BM_Allocate64B :: "bench_env \<Rightarrow> nat \<Rightarrow> (string option \<times> fl_state) option" where
  "BM_Allocate64B e n = do { alloc \<leftarrow> bench_allocator e (1024 * 1024); Allocate64B_iters n alloc }"

text \<open>Allocate a block and give it back at once, as two of the benchmarks do; the error of \<open>deallocate\<close> is ignored.\<close>

fun AllocateDealloc_iters :: "size_t \<Rightarrow> nat \<Rightarrow> fl_state \<Rightarrow> fl_state option" where
  "AllocateDealloc_iters sz 0 alloc = Some alloc"
| "AllocateDealloc_iters sz (Suc n) alloc = do {
     (r, alloc) \<leftarrow> allocate alloc sz 16;
     case r of
       Inl _ \<Rightarrow> AllocateDealloc_iters sz n alloc
     | Inr r \<Rightarrow> do { (_, alloc) \<leftarrow> deallocate alloc (res_ptr r) sz; AllocateDealloc_iters sz n alloc } }"

definition BM_AllocateDealloc64B :: "bench_env \<Rightarrow> nat \<Rightarrow> fl_state option" where
  "BM_AllocateDealloc64B e n = do { alloc \<leftarrow> bench_allocator e (1024 * 1024); AllocateDealloc_iters 64 n alloc }"

fun AllocateVarySizes_iters :: "nat \<Rightarrow> size_t \<Rightarrow> fl_state \<Rightarrow> (string option \<times> fl_state) option" where
  "AllocateVarySizes_iters 0 idx alloc = Some (None, alloc)"
| "AllocateVarySizes_iters (Suc n) idx alloc = do {
     (r, alloc) \<leftarrow> allocate alloc ([32, 64, 128, 256, 512, 1024, 2048, 4096] ! (idx mod 8)) 16;
     case r of Inl _ \<Rightarrow> Some (Some ''OOM'', alloc) | Inr _ \<Rightarrow> AllocateVarySizes_iters n (add64 idx 1) alloc }"

definition BM_AllocateVarySizes :: "bench_env \<Rightarrow> nat \<Rightarrow> (string option \<times> fl_state) option" where
  "BM_AllocateVarySizes e n = do { alloc \<leftarrow> bench_allocator e (4 * 1024 * 1024); AllocateVarySizes_iters n 0 alloc }"

text \<open>Repeated allocation into a vector, here of the pointers; blocks that do not fit are left out.\<close>

fun allocate_many :: "size_t \<Rightarrow> nat \<Rightarrow> fl_state \<Rightarrow> addr list \<Rightarrow> (addr list \<times> fl_state) option" where
  "allocate_many sz 0 alloc ptrs = Some (ptrs, alloc)"
| "allocate_many sz (Suc n) alloc ptrs = do {
     (r, alloc) \<leftarrow> allocate alloc sz 16;
     allocate_many sz n alloc (case r of Inl _ \<Rightarrow> ptrs | Inr r \<Rightarrow> ptrs @ [res_ptr r]) }"

fun deallocate_many :: "size_t \<Rightarrow> fl_state \<Rightarrow> addr list \<Rightarrow> fl_state option" where
  "deallocate_many sz alloc [] = Some alloc"
| "deallocate_many sz alloc (p # ptrs) = do { (_, alloc) \<leftarrow> deallocate alloc p sz; deallocate_many sz alloc ptrs }"

text \<open>The elements at the indices 0, 2, 4 and so on.\<close>

fun every_other :: "'a list \<Rightarrow> 'a list" where
  "every_other [] = []"
| "every_other [x] = [x]"
| "every_other (x # y # xs) = x # every_other xs"

definition BM_FragmentedAllocDealloc :: "bench_env \<Rightarrow> nat \<Rightarrow> fl_state option" where
  "BM_FragmentedAllocDealloc e n = do {
     alloc \<leftarrow> bench_allocator e (1024 * 1024);
     (blocks, alloc) \<leftarrow> allocate_many 256 100 alloc [];
     alloc \<leftarrow> deallocate_many 256 alloc (every_other blocks);
     AllocateDealloc_iters 128 n alloc }"

text \<open>The set-up of \<open>BM_Scalability\<close>: pairs of blocks, the first of each to be freed soon; \<open>None\<close> inside when memory runs out.\<close>

fun allocate_pairs :: "nat \<Rightarrow> fl_state \<Rightarrow> addr list \<Rightarrow> addr list \<Rightarrow> ((addr list \<times> addr list) option \<times> fl_state) option" where
  "allocate_pairs 0 alloc free_soon keep = Some (Some (free_soon, keep), alloc)"
| "allocate_pairs (Suc n) alloc free_soon keep = do {
     (r1, alloc) \<leftarrow> allocate alloc 64 16;
     (r2, alloc) \<leftarrow> allocate alloc 64 16;
     case (r1, r2) of
       (Inr r1, Inr r2) \<Rightarrow> allocate_pairs n alloc (free_soon @ [res_ptr r1]) (keep @ [res_ptr r2])
     | _ \<Rightarrow> Some (None, alloc) }"

fun Scalability_iters :: "nat \<Rightarrow> fl_state \<Rightarrow> (string option \<times> fl_state) option" where
  "Scalability_iters 0 alloc = Some (None, alloc)"
| "Scalability_iters (Suc n) alloc = do {
     (r, alloc) \<leftarrow> allocate alloc 64 16;
     case r of
       Inl _ \<Rightarrow> Some (Some ''Benchmark OOM'', alloc)
     | Inr r \<Rightarrow> do { (_, alloc) \<leftarrow> deallocate alloc (res_ptr r) 64; Scalability_iters n alloc } }"

definition BM_Scalability :: "bench_env \<Rightarrow> size_t \<Rightarrow> nat \<Rightarrow> (string option \<times> fl_state option) option" where
  "BM_Scalability e num_blocks n =
     (let arena_size = add64 (mul64 num_blocks 512) (1024 * 1024) in
      case arena_create (be_page_size e) (be_mmap e) arena_size of
        Inl _ \<Rightarrow> Some (Some ''Failed to create arena (too large?)'', None)
      | Inr my_arena \<Rightarrow> do {
          alloc \<leftarrow> fl_create (be_nil e) (be_log e) (ar_base my_arena) (ar_capacity my_arena);
          (r, alloc) \<leftarrow> allocate_pairs num_blocks alloc [] [];
          case r of
            None \<Rightarrow> Some (Some ''Setup OOM'', Some alloc)
          | Some (free_soon_ptrs, keep_ptrs) \<Rightarrow> do {
              alloc \<leftarrow> deallocate_many 64 alloc free_soon_ptrs;
              (err, alloc) \<leftarrow> Scalability_iters n alloc;
              Some (err, Some alloc) } })"

text \<open>\<open>BM_AllocatorOnly\<close>: a hundred allocations, then all of them freed, per iteration.\<close>

fun AllocatorOnly_iters :: "nat \<Rightarrow> fl_state \<Rightarrow> fl_state option" where
  "AllocatorOnly_iters 0 alloc = Some alloc"
| "AllocatorOnly_iters (Suc n) alloc = do {
     (ptrs, alloc) \<leftarrow> allocate_many 64 100 alloc [];
     alloc \<leftarrow> deallocate_many 64 alloc ptrs;
     AllocatorOnly_iters n alloc }"

definition BM_AllocatorOnly :: "bench_env \<Rightarrow> nat \<Rightarrow> fl_state option" where
  "BM_AllocatorOnly e n = do { alloc \<leftarrow> bench_allocator e (64 * 1024 * 1024); AllocatorOnly_iters n alloc }"

subsection \<open>Blocks of one size\<close>

text \<open>
  Only blocks of \<open>n\<close> bytes have ever been taken: those in \<open>L\<close> are held, those in \<open>F\<close> wait in the list of their
  size class, and behind them the rest of the arena is one block of the tree.
\<close>

definition uniform_pool :: "size_t \<Rightarrow> fl_state \<Rightarrow> (addr \<times> size_t) list \<Rightarrow> addr list \<Rightarrow> bool" where
  "uniform_pool n s L F \<longleftrightarrow> (\<exists>A. ab_wf (fl_base s) (fl_size s) L A \<and> fl_refines (fl_base s) (fl_size s) s A \<and>
     ab_small A = (replicate 8 [])[n div 16 - 1 := F] \<and> (128 < n \<longrightarrow> F = []) \<and> (\<forall>x \<in> set L. snd x = n) \<and>
     n * (length L + length F) \<le> fl_size s \<and>
     ab_tree A = (let t = n * (length L + length F) in
       if t < fl_size s then [(fl_base s + t, fl_size s - t)] else []))"

definition unit_size :: "size_t \<Rightarrow> bool" where
  "unit_size n \<longleftrightarrow> n mod 16 = 0 \<and> 48 \<le> n \<and> n \<le> 1024"

lemma unit_sizeD:
  assumes "unit_size n"
  shows "internal_size_of n = n" "n \<le> 128 \<Longrightarrow> n div 16 - 1 < 8" "128 < n \<Longrightarrow> 8 \<le> n div 16 - 1" "n \<le> 2 ^ 64 - 16"
proof -
  obtain k where k: "n = 16 * k" "3 \<le> k" "k \<le> 64" using assms by (auto simp: unit_size_def elim!: dvdE simp flip: dvd_eq_mod_eq_0)
  then show "internal_size_of n = n" "n \<le> 128 \<Longrightarrow> n div 16 - 1 < 8" "128 < n \<Longrightarrow> 8 \<le> n div 16 - 1" "n \<le> 2 ^ 64 - 16"
    by (simp_all add: internal_size_eq)
qed

text \<open>Taking from the abstract pool: the first waiting block, else the front of the rest.\<close>

lemma uniform_take:
  assumes n: "unit_size n" "n dvd c" and wf: "ab_wf b c L A" and sm: "ab_small A = (replicate 8 [])[n div 16 - 1 := F]"
    and tr: "ab_tree A = (let t = n * (length L + length F) in if t < c then [(b + t, c - t)] else [])"
    and le: "n * (length L + length F) \<le> c" and F: "128 < n \<Longrightarrow> F = []"
  shows "if n * length L < c
    then \<exists>r A'. ab_allocate b n 16 A = (Inr r, A') \<and> res_actual_size r = n \<and> (F \<noteq> [] \<longrightarrow> res_ptr r = hd F) \<and>
      ab_small A' = (replicate 8 [])[n div 16 - 1 := tl F] \<and> n * (Suc (length L) + length (tl F)) \<le> c \<and>
      ab_tree A' = (let t = n * (Suc (length L) + length (tl F)) in if t < c then [(b + t, c - t)] else [])
    else ab_allocate b n 16 A = (Inl OutOfMemory, A)"
proof -
  note C = unit_sizeD [OF n(1)]
  have n48: "48 \<le> n" using n(1) by (simp add: unit_size_def)
  have Fi: "ab_small A ! (n div 16 - 1) = F" if "n \<le> 128" using C(2) that by (simp add: sm)
  show ?thesis
  proof (cases F)
    case (Cons q G)
    then have "n \<le> 128" using F by fastforce
    moreover have "n * length L < c" using le n48 Cons by (simp add: algebra_simps)
    ultimately show ?thesis using Fi le tr C(1) Cons by (simp add: ab_allocate_def Let_def sm)
  next
    case Nil
    let ?t = "n * length L"
    show ?thesis
    proof (cases "?t < c")
      case False
      then show ?thesis using Fi Nil tr C(1) by (cases "n \<le> 128") (simp_all add: ab_allocate_def Let_def)
    next
      case True
      have "n dvd c - ?t" using n(2) by (simp add: dvd_diff_nat)
      then obtain k where k: "c - ?t = n * k" by blast
      then have k1: "1 \<le> k" using True by (cases k) auto
      have nt: "n * Suc (length L) \<le> c" using k k1 True by (cases k) (auto simp: algebra_simps)
      have rk: "c - ?t - n = n * (k - 1)" using k k1 by (simp add: diff_mult_distrib2)
      have r: "c - ?t - n = 0 \<or> 48 \<le> c - ?t - n" using n48 k1 unfolding rk by (cases "k - 1") auto
      have "(b + ?t) mod 16 = 0" using ab_wf_region(1) [OF wf, of "b + ?t" "c - ?t"] tr True Nil by (simp add: ab_regions_def Let_def)
      then have al: "align_up 16 (b + ?t) = b + ?t" by (auto simp: align_up_def elim!: dvdE simp flip: dvd_eq_mod_eq_0)
      have fits: "ab_fits n 16 (b + ?t, c - ?t)" using al nt n48 True by (simp add: ab_fits_def)
      have tree: "ab_tree A = [(b + ?t, c - ?t)]" using tr True Nil by (simp add: Let_def)
      have "ab_allocate b n 16 A = (Inr \<lparr>res_ptr = b + ?t, res_offset = ?t, res_actual_size = n\<rparr>, ab_carve n (b + ?t) (b + ?t) (c - ?t) A)"
        using Fi Nil C(1) fits al tree by (cases "n \<le> 128") (simp_all add: ab_allocate_def Let_def)
      moreover have "ab_tree (ab_carve n (b + ?t) (b + ?t) (c - ?t) A) =
          (if n * Suc (length L) < c then [(b + n * Suc (length L), c - n * Suc (length L))] else [])"
        using r nt tree by (auto simp: ab_carve_def ab_padding_def ab_remainder_def ab_insert_def Let_def algebra_simps)
      moreover have "ab_small (ab_carve n (b + ?t) (b + ?t) (c - ?t) A) = ab_small A"
        using r by (auto simp: ab_carve_def ab_padding_def ab_remainder_def ab_insert_def Let_def)
      ultimately show ?thesis using True Nil nt sm by (simp add: Let_def)
    qed
  qed
qed

lemma uniform_alloc:
  assumes u: "uniform_pool n s L F" and n: "unit_size n" "n dvd fl_size s"
  shows "if n * length L < fl_size s
    then \<exists>r s'. allocate s n 16 = Some (Inr r, s') \<and> uniform_pool n s' ((res_ptr r, n) # L) (tl F) \<and>
      fl_base s' = fl_base s \<and> fl_size s' = fl_size s \<and> (F \<noteq> [] \<longrightarrow> res_ptr r = hd F)
    else allocate s n 16 = Some (Inl OutOfMemory, s)"
proof -
  obtain A where A: "ab_wf (fl_base s) (fl_size s) L A" "fl_refines (fl_base s) (fl_size s) s A"
     "ab_small A = (replicate 8 [])[n div 16 - 1 := F]" "\<forall>x \<in> set L. snd x = n"
     "n * (length L + length F) \<le> fl_size s"
     "ab_tree A = (let t = n * (length L + length F) in if t < fl_size s then [(fl_base s + t, fl_size s - t)] else [])"
     "128 < n \<Longrightarrow> F = []"
    using u unfolding uniform_pool_def by blast
  have sz: "n \<le> 2 ^ 64 - 16" "align_ok 16" using unit_sizeD(4) [OF n(1)] by (simp_all add: align_ok_def)
  note T = uniform_take [OF n A(1,3,6,5,7)]
  obtain s' where s': "allocate s n 16 = Some (fst (ab_allocate (fl_base s) n 16 A), s')"
    "fl_refines (fl_base s) (fl_size s) s' (snd (ab_allocate (fl_base s) n 16 A))"
    "\<forall>e. fst (ab_allocate (fl_base s) n 16 A) = Inl e \<longrightarrow> s' = s"
    using allocate_refines [OF A(1,2) sz] by blast
  show ?thesis
  proof (cases "n * length L < fl_size s")
    case False
    then show ?thesis using T s' by simp
  next
    case True
    then obtain r A' where r: "ab_allocate (fl_base s) n 16 A = (Inr r, A')" "res_actual_size r = n" "F \<noteq> [] \<longrightarrow> res_ptr r = hd F"
      "ab_small A' = (replicate 8 [])[n div 16 - 1 := tl F]" "n * (Suc (length L) + length (tl F)) \<le> fl_size s"
      "ab_tree A' = (let t = n * (Suc (length L) + length (tl F)) in if t < fl_size s then [(fl_base s + t, fl_size s - t)] else [])"
      using T by auto
    have ref: "fl_refines (fl_base s) (fl_size s) s' A'" using s'(2) r(1) by simp
    then have b: "fl_base s' = fl_base s" "fl_size s' = fl_size s" by (simp_all add: fl_refines_def)
    have "uniform_pool n s' ((res_ptr r, n) # L) (tl F)" unfolding uniform_pool_def b
      using ab_allocate_wf [OF A(1) sz r(1)] ref r(2,4-6) A(4,7) by (intro exI [of _ A']) simp
    then show ?thesis using True s'(1) r(1,3) b by simp
  qed
qed

lemma uniform_free:
  assumes u: "uniform_pool n s L F" and n: "unit_size n" "n \<le> 128" and p: "(p, n) \<in> set L"
  shows "\<exists>s'. deallocate s p n = Some (Inr (), s') \<and> uniform_pool n s' (remove1 (p, n) L) (p # F) \<and>
    fl_base s' = fl_base s \<and> fl_size s' = fl_size s"
proof -
  obtain A where A: "ab_wf (fl_base s) (fl_size s) L A" "fl_refines (fl_base s) (fl_size s) s A"
     "ab_small A = (replicate 8 [])[n div 16 - 1 := F]" "\<forall>x \<in> set L. snd x = n"
     "n * (length L + length F) \<le> fl_size s"
     "ab_tree A = (let t = n * (length L + length F) in if t < fl_size s then [(fl_base s + t, fl_size s - t)] else [])"
     "128 < n \<Longrightarrow> F = []"
    using u unfolding uniform_pool_def by blast
  obtain s' where s': "deallocate s p n = Some (Inr (), s')" "fl_refines (fl_base s) (fl_size s) s' (ab_deallocate p n A)"
    using deallocate_refines [OF A(1,2) p] by blast
  then have b: "fl_base s' = fl_base s" "fl_size s' = fl_size s" by (simp_all add: fl_refines_def)
  have "0 < length L" using p by (cases L) auto
  then have len: "length (remove1 (p, n) L) + length (p # F) = length L + length F" using p by (simp add: length_remove1)
  have x: "\<forall>x \<in> set (remove1 (p, n) L). snd x = n" using A(4) set_remove1_subset by fast
  have "ab_small (ab_deallocate p n A) = (replicate 8 [])[n div 16 - 1 := p # F]" "ab_tree (ab_deallocate p n A) = ab_tree A"
    using n(2) A(3) unit_sizeD(2) [OF n] by (simp_all add: ab_deallocate_def ab_push_def Let_def)
  then have "uniform_pool n s' (remove1 (p, n) L) (p # F)" unfolding uniform_pool_def b len
    using ab_deallocate_wf [OF A(1) p] s'(2) A(5,6) x n(2) by (intro exI [of _ "ab_deallocate p n A"]) simp
  then show ?thesis using s'(1) b by blast
qed

lemma uniform_fresh:
  assumes "create_ok nilp b c" "unit_size n"
  shows "\<exists>s. fl_create nilp g b c = Some s \<and> uniform_pool n s [] [] \<and> fl_base s = b \<and> fl_size s = c"
proof -
  obtain s where s: "fl_create nilp g b c = Some s" "fl_refines b c s (ab_init b c)" using fl_create_refines [OF assms(1)] by blast
  then have b: "fl_base s = b" "fl_size s = c" by (simp_all add: fl_refines_def)
  have "0 < c" using assms(1) by (simp add: create_ok_def)
  moreover have "(replicate 8 [])[n div 16 - 1 := []] = (replicate 8 [] :: addr list list)"
    using unit_sizeD(2,3) [OF assms(2)] by (cases "n \<le> 128") (simp_all add: list_update_same_conv list_update_beyond)
  ultimately have "uniform_pool n s [] []" unfolding uniform_pool_def b
    using ab_init_wf [OF assms(1)] s(2) by (intro exI [of _ "ab_init b c"]) (simp add: ab_init_def)
  then show ?thesis using s(1) b by blast
qed


subsection \<open>Set-up\<close>

text \<open>What the system provides: page-aligned mappings away from the sentinel.\<close>

definition bench_env_ok :: "bench_env \<Rightarrow> bool" where
  "bench_env_ok e \<longleftrightarrow> be_page_size e = 4096 \<and> be_nil e \<noteq> 0 \<and>
     (\<forall>n. n \<le> 2 ^ 30 \<longrightarrow> (\<exists>b. be_mmap e n = Inr b \<and> 0 < b \<and> b mod 16 = 0 \<and> b + n < 2 ^ 64 \<and> (be_nil e < b \<or> b + n \<le> be_nil e)))"

definition page_rounded :: "size_t \<Rightarrow> size_t" where
  "page_rounded n = (n + 4095) div 4096 * 4096"

lemma bench_create:
  assumes e: "bench_env_ok e" and n: "0 < n" "n \<le> 2 ^ 30"
  shows "\<exists>b. arena_create (be_page_size e) (be_mmap e) n = Inr \<lparr>ar_base = b, ar_capacity = page_rounded n\<rparr> \<and>
    create_ok (be_nil e) b (page_rounded n)"
proof -
  let ?c = "page_rounded n"
  have dv: "?c = 4096 * ((n + 4095) div 4096)" by (simp add: page_rounded_def)
  have c: "?c mod 16 = 0" "4096 \<le> ?c" "?c \<le> 2 ^ 30" unfolding dv using n by auto
  have cap: "mul64 (sub64 (add64 n 4096) 1 div 4096) 4096 = ?c" using n(2) c(3) by (simp add: page_rounded_def)
  have "\<exists>b. be_mmap e ?c = Inr b \<and> 0 < b \<and> b mod 16 = 0 \<and> b + ?c < 2 ^ 64 \<and> (be_nil e < b \<or> b + ?c \<le> be_nil e)"
    using e c(3) by (simp add: bench_env_ok_def)
  then obtain b where b: "be_mmap e ?c = Inr b" "0 < b" "b mod 16 = 0" "b + ?c < 2 ^ 64" "be_nil e < b \<or> b + ?c \<le> be_nil e" by auto
  have "arena_create (be_page_size e) (be_mmap e) n = Inr \<lparr>ar_base = b, ar_capacity = ?c\<rparr>"
    using e n(1) b(1) cap by (simp add: arena_create_def bench_env_ok_def)
  moreover have "create_ok (be_nil e) b ?c"
    using e b c by (simp add: create_ok_def arena_ok_def bench_env_ok_def)
  ultimately show ?thesis by blast
qed

lemma unit_size_64: "unit_size 64"
  by (simp add: unit_size_def)

subsection \<open>The pool as a multiset of blocks\<close>

text \<open>The addresses \<open>M\<close> are held, those of \<open>F\<close> wait in their list, in this order.\<close>

definition pool :: "size_t \<Rightarrow> fl_state \<Rightarrow> addr multiset \<Rightarrow> addr list \<Rightarrow> bool" where
  "pool n s M F \<longleftrightarrow> unit_size n \<and> n dvd fl_size s \<and> (\<exists>L. uniform_pool n s L F \<and> mset L = image_mset (\<lambda>p. (p, n)) M)"

lemma pool_alloc:
  assumes "pool n s M F"
  shows "if n * size M < fl_size s
    then \<exists>r s'. allocate s n 16 = Some (Inr r, s') \<and> pool n s' (add_mset (res_ptr r) M) (tl F) \<and>
      fl_size s' = fl_size s \<and> (F \<noteq> [] \<longrightarrow> res_ptr r = hd F)
    else allocate s n 16 = Some (Inl OutOfMemory, s)"
proof -
  obtain L where L: "unit_size n" "n dvd fl_size s" "uniform_pool n s L F" "mset L = image_mset (\<lambda>p. (p, n)) M"
    using assms by (auto simp: pool_def)
  have "length L = size M" using L(4) by (metis size_image_mset size_mset)
  then show ?thesis using uniform_alloc [OF L(3,1,2)] L by (fastforce simp: pool_def split: if_splits)
qed

lemma pool_free:
  assumes "pool n s (add_mset p M) F" "n \<le> 128"
  shows "\<exists>s'. deallocate s p n = Some (Inr (), s') \<and> pool n s' M (p # F) \<and> fl_size s' = fl_size s"
proof -
  obtain L where L: "unit_size n" "n dvd fl_size s" "uniform_pool n s L F" "mset L = add_mset (p, n) (image_mset (\<lambda>p. (p, n)) M)"
    using assms(1) by (auto simp: pool_def)
  have "(p, n) \<in># mset L" by (simp add: L(4))
  then have "(p, n) \<in> set L" by simp
  then obtain s' where "deallocate s p n = Some (Inr (), s')" "uniform_pool n s' (remove1 (p, n) L) (p # F)" "fl_size s' = fl_size s"
    using uniform_free [OF L(3,1) assms(2)] by blast
  moreover have "mset (remove1 (p, n) L) = image_mset (\<lambda>p. (p, n)) M" by (simp add: L(4))
  ultimately show ?thesis using L(1,2) by (auto simp: pool_def)
qed

lemma pool_tree:
  assumes "pool n s M F"
  shows "bytes_allocated s = n * size M" "n * (size M + length F) \<le> fl_size s"
    "fl_tree s (let t = n * (size M + length F) in if t < fl_size s then [(fl_base s + t, fl_size s - t)] else [])"
proof -
  obtain L A where L: "mset L = image_mset (\<lambda>p. (p, n)) M" "ab_wf (fl_base s) (fl_size s) L A"
     "fl_refines (fl_base s) (fl_size s) s A" "\<forall>x \<in> set L. snd x = n" "n * (length L + length F) \<le> fl_size s"
     "ab_tree A = (let t = n * (length L + length F) in if t < fl_size s then [(fl_base s + t, fl_size s - t)] else [])"
    using assms unfolding pool_def uniform_pool_def by blast
  have len: "length L = size M" using L(1) by (metis size_image_mset size_mset)
  have "sum_list (map snd L) = n * length L" using L(4) by (induction L) auto
  then show "bytes_allocated s = n * size M"
    using fl_inv_accounting(1) [OF fl_invI [OF L(2,3)]] len by (simp add: bytes_def)
  show "n * (size M + length F) \<le> fl_size s" using L(5) len by simp
  show "fl_tree s (let t = n * (size M + length F) in if t < fl_size s then [(fl_base s + t, fl_size s - t)] else [])"
    using L(3,6) len by (simp add: fl_refines_def)
qed

lemma bench_allocator_pool:
  assumes "bench_env_ok e" "0 < n" "n \<le> 2 ^ 30" "unit_size m" "m dvd page_rounded n"
  shows "\<exists>s. bench_allocator e n = Some s \<and> pool m s {#} [] \<and> fl_size s = page_rounded n"
proof -
  obtain b where b: "arena_create (be_page_size e) (be_mmap e) n = Inr \<lparr>ar_base = b, ar_capacity = page_rounded n\<rparr>"
    "create_ok (be_nil e) b (page_rounded n)"
    using bench_create [OF assms(1-3)] by blast
  then show ?thesis using uniform_fresh [OF b(2) assms(4), of "be_log e"] assms(4,5) by (auto simp: bench_allocator_def pool_def)
qed

subsection \<open>The measured loops\<close>

lemma Allocate64B_iters_exact:
  assumes "pool 64 s M []"
  shows "\<exists>s' M'. Allocate64B_iters n s = Some (if 64 * (size M + n) \<le> fl_size s then None else Some ''OOM'', s') \<and>
    pool 64 s' M' [] \<and> size M' = min (size M + n) (fl_size s div 64)"
  using assms
proof (induction n arbitrary: s M)
  case 0
  then show ?case using pool_tree(2) [OF 0] by (auto intro!: exI [of _ M])
next
  case (Suc n)
  have d: "64 dvd fl_size s" and le: "64 * size M \<le> fl_size s" using pool_tree(2) [OF Suc.prems] Suc.prems by (auto simp: pool_def)
  show ?case
  proof (cases "64 * size M < fl_size s")
    case False
    then have "allocate s 64 16 = Some (Inl OutOfMemory, s)" "size M = fl_size s div 64"
      using pool_alloc [OF Suc.prems] le by auto
    then show ?thesis using Suc.prems False by (intro exI [of _ s] exI [of _ M]) simp
  next
    case True
    then obtain r s' where r: "allocate s 64 16 = Some (Inr r, s')" "pool 64 s' (add_mset (res_ptr r) M) []" "fl_size s' = fl_size s"
      using pool_alloc [OF Suc.prems] by auto
    then show ?thesis using Suc.IH [OF r(2)] by auto
  qed
qed

lemma deallocate_many_pool:
  assumes "pool n s (mset ps + M) F" "n \<le> 128"
  shows "\<exists>s'. deallocate_many n s ps = Some s' \<and> pool n s' M (rev ps @ F) \<and> fl_size s' = fl_size s"
  using assms(1)
proof (induction ps arbitrary: s F)
  case (Cons p ps)
  then obtain s1 where "deallocate s p n = Some (Inr (), s1)" "pool n s1 (mset ps + M) (p # F)" "fl_size s1 = fl_size s"
    using pool_free [of n s p "mset ps + M" F] assms(2) by auto
  then show ?case using Cons.IH [of s1 "p # F"] by auto
qed simp

lemma allocate_many_pool:
  assumes "pool n s M F" "n * (size M + k) \<le> fl_size s"
  shows "\<exists>qs s'. allocate_many n k s ps = Some (ps @ qs, s') \<and> length qs = k \<and> pool n s' (mset qs + M) (drop k F) \<and> fl_size s' = fl_size s"
  using assms
proof (induction k arbitrary: s M F ps)
  case (Suc k)
  have "0 < n" using Suc.prems(1) by (auto simp: pool_def unit_size_def)
  then have "n * size M < fl_size s" using Suc.prems(2) by (simp add: algebra_simps)
  then obtain r s' where r: "allocate s n 16 = Some (Inr r, s')" "pool n s' (add_mset (res_ptr r) M) (tl F)" "fl_size s' = fl_size s"
    using pool_alloc [OF Suc.prems(1)] by auto
  obtain qs s2 where q: "allocate_many n k s' (ps @ [res_ptr r]) = Some ((ps @ [res_ptr r]) @ qs, s2)" "length qs = k"
    "pool n s2 (mset qs + add_mset (res_ptr r) M) (drop k (tl F))" "fl_size s2 = fl_size s"
    using Suc.IH [OF r(2), of "ps @ [res_ptr r]"] r(3) Suc.prems(2) by auto
  have "pool n s2 (mset (res_ptr r # qs) + M) (drop (Suc k) F)" using q(3) by (simp add: drop_Suc)
  then show ?case using r(1) q(1,2,4) by (intro exI [of _ "res_ptr r # qs"] exI [of _ s2]) simp
qed (auto intro!: exI [of _ "[]"])


lemma allocate_pairs_pool:
  assumes "pool 64 s M []" "64 * (size M + 2 * k) \<le> fl_size s"
  shows "\<exists>fs ks s'. allocate_pairs k s free_soon keep = Some (Some (free_soon @ fs, keep @ ks), s') \<and> length fs = k \<and> length ks = k \<and>
    pool 64 s' (mset fs + (mset ks + M)) [] \<and> fl_size s' = fl_size s"
  using assms
proof (induction k arbitrary: s M free_soon keep)
  case (Suc k)
  have "64 * size M < fl_size s" using Suc.prems(2) by simp
  then obtain r1 s1 where r1: "allocate s 64 16 = Some (Inr r1, s1)" "pool 64 s1 (add_mset (res_ptr r1) M) []" "fl_size s1 = fl_size s"
    using pool_alloc [OF Suc.prems(1)] by auto
  have "64 * size (add_mset (res_ptr r1) M) < fl_size s1" using Suc.prems(2) r1(3) by simp
  then obtain r2 s2 where r2: "allocate s1 64 16 = Some (Inr r2, s2)"
    "pool 64 s2 (add_mset (res_ptr r2) (add_mset (res_ptr r1) M)) []" "fl_size s2 = fl_size s"
    using pool_alloc [OF r1(2)] r1(3) by auto
  obtain fs ks s' where q: "allocate_pairs k s2 (free_soon @ [res_ptr r1]) (keep @ [res_ptr r2]) =
      Some (Some ((free_soon @ [res_ptr r1]) @ fs, (keep @ [res_ptr r2]) @ ks), s')" "length fs = k" "length ks = k"
    "pool 64 s' (mset fs + (mset ks + add_mset (res_ptr r2) (add_mset (res_ptr r1) M))) []" "fl_size s' = fl_size s"
    using Suc.IH [OF r2(2), of "free_soon @ [res_ptr r1]" "keep @ [res_ptr r2]"] r2(3) Suc.prems(2) by auto
  have "pool 64 s' (mset (res_ptr r1 # fs) + (mset (res_ptr r2 # ks) + M)) []" using q(4) by (simp add: add_mset_commute)
  then show ?case using r1(1) r2(1) q(1-3,5) by (intro exI [of _ "res_ptr r1 # fs"] exI [of _ "res_ptr r2 # ks"] exI [of _ s']) simp
qed simp

text \<open>A block that waits in the list of its size is taken from it and put back: nothing else is touched.\<close>

lemma Scalability_iters_pool:
  assumes "pool 64 s M F" "F \<noteq> []"
  shows "\<exists>s'. Scalability_iters n s = Some (None, s') \<and> pool 64 s' M F \<and> fl_size s' = fl_size s"
  using assms(1)
proof (induction n arbitrary: s)
  case (Suc n)
  obtain q G where F: "F = q # G" using assms(2) by (cases F) auto
  then have "64 * size M < fl_size s" using pool_tree(2) [OF Suc.prems] by simp
  then obtain r s1 where r: "allocate s 64 16 = Some (Inr r, s1)" "pool 64 s1 (add_mset (res_ptr r) M) G" "res_ptr r = q" "fl_size s1 = fl_size s"
    using pool_alloc [OF Suc.prems] F by auto
  obtain s2 where "deallocate s1 q 64 = Some (Inr (), s2)" "pool 64 s2 M F" "fl_size s2 = fl_size s"
    using pool_free [of 64 s1 q M G] r F by auto
  then show ?case using r(1,3) Suc.IH [of s2] by auto
qed simp

lemma AllocatorOnly_iters_pool:
  assumes "pool 64 s {#} F" "6400 \<le> fl_size s"
  shows "\<exists>s' F'. AllocatorOnly_iters n s = Some s' \<and> pool 64 s' {#} F'"
  using assms
proof (induction n arbitrary: s F)
  case (Suc n)
  obtain qs s1 where q: "allocate_many 64 100 s [] = Some (qs, s1)" "pool 64 s1 (mset qs + {#}) (drop 100 F)" "fl_size s1 = fl_size s"
    using allocate_many_pool [OF Suc.prems(1), of 100 "[]"] Suc.prems(2) by auto
  then obtain s2 F2 where "deallocate_many 64 s1 qs = Some s2" "pool 64 s2 {#} F2" "fl_size s2 = fl_size s"
    using deallocate_many_pool [OF q(2)] by auto
  then show ?case using q(1) Suc.IH [of s2 F2] Suc.prems(2) by auto
qed auto

subsection \<open>Loops over any held regions\<close>

lemma deallocate_many_inv:
  assumes "fl_inv s L" "mset L = image_mset (\<lambda>p. (p, m)) (mset ps) + R"
  shows "\<exists>s' L'. deallocate_many m s ps = Some s' \<and> fl_inv s' L' \<and> mset L' = R"
  using assms
proof (induction ps arbitrary: s L)
  case (Cons p ps)
  have "(p, m) \<in># mset L" by (simp add: Cons.prems(2))
  then obtain s1 where s1: "deallocate s p m = Some (Inr (), s1)" "fl_inv s1 (remove1 (p, m) L)"
    using deallocate_inv [OF Cons.prems(1), of p m] by auto
  then show ?case using Cons.IH [OF s1(2)] Cons.prems(2) by auto
qed auto

lemma allocate_16_cases:
  assumes inv: "fl_inv s L" and sz: "sz \<le> 2 ^ 64 - 16"
  obtains "allocate s sz 16 = Some (Inl OutOfMemory, s)"
  | r s' where "allocate s sz 16 = Some (Inr r, s')" "fl_inv s' ((res_ptr r, internal_size_of sz) # L)"
proof -
  have al: "align_ok 16" by (simp add: align_ok_def)
  obtain res s' where r: "allocate s sz 16 = Some (res, s')"
    "case res of Inl e \<Rightarrow> e = OutOfMemory \<and> s' = s | Inr r \<Rightarrow> fl_inv s' ((res_ptr r, res_actual_size r) # L) \<and>
       fl_base s' = fl_base s \<and> fl_size s' = fl_size s" using allocate_inv [OF inv sz al] by blast
  show thesis
  proof (cases res)
    case (Inl e)
    then show thesis using r that(1) by simp
  next
    case (Inr x)
    then show thesis using r that(2) allocate_result(2) [OF inv sz al, of x s'] by simp
  qed
qed

lemma AllocateDealloc_iters_inv:
  assumes "fl_inv s L" "unit_size sz"
  shows "\<exists>s' L'. AllocateDealloc_iters sz n s = Some s' \<and> fl_inv s' L' \<and> mset L' = mset L"
  using assms(1)
proof (induction n arbitrary: s L)
  case (Suc n)
  note U = unit_sizeD [OF assms(2)]
  show ?case
  proof (rule allocate_16_cases [OF Suc.prems U(4)])
    assume "allocate s sz 16 = Some (Inl OutOfMemory, s)"
    then show ?thesis using Suc.IH [OF Suc.prems] by simp
  next
    fix r s1 assume r: "allocate s sz 16 = Some (Inr r, s1)" "fl_inv s1 ((res_ptr r, internal_size_of sz) # L)"
    then obtain s2 where "deallocate s1 (res_ptr r) sz = Some (Inr (), s2)" "fl_inv s2 L"
      using deallocate_inv [OF r(2), of "res_ptr r" sz] U(1) by auto
    then show ?thesis using r(1) Suc.IH [of s2 L] by simp
  qed
qed auto

definition vary_size :: "nat \<Rightarrow> size_t" where
  "vary_size i = [32, 64, 128, 256, 512, 1024, 2048, 4096] ! (i mod 8)"

lemma vary_size_cases: "vary_size i \<in> set [32, 64, 128, 256, 512, 1024, 2048, 4096]"
  unfolding vary_size_def by (rule nth_mem) simp

lemma vary_size_next: "vary_size (add64 i 1 + k) = vary_size (i + Suc k)"
proof -
  have "(i + 1) mod 2 ^ 64 mod 8 = (i + 1) mod (8 :: nat)" by (rule mod_mod_cancel) simp
  then have "add64 i 1 mod 8 = (i + 1) mod 8" by (simp add: add64_def)
  then have "(add64 i 1 + k) mod 8 = (i + Suc k) mod 8" by (metis add.assoc add.commute mod_add_left_eq plus_1_eq_Suc)
  then show ?thesis by (simp add: vary_size_def)
qed

lemma AllocateVarySizes_iters_inv:
  assumes "fl_inv s L"
  shows "\<exists>err s' L'. AllocateVarySizes_iters n idx s = Some (err, s') \<and> fl_inv s' L' \<and>
    (err = None \<longrightarrow> bytes L' = bytes L + (\<Sum>i < n. vary_size (idx + i)))"
  using assms
proof (induction n arbitrary: s L idx)
  case (Suc n)
  let ?sz = "vary_size idx"
  have sz: "?sz \<le> 2 ^ 64 - 16" "internal_size_of ?sz = ?sz" using vary_size_cases [of idx] by (auto simp: internal_size_eq)
  have sum: "(\<Sum>i < Suc n. vary_size (idx + i)) = ?sz + (\<Sum>i < n. vary_size (add64 idx 1 + i))"
    unfolding sum.lessThan_Suc_shift by (simp add: vary_size_next [simplified])
  note step = AllocateVarySizes_iters.simps(2) [of n idx s, folded vary_size_def]
  show ?case
  proof (rule allocate_16_cases [OF Suc.prems sz(1)])
    assume "allocate s ?sz 16 = Some (Inl OutOfMemory, s)"
    then show ?thesis using Suc.prems unfolding step by auto
  next
    fix r s1 assume r: "allocate s ?sz 16 = Some (Inr r, s1)" "fl_inv s1 ((res_ptr r, internal_size_of ?sz) # L)"
    then show ?thesis using Suc.IH [OF r(2), of "add64 idx 1"] sz(2) unfolding step sum by (fastforce simp: bytes_def add_ac)
  qed
qed auto

lemma mset_every_other: "\<exists>R. mset xs = mset (every_other xs) + R \<and> size R = length xs div 2"
proof (induction xs rule: every_other.induct)
  case (3 x y xs)
  then obtain R where "mset xs = mset (every_other xs) + R" "size R = length xs div 2" by blast
  then show ?case by (intro exI [of _ "add_mset y R"]) simp
qed auto

lemma pool_inv:
  assumes "pool n s M F"
  shows "\<exists>L. fl_inv s L \<and> mset L = image_mset (\<lambda>p. (p, n)) M"
  using assms fl_invI unfolding pool_def uniform_pool_def by blast

lemma bytes_mset: "mset L = image_mset (\<lambda>p. (p, n)) M \<Longrightarrow> bytes L = n * size M"
proof -
  assume "mset L = image_mset (\<lambda>p. (p, n)) M"
  then have "sum_mset (image_mset snd (mset L)) = sum_mset (image_mset snd (image_mset (\<lambda>p. (p, n)) M))" by simp
  then show ?thesis by (simp add: bytes_def image_mset.compositionality o_def sum_mset_sum_list flip: mset_map)
qed

lemma fragmented_setup:
  assumes "pool 256 s {#} []" "25600 \<le> fl_size s"
  shows "\<exists>blocks s1 s2 L. allocate_many 256 100 s [] = Some (blocks, s1) \<and>
    deallocate_many 256 s1 (every_other blocks) = Some s2 \<and> fl_inv s2 L \<and> bytes L = 256 * 50"
proof -
  obtain qs s1 where q: "allocate_many 256 100 s [] = Some (qs, s1)" "length qs = 100" "pool 256 s1 (mset qs + {#}) []"
    using allocate_many_pool [OF assms(1), of 100 "[]"] assms(2) by auto
  obtain R where R: "mset qs = mset (every_other qs) + R" "size R = 50" using mset_every_other [of qs] q(2) by auto
  obtain L where L: "fl_inv s1 L" "mset L = image_mset (\<lambda>p. (p, 256)) (mset (every_other qs)) + image_mset (\<lambda>p. (p, 256)) R"
    using pool_inv [OF q(3)] R(1) by auto
  obtain s2 L2 where "deallocate_many 256 s1 (every_other qs) = Some s2" "fl_inv s2 L2" "mset L2 = image_mset (\<lambda>p. (p, 256)) R"
    using deallocate_many_inv [OF L] by blast
  then show ?thesis using q(1) bytes_mset [of L2 256 R] R(2) by auto
qed

text \<open>C39. What the allocator benchmarks do, for every number of iterations: \<open>BM_Allocate64B\<close> completes with up to
  16384 iterations and is skipped with an out-of-memory error with any more; the others always
  come to an end without an abort and free what they allocate, apart from the blocks the varying sizes
  keep and the fifty blocks the fragmented one leaves in place.\<close>

theorem allocator_benchmarks_exact:
  assumes e: "bench_env_ok e"
  shows "(\<exists>s. BM_Allocate64B e n = Some (if n \<le> 16384 then None else Some ''OOM'', s) \<and> bytes_allocated s = 64 * min n 16384) \<and>
    (\<exists>s. BM_AllocateDealloc64B e n = Some s \<and> bytes_allocated s = 0) \<and>
    (\<exists>err s. BM_AllocateVarySizes e n = Some (err, s) \<and> (err = None \<longrightarrow> bytes_allocated s = (\<Sum>i < n. vary_size i))) \<and>
    (\<exists>s. BM_FragmentedAllocDealloc e n = Some s \<and> bytes_allocated s = 256 * 50) \<and>
    (\<exists>s. BM_AllocatorOnly e n = Some s \<and> bytes_allocated s = 0)"
proof (intro conjI)
  have cap: "page_rounded (1024 * 1024) = 1048576" "page_rounded (4 * 1024 * 1024) = 4194304" "page_rounded (64 * 1024 * 1024) = 67108864"
    by (simp_all add: page_rounded_def)
  have u: "unit_size 64" "unit_size 128" "unit_size 256" by (simp_all add: unit_size_def)
  note acc = fl_inv_accounting(1)
  obtain s where s: "bench_allocator e (1024 * 1024) = Some s" "pool 64 s {#} []" "fl_size s = 1048576"
    using bench_allocator_pool [OF e _ _ u(1), of "1024 * 1024"] cap by auto
  obtain L where L: "fl_inv s L" "mset L = {#}" using pool_inv [OF s(2)] by auto
  obtain s' M' where "Allocate64B_iters n s = Some (if n \<le> 16384 then None else Some ''OOM'', s')" "pool 64 s' M' []" "size M' = min n 16384"
    using Allocate64B_iters_exact [OF s(2), of n] s(3) by auto
  then show "\<exists>s. BM_Allocate64B e n = Some (if n \<le> 16384 then None else Some ''OOM'', s) \<and> bytes_allocated s = 64 * min n 16384"
    using s(1) pool_tree(1) [of 64 s' M' "[]"] by (simp add: BM_Allocate64B_def)
  show "\<exists>s. BM_AllocateDealloc64B e n = Some s \<and> bytes_allocated s = 0"
    using AllocateDealloc_iters_inv [OF L(1) u(1), of n] s(1) L(2) acc by (fastforce simp: BM_AllocateDealloc64B_def bytes_def)
  obtain s4 where s4: "bench_allocator e (4 * 1024 * 1024) = Some s4" "pool 64 s4 {#} []"
    using bench_allocator_pool [OF e _ _ u(1), of "4 * 1024 * 1024"] cap by auto
  obtain L4 where L4: "fl_inv s4 L4" "L4 = []" using pool_inv [OF s4(2)] by auto
  obtain err t L' where "AllocateVarySizes_iters n 0 s4 = Some (err, t)" "fl_inv t L'" "err = None \<longrightarrow> bytes L' = (\<Sum>i < n. vary_size i)"
    using AllocateVarySizes_iters_inv [OF L4(1), of n 0] by (auto simp: L4(2) bytes_def)
  then show "\<exists>err s. BM_AllocateVarySizes e n = Some (err, s) \<and> (err = None \<longrightarrow> bytes_allocated s = (\<Sum>i < n. vary_size i))"
    using s4(1) acc [of t L'] by (auto simp: BM_AllocateVarySizes_def)
  obtain sf where sf: "bench_allocator e (1024 * 1024) = Some sf" "pool 256 sf {#} []" "fl_size sf = 1048576"
    using bench_allocator_pool [OF e _ _ u(3), of "1024 * 1024"] cap by auto
  obtain bl s1 s2 L2 where f: "allocate_many 256 100 sf [] = Some (bl, s1)" "deallocate_many 256 s1 (every_other bl) = Some s2"
    "fl_inv s2 L2" "bytes L2 = 256 * 50" using fragmented_setup [OF sf(2)] sf(3) by auto
  obtain s3 L3 where "AllocateDealloc_iters 128 n s2 = Some s3" "fl_inv s3 L3" "mset L3 = mset L2"
    using AllocateDealloc_iters_inv [OF f(3) u(2)] by blast
  moreover from this(3) have "bytes L3 = bytes L2" unfolding bytes_def by (metis mset_map sum_mset_sum_list)
  ultimately show "\<exists>s. BM_FragmentedAllocDealloc e n = Some s \<and> bytes_allocated s = 256 * 50"
    using sf(1) f acc [of s3 L3] by (auto simp: BM_FragmentedAllocDealloc_def)
  obtain so where so: "bench_allocator e (64 * 1024 * 1024) = Some so" "pool 64 so {#} []" "fl_size so = 67108864"
    using bench_allocator_pool [OF e _ _ u(1), of "64 * 1024 * 1024"] cap by auto
  then show "\<exists>s. BM_AllocatorOnly e n = Some s \<and> bytes_allocated s = 0"
    using AllocatorOnly_iters_pool [OF so(2), of n] pool_tree(1) by (fastforce simp: BM_AllocatorOnly_def)
qed


definition demo_bench :: bench_env where
  "demo_bench = \<lparr>be_page_size = 4096, be_mmap = (\<lambda>n. if n \<le> 2 ^ 40 then Inr 65536 else Inl 12), be_nil = 64, be_log = zero_log\<rparr>"

lemma demo_bench_ok: "bench_env_ok demo_bench"
  by (simp add: bench_env_ok_def demo_bench_def)

theorem allocator_benchmarks_exact_witness:
  "(\<exists>s. BM_Allocate64B demo_bench 16384 = Some (None, s) \<and> bytes_allocated s = 1048576) \<and>
   (\<exists>s. BM_Allocate64B demo_bench 16385 = Some (Some ''OOM'', s))"
  using allocator_benchmarks_exact [OF demo_bench_ok, of 16384] allocator_benchmarks_exact [OF demo_bench_ok, of 16385] by auto

text \<open>C40. \<open>BM_Scalability\<close> never runs out of memory and its free blocks never reach the tree: they
  wait in the list of their size class, from which the measured loop takes one and puts it back. Whatever
  their number, the tree holds one block, so the benchmark does not exercise the logarithmic search.\<close>

theorem scalability_never_grows_tree:
  assumes e: "bench_env_ok e" and N: "0 < N" "N * 512 + 1048576 \<le> 2 ^ 30"
  shows "\<exists>s. BM_Scalability e N n = Some (None, Some s) \<and> bytes_allocated s = 64 * N \<and>
    fl_tree s [(fl_base s + 128 * N, fl_size s - 128 * N)]"
proof -
  let ?n = "N * 512 + 1048576"
  have sz: "add64 (mul64 N 512) (1024 * 1024) = ?n" using N(2) by simp
  obtain b where b: "arena_create (be_page_size e) (be_mmap e) ?n = Inr \<lparr>ar_base = b, ar_capacity = page_rounded ?n\<rparr>"
    "create_ok (be_nil e) b (page_rounded ?n)" using bench_create [OF e _ N(2)] by auto
  have c: "64 dvd page_rounded ?n" "?n \<le> page_rounded ?n" unfolding page_rounded_def by (auto simp: dvd_mult)
  obtain s where s: "fl_create (be_nil e) (be_log e) b (page_rounded ?n) = Some s" "uniform_pool 64 s [] []" "fl_size s = page_rounded ?n"
    using uniform_fresh [OF b(2) unit_size_64] by blast
  have p: "pool 64 s {#} []" using s(2,3) c(1) unit_size_64 by (auto simp: pool_def)
  obtain fs ks s1 where k: "allocate_pairs N s [] [] = Some (Some (fs, ks), s1)" "length fs = N" "length ks = N"
    "pool 64 s1 (mset fs + (mset ks + {#})) []" "fl_size s1 = fl_size s"
    using allocate_pairs_pool [OF p, of N "[]" "[]"] s(3) c(2) by auto
  obtain s2 where s2: "deallocate_many 64 s1 fs = Some s2" "pool 64 s2 (mset ks) (rev fs)" "fl_size s2 = fl_size s"
    using deallocate_many_pool [OF k(4)] k(5) by auto
  obtain s3 where s3: "Scalability_iters n s2 = Some (None, s3)" "pool 64 s3 (mset ks) (rev fs)" "fl_size s3 = fl_size s"
    using Scalability_iters_pool [OF s2(2), of n] s2(3) k(2) N(1) by auto
  have "128 * N < fl_size s3" using s3(3) s(3) c(2) by simp
  then have "bytes_allocated s3 = 64 * N" "fl_tree s3 [(fl_base s3 + 128 * N, fl_size s3 - 128 * N)]"
    using pool_tree [OF s3(2)] k(2,3) by (simp_all add: Let_def)
  moreover have "BM_Scalability e N n = Some (None, Some s3)"
    using b(1) s(1) k(1) s2(1) s3(1) unfolding BM_Scalability_def sz by simp
  ultimately show ?thesis by blast
qed

theorem scalability_never_grows_tree_witness:
  "\<exists>s a m. BM_Scalability demo_bench 10000 1000000 = Some (None, Some s) \<and> fl_tree s [(a, m)]"
  using scalability_never_grows_tree [OF demo_bench_ok, of 10000 1000000] by auto

end
