(* ===== verification/Ring_Buffer.thy ===== *)
theory Ring_Buffer
  imports Mmap_Prelude
begin

text \<open>
  The lock-free ring buffer of \<open>src/src/tracker/tracker.hpp\<close> (\<open>RingBuffer\<close>): \<open>push\<close> and \<open>pop\<close> as
  whole operations, their contract as the locale \<open>bounded_fifo\<close>, and the interleaving of one
  producer with one consumer as a step relation over the atomic loads and stores of the source.
\<close>

record 'a RingBuffer =
  rb_buffer :: "'a list"
  rb_head :: size_t
  rb_tail :: size_t

text \<open>The template parameter \<open>N\<close> is the length of \<open>buffer_\<close>.\<close>

definition ring_init :: "'a list \<Rightarrow> 'a RingBuffer" where
  "ring_init buf = \<lparr>rb_buffer = buf, rb_head = 0, rb_tail = 0\<rparr>"

definition ring_push :: "'a RingBuffer \<Rightarrow> 'a \<Rightarrow> 'a RingBuffer" where
  "ring_push r item =
     (let head = rb_head r;
          next_head = (head + 1) mod length (rb_buffer r)
      in if next_head \<noteq> rb_tail r
         then r\<lparr>rb_buffer := (rb_buffer r)[head := item], rb_head := next_head\<rparr>
         else r)"

definition ring_pop :: "'a RingBuffer \<Rightarrow> ('a \<times> 'a RingBuffer) option" where
  "ring_pop r =
     (let tail = rb_tail r
      in if tail = rb_head r then None
         else Some (rb_buffer r ! tail, r\<lparr>rb_tail := (tail + 1) mod length (rb_buffer r)\<rparr>))"

subsection \<open>The contract of a bounded queue\<close>

locale bounded_fifo =
  fixes holds :: "'s \<Rightarrow> 'a list \<Rightarrow> bool"
    and room :: "'s \<Rightarrow> nat"
    and enq :: "'s \<Rightarrow> 'a \<Rightarrow> 's"
    and deq :: "'s \<Rightarrow> ('a \<times> 's) option"
  assumes enq_law: "holds s xs \<Longrightarrow> holds (enq s x) (if length xs < room s then xs @ [x] else xs)"
    and enq_room: "room (enq s x) = room s"
    and deq_empty: "holds s [] \<Longrightarrow> deq s = None"
    and deq_first: "holds s (x # xs) \<Longrightarrow> \<exists>s'. deq s = Some (x, s') \<and> holds s' xs \<and> room s' = room s"
    and holds_room: "holds s xs \<Longrightarrow> length xs \<le> room s"
begin

lemma enq_many:
  "holds s xs \<Longrightarrow> holds (foldl enq s ys) (xs @ take (room s - length xs) ys) \<and> room (foldl enq s ys) = room s"
proof (induction ys arbitrary: s xs)
  case Nil
  then show ?case by simp
next
  case (Cons y ys)
  show ?case
  proof (cases "length xs < room s")
    case True
    with enq_law [OF Cons.prems, of y] have "holds (enq s y) (xs @ [y])" by simp
    moreover have "room s - length xs = Suc (room s - Suc (length xs))" using True by simp
    ultimately show ?thesis using Cons.IH [of "enq s y" "xs @ [y]"] by (simp add: enq_room)
  next
    case False
    with enq_law [OF Cons.prems, of y] have "holds (enq s y) xs" by simp
    from Cons.IH [OF this] False show ?thesis by (simp add: enq_room)
  qed
qed

end

text \<open>A consumer that takes elements until the queue is empty.\<close>

locale drained_fifo = bounded_fifo +
  fixes drain :: "'a \<Rightarrow> 'b list \<Rightarrow> ('b list \<times> 'a) option"
  assumes drain_unfold:
    "drain s out = (case deq s of None \<Rightarrow> Some (out, s) | Some (x, s') \<Rightarrow> drain s' (out @ [x]))"
begin

lemma drain_all: "holds s xs \<Longrightarrow> \<exists>s'. drain s out = Some (out @ xs, s') \<and> holds s' [] \<and> room s' = room s"
proof (induction xs arbitrary: s out)
  case Nil
  then show ?case using drain_unfold [of s out] deq_empty by simp
next
  case (Cons x xs)
  then obtain s' where "deq s = Some (x, s')" "holds s' xs" "room s' = room s" using deq_first by blast
  then show ?case using drain_unfold [of s out] Cons.IH [of s' "out @ [x]"] by simp
qed

lemma enq_drain:
  assumes "holds s []"
  shows "\<exists>s'. drain (foldl enq s ys) out = Some (out @ take (room s) ys, s') \<and> holds s' []"
  using enq_many [OF assms, of ys] drain_all [of "foldl enq s ys" "take (room s) ys" out] by auto

end

subsection \<open>The ring buffer keeps the contract\<close>

text \<open>The elements between \<open>tail\<close> and \<open>head\<close>, oldest first.\<close>

definition ring_count :: "'a RingBuffer \<Rightarrow> nat" where
  "ring_count r = (rb_head r + length (rb_buffer r) - rb_tail r) mod length (rb_buffer r)"

definition ring_items :: "'a list \<Rightarrow> nat \<Rightarrow> nat \<Rightarrow> 'a list" where
  "ring_items buf t k = map (\<lambda>i. buf ! ((t + i) mod length buf)) [0..<k]"

definition ring_wf :: "'a RingBuffer \<Rightarrow> bool" where
  "ring_wf r \<longleftrightarrow> rb_head r < length (rb_buffer r) \<and> rb_tail r < length (rb_buffer r)"

definition ring_holds :: "'a RingBuffer \<Rightarrow> 'a list \<Rightarrow> bool" where
  "ring_holds r xs \<longleftrightarrow> ring_wf r \<and> xs = ring_items (rb_buffer r) (rb_tail r) (ring_count r)"

definition ring_room :: "'a RingBuffer \<Rightarrow> nat" where
  "ring_room r = length (rb_buffer r) - 1"

lemma length_ring_items [simp]: "length (ring_items buf t k) = k"
  by (simp add: ring_items_def)

lemma head_of_count: "ring_wf r \<Longrightarrow> rb_head r = (rb_tail r + ring_count r) mod length (rb_buffer r)"
  by (simp add: ring_wf_def ring_count_def mod_add_right_eq)

lemma ring_count_less: "ring_wf r \<Longrightarrow> ring_count r < length (rb_buffer r)"
  by (cases "length (rb_buffer r)") (auto simp: ring_wf_def ring_count_def)

lemma mod_offset_le: "i \<le> j \<Longrightarrow> j < n \<Longrightarrow> (t + j) mod n = (t + i) mod n \<Longrightarrow> i = j" for t :: nat
  using mod_eq_dvd_iff_nat [of "t + i" "t + j" n] by (auto dest: dvd_imp_le)

lemma mod_offset_eq: "i < n \<Longrightarrow> j < n \<Longrightarrow> (t + i) mod n = (t + j) mod n \<longleftrightarrow> i = j" for t :: nat
  using mod_offset_le [of i j n t] mod_offset_le [of j i n t] by (metis le_cases)

lemma count_step:
  assumes "ring_wf r"
  shows "(rb_head r + 1) mod length (rb_buffer r) = rb_tail r \<longleftrightarrow> Suc (ring_count r) = length (rb_buffer r)"
proof -
  let ?n = "length (rb_buffer r)" and ?c = "ring_count r" and ?t = "rb_tail r"
  have n: "?c < ?n" "?t < ?n" using ring_count_less [OF assms] assms by (auto simp: ring_wf_def)
  have h: "(rb_head r + 1) mod ?n = (?t + Suc ?c) mod ?n"
    using head_of_count [OF assms] by (simp add: mod_Suc_eq)
  show ?thesis
  proof (cases "Suc ?c = ?n")
    case True
    then show ?thesis using h n by simp
  next
    case False
    then have "(?t + Suc ?c) mod ?n \<noteq> (?t + 0) mod ?n" by (subst mod_offset_eq) (use n in auto)
    then show ?thesis using h n False by simp
  qed
qed

lemma ring_count_eq:
  assumes "t < length buf" "k < length buf"
  shows "ring_count \<lparr>rb_buffer = buf, rb_head = (t + k) mod length buf, rb_tail = t\<rparr> = k"
proof (cases "t + k < length buf")
  case True
  then show ?thesis using assms by (simp add: ring_count_def)
next
  case False
  then have "(t + k) mod length buf = t + k - length buf" using assms by (simp add: mod_if)
  then show ?thesis using assms False by (simp add: ring_count_def)
qed

lemma ring_items_Suc:
  "t < length buf \<Longrightarrow> ring_items buf t (Suc k) = buf ! t # ring_items buf ((t + 1) mod length buf) k"
  by (simp add: ring_items_def upt_conv_Cons map_Suc_upt [symmetric] mod_simps del: upt_Suc)

text \<open>Writing at \<open>head\<close> is outside the elements the ring holds.\<close>

lemma ring_items_write:
  assumes "t < length buf" "k < length buf"
  shows "ring_items (buf[(t + k) mod length buf := x]) t k = ring_items buf t k"
proof -
  have "(t + i) mod length buf \<noteq> (t + k) mod length buf" if "i < k" for i
    using that assms mod_offset_eq [of i "length buf" k t] by auto
  then have "buf[(t + k) mod length buf := x] ! ((t + i) mod length buf) = buf ! ((t + i) mod length buf)" if "i < k" for i
    using that by (metis nth_list_update_neq)
  then show ?thesis by (simp add: ring_items_def)
qed

text \<open>The effect of the two stores that hand an element over: \<open>head_\<close> and \<open>tail_\<close>.\<close>

lemma publish:
  assumes "ring_wf r" "Suc (ring_count r) < length (rb_buffer r)"
  defines "r' \<equiv> r\<lparr>rb_head := (rb_head r + 1) mod length (rb_buffer r)\<rparr>"
  shows "ring_wf r'" "ring_count r' = Suc (ring_count r)"
    "ring_items (rb_buffer r) (rb_tail r) (ring_count r') =
       ring_items (rb_buffer r) (rb_tail r) (ring_count r) @ [rb_buffer r ! rb_head r]"
proof -
  let ?n = "length (rb_buffer r)" and ?t = "rb_tail r" and ?c = "ring_count r"
  have t: "?t < ?n" using assms(1) by (simp add: ring_wf_def)
  have h: "rb_head r = (?t + ?c) mod ?n" "(rb_head r + 1) mod ?n = (?t + Suc ?c) mod ?n"
    using head_of_count [OF assms(1)] by (simp_all add: mod_Suc_eq)
  have "(rb_head r + 1) mod ?n < ?n" using t by (intro mod_less_divisor) auto
  then show "ring_wf r'" using t by (simp add: ring_wf_def r'_def)
  have "r' = \<lparr>rb_buffer = rb_buffer r, rb_head = (?t + Suc ?c) mod ?n, rb_tail = ?t\<rparr>"
    unfolding r'_def h(2) by (cases r) simp
  then show c: "ring_count r' = Suc ?c" using ring_count_eq [OF t assms(2)] by simp
  show "ring_items (rb_buffer r) ?t (ring_count r') = ring_items (rb_buffer r) ?t ?c @ [rb_buffer r ! rb_head r]"
    unfolding c using h(1) by (simp add: ring_items_def)
qed

lemma release:
  assumes "ring_wf r" "ring_count r = Suc k"
  defines "r' \<equiv> r\<lparr>rb_tail := (rb_tail r + 1) mod length (rb_buffer r)\<rparr>"
  shows "ring_wf r'" "ring_count r' = k" "rb_head r \<noteq> rb_tail r"
    "ring_items (rb_buffer r) (rb_tail r) (ring_count r) =
       rb_buffer r ! rb_tail r # ring_items (rb_buffer r) (rb_tail r') k"
proof -
  let ?n = "length (rb_buffer r)" and ?t = "rb_tail r" and ?u = "(rb_tail r + 1) mod length (rb_buffer r)"
  have t: "?t < ?n" "Suc k < ?n" "rb_head r < ?n"
    using assms(1,2) ring_count_less [OF assms(1)] by (auto simp: ring_wf_def)
  have u: "?u < ?n" using t by (intro mod_less_divisor) auto
  have h: "rb_head r = (?t + Suc k) mod ?n" using head_of_count [OF assms(1)] assms(2) by simp
  show "ring_wf r'" using u t by (simp add: ring_wf_def r'_def)
  have "r' = \<lparr>rb_buffer = rb_buffer r, rb_head = (?u + k) mod ?n, rb_tail = ?u\<rparr>"
    unfolding r'_def using h by (cases r) (simp add: mod_simps)
  then show "ring_count r' = k" using ring_count_eq [OF u, of k] t by simp
  have "(?t + Suc k) mod ?n \<noteq> (?t + 0) mod ?n" by (subst mod_offset_eq) (use t in auto)
  then show "rb_head r \<noteq> ?t" using h t by simp
  show "ring_items (rb_buffer r) ?t (ring_count r) = rb_buffer r ! ?t # ring_items (rb_buffer r) (rb_tail r') k"
    using ring_items_Suc [OF t(1), of k] assms(2) by (simp add: r'_def)
qed

text \<open>The store into \<open>buffer_[head]\<close>.\<close>

lemma write_head:
  fixes x
  assumes "ring_wf r"
  defines "r' \<equiv> r\<lparr>rb_buffer := (rb_buffer r)[rb_head r := x]\<rparr>"
  shows "ring_wf r'" "ring_count r' = ring_count r" "rb_buffer r' ! rb_head r = x"
    "ring_items (rb_buffer r') (rb_tail r) (ring_count r) = ring_items (rb_buffer r) (rb_tail r) (ring_count r)"
proof -
  have t: "rb_tail r < length (rb_buffer r)" "rb_head r < length (rb_buffer r)" using assms(1) by (simp_all add: ring_wf_def)
  then show "ring_wf r'" "ring_count r' = ring_count r" "rb_buffer r' ! rb_head r = x"
    by (simp_all add: r'_def ring_wf_def ring_count_def)
  show "ring_items (rb_buffer r') (rb_tail r) (ring_count r) = ring_items (rb_buffer r) (rb_tail r) (ring_count r)"
    using ring_items_write [OF t(1) ring_count_less [OF assms(1)], of x]
    unfolding head_of_count [OF assms(1), symmetric] by (simp add: r'_def)
qed

interpretation ring: bounded_fifo ring_holds ring_room ring_push ring_pop
proof (unfold_locales, goal_cases)
  case (1 r xs x)
  have wf: "ring_wf r" and xs: "xs = ring_items (rb_buffer r) (rb_tail r) (ring_count r)"
    using 1 by (auto simp: ring_holds_def)
  show ?case
  proof (cases "Suc (ring_count r) = length (rb_buffer r)")
    case True
    then have "ring_push r x = r" "\<not> length xs < ring_room r"
      using count_step [OF wf] xs by (auto simp: ring_push_def ring_room_def)
    then show ?thesis using 1 by simp
  next
    case False
    let ?r = "r\<lparr>rb_buffer := (rb_buffer r)[rb_head r := x]\<rparr>"
    note w = write_head [OF wf, of x]
    have c: "Suc (ring_count r) < length (rb_buffer r)" using ring_count_less [OF wf] False by simp
    then have "length xs < ring_room r" using xs by (simp add: ring_room_def)
    moreover have "ring_push r x = ?r\<lparr>rb_head := (rb_head ?r + 1) mod length (rb_buffer ?r)\<rparr>"
      using count_step [OF wf] False by (simp add: ring_push_def Let_def)
    moreover have "ring_holds (?r\<lparr>rb_head := (rb_head ?r + 1) mod length (rb_buffer ?r)\<rparr>) (xs @ [x])"
      using publish [OF w(1)] w c xs by (simp add: ring_holds_def)
    ultimately show ?thesis by simp
  qed
next
  case (2 r x)
  then show ?case by (simp add: ring_room_def ring_push_def Let_def)
next
  case (3 r)
  then have "ring_wf r" "ring_count r = 0" by (auto simp: ring_holds_def dest: arg_cong [of _ _ length])
  then show ?case using head_of_count [of r] by (simp add: ring_pop_def ring_wf_def)
next
  case (4 r x xs)
  have wf: "ring_wf r" and xs: "x # xs = ring_items (rb_buffer r) (rb_tail r) (ring_count r)"
    using 4 by (auto simp: ring_holds_def)
  then obtain k where k: "ring_count r = Suc k" by (cases "ring_count r") (auto simp: ring_items_def)
  then show ?case using release [OF wf k] xs by (auto simp: ring_pop_def ring_holds_def ring_room_def Let_def)
next
  case (5 r xs)
  then show ?case using ring_count_less [of r] by (auto simp: ring_holds_def ring_room_def)
qed

subsection \<open>One producer, one consumer\<close>

text \<open>
  \<open>push\<close> runs on the allocating thread while \<open>pop\<close> runs on the server thread. The program counters
  follow the source statement by statement; the release stores and acquire loads of \<open>head_\<close> and
  \<open>tail_\<close> order the accesses to \<open>buffer_\<close>, so that interleavings of these steps are what the two
  threads can observe. \<open>sent\<close> and \<open>got\<close> record the elements published and taken.
\<close>

datatype 'a producer = PIdle | PLoaded size_t 'a | PReady size_t size_t 'a | PStored size_t 'a

datatype 'a consumer = CIdle | CLoaded size_t | CReady size_t | CTaken size_t 'a

record 'a spsc =
  sp_ring :: "'a RingBuffer"
  sp_prod :: "'a producer"
  sp_cons :: "'a consumer"
  sent :: "'a list"
  got :: "'a list"

inductive spsc_step :: "'a spsc \<Rightarrow> 'a spsc \<Rightarrow> bool" where
  p_load: "sp_prod s = PIdle \<Longrightarrow> spsc_step s (s\<lparr>sp_prod := PLoaded (rb_head (sp_ring s)) item\<rparr>)"
| p_full: "sp_prod s = PLoaded h item \<Longrightarrow> (h + 1) mod length (rb_buffer (sp_ring s)) = rb_tail (sp_ring s) \<Longrightarrow>
    spsc_step s (s\<lparr>sp_prod := PIdle\<rparr>)"
| p_check: "sp_prod s = PLoaded h item \<Longrightarrow> (h + 1) mod length (rb_buffer (sp_ring s)) \<noteq> rb_tail (sp_ring s) \<Longrightarrow>
    spsc_step s (s\<lparr>sp_prod := PReady h ((h + 1) mod length (rb_buffer (sp_ring s))) item\<rparr>)"
| p_write: "sp_prod s = PReady h nh item \<Longrightarrow>
    spsc_step s (s\<lparr>sp_ring := (sp_ring s)\<lparr>rb_buffer := (rb_buffer (sp_ring s))[h := item]\<rparr>,
      sp_prod := PStored nh item\<rparr>)"
| p_publish: "sp_prod s = PStored nh item \<Longrightarrow>
    spsc_step s (s\<lparr>sp_ring := (sp_ring s)\<lparr>rb_head := nh\<rparr>, sp_prod := PIdle, sent := sent s @ [item]\<rparr>)"
| c_load: "sp_cons s = CIdle \<Longrightarrow> spsc_step s (s\<lparr>sp_cons := CLoaded (rb_tail (sp_ring s))\<rparr>)"
| c_empty: "sp_cons s = CLoaded t \<Longrightarrow> t = rb_head (sp_ring s) \<Longrightarrow> spsc_step s (s\<lparr>sp_cons := CIdle\<rparr>)"
| c_check: "sp_cons s = CLoaded t \<Longrightarrow> t \<noteq> rb_head (sp_ring s) \<Longrightarrow> spsc_step s (s\<lparr>sp_cons := CReady t\<rparr>)"
| c_read: "sp_cons s = CReady t \<Longrightarrow> spsc_step s (s\<lparr>sp_cons := CTaken t (rb_buffer (sp_ring s) ! t)\<rparr>)"
| c_release: "sp_cons s = CTaken t item \<Longrightarrow>
    spsc_step s (s\<lparr>sp_ring := (sp_ring s)\<lparr>rb_tail := (t + 1) mod length (rb_buffer (sp_ring s))\<rparr>,
      sp_cons := CIdle, got := got s @ [item]\<rparr>)"

inductive spsc_reach :: "nat \<Rightarrow> 'a spsc \<Rightarrow> bool" for n where
  spsc_start: "length buf = n \<Longrightarrow> 0 < n \<Longrightarrow>
    spsc_reach n \<lparr>sp_ring = ring_init buf, sp_prod = PIdle, sp_cons = CIdle, sent = [], got = []\<rparr>"
| spsc_next: "spsc_reach n s \<Longrightarrow> spsc_step s s' \<Longrightarrow> spsc_reach n s'"

definition producer_ok :: "'a RingBuffer \<Rightarrow> 'a producer \<Rightarrow> bool" where
  "producer_ok r p = (case p of
     PIdle \<Rightarrow> True
   | PLoaded h x \<Rightarrow> h = rb_head r
   | PReady h nh x \<Rightarrow> h = rb_head r \<and> nh = (rb_head r + 1) mod length (rb_buffer r) \<and>
       Suc (ring_count r) < length (rb_buffer r)
   | PStored nh x \<Rightarrow> nh = (rb_head r + 1) mod length (rb_buffer r) \<and>
       Suc (ring_count r) < length (rb_buffer r) \<and> rb_buffer r ! rb_head r = x)"

definition consumer_ok :: "'a RingBuffer \<Rightarrow> 'a consumer \<Rightarrow> bool" where
  "consumer_ok r c = (case c of
     CIdle \<Rightarrow> True
   | CLoaded t \<Rightarrow> t = rb_tail r
   | CReady t \<Rightarrow> t = rb_tail r \<and> 0 < ring_count r
   | CTaken t x \<Rightarrow> t = rb_tail r \<and> 0 < ring_count r \<and> x = rb_buffer r ! rb_tail r)"

definition spsc_inv :: "nat \<Rightarrow> 'a spsc \<Rightarrow> bool" where
  "spsc_inv n s \<longleftrightarrow> ring_wf (sp_ring s) \<and> length (rb_buffer (sp_ring s)) = n \<and>
     sent s = got s @ ring_items (rb_buffer (sp_ring s)) (rb_tail (sp_ring s)) (ring_count (sp_ring s)) \<and>
     producer_ok (sp_ring s) (sp_prod s) \<and> consumer_ok (sp_ring s) (sp_cons s)"

lemma nonempty_count: "ring_wf r \<Longrightarrow> rb_tail r \<noteq> rb_head r \<Longrightarrow> 0 < ring_count r"
  using head_of_count [of r] by (cases "ring_count r") (auto simp: ring_wf_def)

lemma producer_keeps:
  assumes "ring_wf r" "ring_count r = Suc k" "producer_ok r p"
  shows "producer_ok (r\<lparr>rb_tail := (rb_tail r + 1) mod length (rb_buffer r)\<rparr>) p"
  using assms(3) release(2) [OF assms(1,2)] assms(2) by (auto simp: producer_ok_def split: producer.splits)

lemma consumer_keeps_write:
  assumes "ring_wf r" "consumer_ok r c"
  shows "consumer_ok (r\<lparr>rb_buffer := (rb_buffer r)[rb_head r := x]\<rparr>) c"
proof -
  have "rb_head r \<noteq> rb_tail r" if "0 < ring_count r" using that release(3) [OF assms(1)] by (cases "ring_count r") auto
  then show ?thesis using assms(2) write_head(2) [OF assms(1), of x]
    by (auto simp: consumer_ok_def split: consumer.splits)
qed

lemma consumer_keeps_publish:
  assumes "ring_wf r" "Suc (ring_count r) < length (rb_buffer r)" "consumer_ok r c"
  shows "consumer_ok (r\<lparr>rb_head := (rb_head r + 1) mod length (rb_buffer r)\<rparr>) c"
  using assms(3) publish(2) [OF assms(1,2)] by (auto simp: consumer_ok_def split: consumer.splits)

lemma spsc_step_inv: "spsc_step s s' \<Longrightarrow> spsc_inv n s \<Longrightarrow> spsc_inv n s'"
proof (induction rule: spsc_step.induct)
  case (p_load s item)
  then show ?case by (simp add: spsc_inv_def producer_ok_def)
next
  case (p_full s h item)
  then show ?case by (simp add: spsc_inv_def producer_ok_def)
next
  case (p_check s h item)
  then show ?case using count_step [of "sp_ring s"] ring_count_less [of "sp_ring s"]
    by (auto simp: spsc_inv_def producer_ok_def)
next
  case (p_write s h nh item)
  let ?r = "sp_ring s"
  have i: "ring_wf ?r" "h = rb_head ?r" "producer_ok ?r (PReady h nh item)" "consumer_ok ?r (sp_cons s)"
    using p_write by (auto simp: spsc_inv_def producer_ok_def)
  note w = write_head [OF i(1), of item]
  have "producer_ok (?r\<lparr>rb_buffer := (rb_buffer ?r)[h := item]\<rparr>) (PStored nh item)"
    using i(2,3) w by (simp add: producer_ok_def)
  then show ?case using p_write.prems i(2) w consumer_keeps_write [OF i(1,4), of item]
    by (simp add: spsc_inv_def)
next
  case (p_publish s nh item)
  let ?r = "sp_ring s"
  have i: "ring_wf ?r" "Suc (ring_count ?r) < length (rb_buffer ?r)" "consumer_ok ?r (sp_cons s)"
    "nh = (rb_head ?r + 1) mod length (rb_buffer ?r)" "rb_buffer ?r ! rb_head ?r = item"
    using p_publish by (auto simp: spsc_inv_def producer_ok_def)
  show ?case using p_publish.prems publish [OF i(1,2)] consumer_keeps_publish [OF i(1-3)] i(4,5)
    by (simp add: spsc_inv_def producer_ok_def)
next
  case (c_load s)
  then show ?case by (simp add: spsc_inv_def consumer_ok_def)
next
  case (c_empty s t)
  then show ?case by (simp add: spsc_inv_def consumer_ok_def)
next
  case (c_check s t)
  then show ?case using nonempty_count [of "sp_ring s"] by (auto simp: spsc_inv_def consumer_ok_def)
next
  case (c_read s t)
  then show ?case by (simp add: spsc_inv_def consumer_ok_def)
next
  case (c_release s t item)
  let ?r = "sp_ring s"
  have i: "ring_wf ?r" "t = rb_tail ?r" "0 < ring_count ?r" "item = rb_buffer ?r ! rb_tail ?r"
    "producer_ok ?r (sp_prod s)" using c_release by (auto simp: spsc_inv_def consumer_ok_def)
  then obtain k where k: "ring_count ?r = Suc k" by (cases "ring_count ?r") auto
  show ?case using c_release.prems release [OF i(1) k] producer_keeps [OF i(1) k i(5)] i(2,4)
    by (simp add: spsc_inv_def consumer_ok_def)
qed

lemma spsc_reach_inv: "spsc_reach n s \<Longrightarrow> spsc_inv n s"
proof (induction rule: spsc_reach.induct)
  case (spsc_start buf)
  then show ?case
    by (auto simp: spsc_inv_def ring_init_def ring_wf_def ring_count_def ring_items_def producer_ok_def consumer_ok_def)
next
  case (spsc_next s s')
  then show ?case using spsc_step_inv by blast
qed

text \<open>C23. Whatever way the producer's \<open>push\<close> and the consumer's \<open>pop\<close> interleave, the consumer
  takes the published events in order, each once and unchanged, and at most \<open>N - 1\<close> are waiting.\<close>

theorem ring_buffer_spsc_fifo:
  assumes "spsc_reach n s"
  shows "\<exists>waiting. sent s = got s @ waiting \<and> length waiting < n"
  using spsc_reach_inv [OF assms] ring_count_less [of "sp_ring s"] by (auto simp: spsc_inv_def)

theorem ring_buffer_spsc_fifo_witness:
  "\<exists>s waiting. spsc_reach 4 s \<and> sent s = [7 :: nat] \<and> sent s = got s @ waiting \<and> length waiting < 4"
proof -
  let ?r = "ring_init [0, 0, 0, 0 :: nat]"
  let ?s = "\<lparr>sp_ring = ?r, sp_prod = PIdle, sp_cons = CIdle, sent = [], got = []\<rparr>"
  have 0: "spsc_reach 4 ?s" by (rule spsc_start) auto
  have 1: "spsc_reach 4 (?s\<lparr>sp_prod := PLoaded 0 7\<rparr>)"
    using spsc_next [OF 0 p_load [of ?s 7]] by (simp add: ring_init_def)
  have 2: "spsc_reach 4 (?s\<lparr>sp_prod := PReady 0 1 7\<rparr>)"
    using spsc_next [OF 1 p_check [of _ 0 7]] by (simp add: ring_init_def)
  have 3: "spsc_reach 4 (?s\<lparr>sp_ring := ?r\<lparr>rb_buffer := [7, 0, 0, 0]\<rparr>, sp_prod := PStored 1 7\<rparr>)"
    using spsc_next [OF 2 p_write [of _ 0 1 7]] by (simp add: ring_init_def)
  have 4: "spsc_reach 4 (?s\<lparr>sp_ring := ?r\<lparr>rb_buffer := [7, 0, 0, 0], rb_head := 1\<rparr>, sent := [7]\<rparr>)"
    using spsc_next [OF 3 p_publish [of _ 1 7]] by (simp add: ring_init_def)
  from ring_buffer_spsc_fifo [OF 4] show ?thesis using 4 by fastforce
qed

end
