(* ===== verification/Event_Tracker.thy ===== *)
theory Event_Tracker
  imports Ring_Buffer Free_List_Allocator
begin

text \<open>
  Allocation events and the per-thread tracker (\<open>src/src/tracker/block_metadata.hpp\<close>,
  \<open>src/src/tracker/tracker.hpp\<close>): the metadata records, the sampled recording of allocations and
  deallocations into a ring buffer of 4096 slots, and the drain into a vector. Clock readings are
  arguments. The tracker's reference to its allocator is an argument of the recording operations,
  which read the statistics at the time of the call.
\<close>

subsection \<open>Metadata\<close>

abbreviation (input) NUL :: char where
  "NUL \<equiv> CHR 0x00"

record BlockMetadata =
  bm_offset :: size_t
  bm_size :: size_t
  bm_alignment :: size_t
  bm_actual_size :: size_t
  bm_tag :: "char list"       \<comment> \<open>\<open>char tag[32]\<close>\<close>
  bm_timestamp :: int

definition empty_tag :: "char list" where
  "empty_tag = replicate 32 NUL"

text \<open>Copying a string into a \<open>char[32]\<close>, as \<open>BlockMetadata::set_tag\<close> and \<open>alloc_raw\<close> do.\<close>

definition copy_tag :: "char list \<Rightarrow> string \<Rightarrow> char list" where
  "copy_tag buf t = (let len = min (length t) (32 - 1) in take len t @ NUL # drop (len + 1) buf)"

definition set_tag :: "BlockMetadata \<Rightarrow> string \<Rightarrow> BlockMetadata" where
  "set_tag b t = b\<lparr>bm_tag := copy_tag (bm_tag b) t\<rparr>"

text \<open>The C string a buffer holds.\<close>

definition c_str :: "char list \<Rightarrow> string" where
  "c_str buf = takeWhile (\<lambda>c. c \<noteq> NUL) buf"

record AllocationHeader =
  ah_size :: size_t
  ah_actual_size :: size_t
  ah_magic :: size_t
  ah_tag :: "char list"

definition kMagicValue :: size_t where
  "kMagicValue = 0xAC1DCAFEDEADBEEF"

datatype EventType = Allocate | Deallocate

record AllocationEvent =
  ev_type :: EventType
  ev_block :: BlockMetadata
  ev_event_id :: size_t
  ev_total_allocated :: size_t
  ev_total_free :: size_t
  ev_fragmentation_pct :: size_t
  ev_free_block_count :: size_t

subsection \<open>The tracker\<close>

record LocalTracker =
  lt_buffer :: "AllocationEvent RingBuffer"
  lt_sampling :: size_t
  lt_next_event_id :: size_t

text \<open>The slots of \<open>event_buffer_\<close> start with arbitrary contents \<open>slots\<close>.\<close>

definition kEventSlots :: nat where
  "kEventSlots = 4096"

definition local_tracker :: "AllocationEvent list \<Rightarrow> size_t \<Rightarrow> LocalTracker" where
  "local_tracker slots sampling =
     \<lparr>lt_buffer = ring_init slots, lt_sampling = sampling, lt_next_event_id = 0\<rparr>"

text \<open>\<open>None\<close>: the remainder by a sampling rate of 0 is undefined.\<close>

definition record_alloc :: "fl_state \<Rightarrow> LocalTracker \<Rightarrow> BlockMetadata \<Rightarrow> LocalTracker option" where
  "record_alloc a t block =
     (let id = add64 (lt_next_event_id t) 1;
          t = t\<lparr>lt_next_event_id := id\<rparr>
      in if lt_sampling t = 0 then None
         else if id mod lt_sampling t \<noteq> 0 then Some t
         else
           let event = \<lparr>ev_type = Allocate, ev_block = block, ev_event_id = id,
                        ev_total_allocated = bytes_allocated a, ev_total_free = bytes_free a,
                        ev_fragmentation_pct = 0, ev_free_block_count = free_block_count a\<rparr>
           in Some (t\<lparr>lt_buffer := ring_push (lt_buffer t) event\<rparr>))"

definition record_dealloc ::
    "fl_state \<Rightarrow> LocalTracker \<Rightarrow> size_t \<Rightarrow> size_t \<Rightarrow> int \<Rightarrow> LocalTracker option" where
  "record_dealloc a t offset sz now =
     (let id = add64 (lt_next_event_id t) 1;
          t = t\<lparr>lt_next_event_id := id\<rparr>
      in if lt_sampling t = 0 then None
         else if id mod lt_sampling t \<noteq> 0 then Some t
         else
           let block = \<lparr>bm_offset = offset, bm_size = 0, bm_alignment = 0, bm_actual_size = sz,
                        bm_tag = empty_tag, bm_timestamp = now\<rparr>;
               event = \<lparr>ev_type = Deallocate, ev_block = block, ev_event_id = id,
                        ev_total_allocated = bytes_allocated a, ev_total_free = bytes_free a,
                        ev_fragmentation_pct = 0, ev_free_block_count = free_block_count a\<rparr>
           in Some (t\<lparr>lt_buffer := ring_push (lt_buffer t) event\<rparr>))"

partial_function (option) drain_to ::
    "LocalTracker \<Rightarrow> AllocationEvent list \<Rightarrow> (AllocationEvent list \<times> LocalTracker) option" where
  "drain_to t out = (case ring_pop (lt_buffer t) of
     None \<Rightarrow> Some (out, t)
   | Some (evt, r) \<Rightarrow> drain_to (t\<lparr>lt_buffer := r\<rparr>) (out @ [evt]))"

subsection \<open>Tags\<close>

lemma length_copy_tag: "length buf = 32 \<Longrightarrow> length (copy_tag buf t) = 32"
  by (simp add: copy_tag_def Let_def)

lemma c_str_copy_tag: "NUL \<notin> set t \<Longrightarrow> c_str (copy_tag buf t) = take 31 t"
proof -
  assume "NUL \<notin> set t"
  then have "\<forall>c \<in> set (take k t). c \<noteq> NUL" for k by (metis in_set_takeD)
  then show ?thesis by (simp add: c_str_def copy_tag_def Let_def takeWhile_append min_def)
qed

text \<open>Tags never leave their 32 bytes: \<open>set_tag\<close> keeps the buffer's length and terminates it,
  and the C string read back is the first 31 characters of the tag.\<close>

lemma set_tag_roundtrip:
  assumes "length (bm_tag b) = 32" "NUL \<notin> set t"
  shows "length (bm_tag (set_tag b t)) = 32 \<and> c_str (bm_tag (set_tag b t)) = take 31 t \<and>
    bm_tag (set_tag b t) ! min (length t) 31 = NUL"
proof -
  have "copy_tag (bm_tag b) t ! min (length t) 31 = NUL"
    by (simp add: copy_tag_def Let_def nth_append min_def)
  then show ?thesis using length_copy_tag [OF assms(1)] c_str_copy_tag [OF assms(2)] by (simp add: set_tag_def)
qed

subsection \<open>The tracker as a bounded queue\<close>

definition lt_holds :: "LocalTracker \<Rightarrow> AllocationEvent list \<Rightarrow> bool" where
  "lt_holds t xs \<longleftrightarrow> ring_holds (lt_buffer t) xs"

definition lt_room :: "LocalTracker \<Rightarrow> nat" where
  "lt_room t = ring_room (lt_buffer t)"

definition lt_push :: "LocalTracker \<Rightarrow> AllocationEvent \<Rightarrow> LocalTracker" where
  "lt_push t e = t\<lparr>lt_buffer := ring_push (lt_buffer t) e\<rparr>"

definition lt_pop :: "LocalTracker \<Rightarrow> (AllocationEvent \<times> LocalTracker) option" where
  "lt_pop t = map_option (\<lambda>(e, r). (e, t\<lparr>lt_buffer := r\<rparr>)) (ring_pop (lt_buffer t))"

interpretation tracker: drained_fifo lt_holds lt_room lt_push lt_pop drain_to
proof (unfold_locales, goal_cases)
  case (1 t xs x)
  then show ?case using ring.enq_law [of "lt_buffer t" xs x] by (simp add: lt_holds_def lt_room_def lt_push_def)
next
  case (2 t x)
  then show ?case by (simp add: lt_room_def lt_push_def ring.enq_room)
next
  case (3 t)
  then show ?case using ring.deq_empty by (simp add: lt_holds_def lt_pop_def)
next
  case (4 t x xs)
  then show ?case using ring.deq_first [of "lt_buffer t" x xs] by (auto simp: lt_holds_def lt_pop_def lt_room_def)
next
  case (5 t xs)
  then show ?case using ring.holds_room by (simp add: lt_holds_def lt_room_def)
next
  case (6 t out)
  then show ?case by (subst drain_to.simps) (auto simp: lt_pop_def split: option.split)
qed

subsection \<open>Sequences of recordings\<close>

datatype track_call = RecAlloc fl_state BlockMetadata | RecDealloc fl_state size_t size_t int

fun track :: "LocalTracker \<Rightarrow> track_call \<Rightarrow> LocalTracker option" where
  "track t (RecAlloc a b) = record_alloc a t b"
| "track t (RecDealloc a off sz now) = record_dealloc a t off sz now"

fun track_all :: "LocalTracker \<Rightarrow> track_call list \<Rightarrow> LocalTracker option" where
  "track_all t [] = Some t"
| "track_all t (c # cs) = do { t \<leftarrow> track t c; track_all t cs }"

text \<open>The events a tracker with sampling rate \<open>k\<close> should keep after \<open>n\<close> earlier calls.\<close>

fun event_of :: "size_t \<Rightarrow> track_call \<Rightarrow> AllocationEvent" where
  "event_of eid (RecAlloc a b) =
     \<lparr>ev_type = Allocate, ev_block = b, ev_event_id = eid, ev_total_allocated = bytes_allocated a,
      ev_total_free = bytes_free a, ev_fragmentation_pct = 0, ev_free_block_count = free_block_count a\<rparr>"
| "event_of eid (RecDealloc a off sz now) =
     \<lparr>ev_type = Deallocate,
      ev_block = \<lparr>bm_offset = off, bm_size = 0, bm_alignment = 0, bm_actual_size = sz, bm_tag = empty_tag,
        bm_timestamp = now\<rparr>,
      ev_event_id = eid, ev_total_allocated = bytes_allocated a, ev_total_free = bytes_free a,
      ev_fragmentation_pct = 0, ev_free_block_count = free_block_count a\<rparr>"

fun sampled :: "nat \<Rightarrow> size_t \<Rightarrow> track_call list \<Rightarrow> AllocationEvent list" where
  "sampled n k [] = []"
| "sampled n k (c # cs) = (if Suc n mod k = 0 then [event_of (Suc n) c] else []) @ sampled (Suc n) k cs"

lemma track_step:
  "track t c =
     (let id = add64 (lt_next_event_id t) 1 in
      if lt_sampling t = 0 then None
      else if id mod lt_sampling t \<noteq> 0 then Some (t\<lparr>lt_next_event_id := id\<rparr>)
      else Some (lt_push (t\<lparr>lt_next_event_id := id\<rparr>) (event_of id c)))"
  by (cases c) (simp_all add: record_alloc_def record_dealloc_def lt_push_def Let_def)

lemma lt_push_id: "lt_push (t\<lparr>lt_next_event_id := i\<rparr>) e = (lt_push t e)\<lparr>lt_next_event_id := i\<rparr>"
  by (simp add: lt_push_def)

lemma foldl_push_id:
  "foldl lt_push (t\<lparr>lt_next_event_id := i\<rparr>) es = (foldl lt_push t es)\<lparr>lt_next_event_id := i\<rparr>"
  by (induction es arbitrary: t) (simp_all add: lt_push_id)

lemma track_all_samples:
  "n + length cs < 2 ^ 64 \<Longrightarrow> lt_next_event_id t = n \<Longrightarrow> lt_sampling t = k \<Longrightarrow> 0 < k \<Longrightarrow>
   track_all t cs = Some ((foldl lt_push t (sampled n k cs))\<lparr>lt_next_event_id := n + length cs\<rparr>)"
proof (induction cs arbitrary: n t)
  case Nil
  then show ?case by simp
next
  case (Cons c cs)
  then have id: "add64 (lt_next_event_id t) 1 = Suc n" by simp
  let ?t = "t\<lparr>lt_next_event_id := Suc n\<rparr>"
  let ?u = "if Suc n mod k = 0 then lt_push ?t (event_of (Suc n) c) else ?t"
  have u: "track t c = Some ?u" unfolding track_step id Let_def using Cons.prems by simp
  have "lt_next_event_id ?u = Suc n" "lt_sampling ?u = k" using Cons.prems by (auto simp: lt_push_def)
  with Cons.IH [of "Suc n" ?u] Cons.prems
  have "track_all ?u cs = Some ((foldl lt_push ?u (sampled (Suc n) k cs))\<lparr>lt_next_event_id := Suc n + length cs\<rparr>)"
    by simp
  then show ?case using u by (auto simp: foldl_push_id lt_push_id)
qed

text \<open>C24. A tracker keeps the events whose number is a multiple of the sampling rate: after any
  sequence of recordings a drain returns exactly those, numbered and in order, up to the 4095 the
  buffer holds, and leaves the buffer empty.\<close>

theorem tracker_drain_exact:
  assumes "length slots = kEventSlots" "0 < k" "length cs < 2 ^ 64"
  shows "\<exists>t t'. track_all (local_tracker slots k) cs = Some t \<and>
    drain_to t out = Some (out @ take 4095 (sampled 0 k cs), t') \<and> lt_holds t' []"
proof -
  let ?t = "local_tracker slots k"
  let ?u = "(foldl lt_push ?t (sampled 0 k cs))\<lparr>lt_next_event_id := length cs\<rparr>"
  have t: "lt_holds ?t []" "lt_room ?t = 4095"
    using assms(1) by (simp_all add: lt_holds_def lt_room_def local_tracker_def ring_holds_def ring_wf_def
        ring_init_def ring_count_def ring_items_def ring_room_def kEventSlots_def)
  have "track_all ?t cs = Some ?u"
    using track_all_samples [of 0 cs ?t k] assms by (simp add: local_tracker_def)
  moreover have "lt_holds ?u (take 4095 (sampled 0 k cs))"
    using tracker.enq_many [OF t(1), of "sampled 0 k cs"] t(2) by (simp add: lt_holds_def)
  ultimately show ?thesis using tracker.drain_all [of ?u] by blast
qed

theorem tracker_drain_exact_witness:
  "\<exists>a t t'. track_all (local_tracker (replicate 4096 (event_of 0 (RecDealloc a 0 0 0))) 2)
       [RecDealloc a 64 32 1, RecDealloc a 96 48 2, RecDealloc a 160 16 3] = Some t \<and>
     drain_to t [] = Some ([event_of 2 (RecDealloc a 96 48 2)], t')"
proof -
  fix a
  let ?cs = "[RecDealloc a 64 32 1, RecDealloc a 96 48 2, RecDealloc a 160 16 3]"
  have "sampled 0 2 ?cs = [event_of 2 (RecDealloc a 96 48 2)]" by (simp add: numeral_2_eq_2 mod_Suc)
  then show ?thesis
    using tracker_drain_exact [of "replicate 4096 (event_of 0 (RecDealloc a 0 0 0))" 2 ?cs "[]"]
    by (simp add: kEventSlots_def del: track_all.simps event_of.simps sampled.simps) blast
qed

end
