(* ===== verification/Cache_Analyzer.thy ===== *)
theory Cache_Analyzer
  imports Event_Tracker Complex_Main "HOL-Library.Multiset"
begin

text \<open>
  The cache-line analyzer (\<open>src/src/interface/cache_analyzer.hpp\<close> and \<open>cache_analyzer.cpp\<close>). The
  accumulator map is an association list, \<open>iter\<close> is the order in which the \<open>unordered_map\<close> is
  traversed, \<open>sysconf\<close>'s answer is an argument. A \<open>float\<close> is a real number and \<open>fl\<close> the rounding
  every conversion to \<open>float\<close> and every \<open>float\<close> operation ends with.
\<close>

record CacheLineInfo =
  cl_line_index :: size_t
  cl_line_offset :: size_t
  cl_bytes_used :: size_t
  cl_bytes_wasted :: size_t
  cl_utilization :: real
  cl_is_split :: bool
  cl_tags :: "string list"

record CacheReport =
  cr_cache_line_size :: size_t
  cr_total_lines :: size_t
  cr_active_lines :: size_t
  cr_fully_utilized :: size_t
  cr_split_allocations :: size_t
  cr_avg_utilization :: real
  cr_lines :: "CacheLineInfo list"

record LineAccum =
  la_bytes_used :: size_t
  la_is_split :: bool
  la_tags :: "string list"

text \<open>The constructor: the line size in use.\<close>

definition cache_analyzer :: "size_t \<Rightarrow> size_t" where
  "cache_analyzer cache_line_size =
     (if \<not> has_single_bit cache_line_size \<or> cache_line_size = 0 then 64 else cache_line_size)"

text \<open>\<open>detect_line_size\<close> on Linux, given the result of \<open>sysconf\<close>.\<close>

definition detect_line_size :: "int \<Rightarrow> size_t" where
  "detect_line_size result = (if result > 0 \<and> has_single_bit (nat result) then nat result else 64)"

fun line_map_update :: "size_t \<Rightarrow> (LineAccum \<Rightarrow> LineAccum) \<Rightarrow> (size_t \<times> LineAccum) list \<Rightarrow> (size_t \<times> LineAccum) list" where
  "line_map_update k f [] = [(k, f \<lparr>la_bytes_used = 0, la_is_split = False, la_tags = []\<rparr>)]"
| "line_map_update k f ((k', a) # m) = (if k = k' then (k, f a) # m else (k', a) # line_map_update k f m)"

definition first_line :: "size_t \<Rightarrow> BlockMetadata \<Rightarrow> size_t" where
  "first_line L b = bm_offset b div L"

definition block_end :: "BlockMetadata \<Rightarrow> size_t" where
  "block_end b = add64 (bm_offset b) (bm_actual_size b)"

definition last_line :: "size_t \<Rightarrow> BlockMetadata \<Rightarrow> size_t" where
  "last_line L b = (if block_end b > 0 then (block_end b - 1) div L else first_line L b)"

definition add_line ::
    "size_t \<Rightarrow> BlockMetadata \<Rightarrow> (size_t \<times> LineAccum) list \<Rightarrow> size_t \<Rightarrow> (size_t \<times> LineAccum) list" where
  "add_line L b line_map line =
     (let line_start = mul64 line L;
          line_end = add64 line_start L;
          overlap_start = max (bm_offset b) line_start;
          overlap_end = min (block_end b) line_end
      in if overlap_start \<ge> overlap_end then line_map
         else line_map_update line (\<lambda>a.
           \<lparr>la_bytes_used = add64 (la_bytes_used a) (overlap_end - overlap_start),
            la_is_split = la_is_split a \<or> last_line L b > first_line L b,
            la_tags = (if hd (bm_tag b) \<noteq> NUL then la_tags a @ [c_str (bm_tag b)] else la_tags a)\<rparr>) line_map)"

definition add_block ::
    "size_t \<Rightarrow> (size_t \<times> LineAccum) list \<times> size_t \<Rightarrow> BlockMetadata \<Rightarrow> (size_t \<times> LineAccum) list \<times> size_t" where
  "add_block L = (\<lambda>(line_map, splits) b.
     (foldl (add_line L b) line_map [first_line L b..<Suc (last_line L b)],
      if last_line L b > first_line L b then add64 splits 1 else splits))"

definition line_info :: "(real \<Rightarrow> real) \<Rightarrow> size_t \<Rightarrow> size_t \<times> LineAccum \<Rightarrow> CacheLineInfo" where
  "line_info fl L = (\<lambda>(line_idx, a).
     let used = min (la_bytes_used a) L in
     \<lparr>cl_line_index = line_idx, cl_line_offset = mul64 line_idx L, cl_bytes_used = used,
      cl_bytes_wasted = L - used, cl_utilization = fl (fl (real used) / fl (real L)),
      cl_is_split = la_is_split a, cl_tags = la_tags a\<rparr>)"

definition analyze ::
    "(real \<Rightarrow> real) \<Rightarrow> ((size_t \<times> LineAccum) list \<Rightarrow> (size_t \<times> LineAccum) list) \<Rightarrow>
     size_t \<Rightarrow> BlockMetadata list \<Rightarrow> size_t \<Rightarrow> CacheReport" where
  "analyze fl iter L bs arena_capacity =
     (let report = \<lparr>cr_cache_line_size = L,
                    cr_total_lines = sub64 (add64 arena_capacity L) 1 div L,
                    cr_active_lines = 0, cr_fully_utilized = 0, cr_split_allocations = 0,
                    cr_avg_utilization = 0, cr_lines = []\<rparr>
      in if bs = [] \<or> arena_capacity = 0 then report
         else
           let (line_map, splits) = foldl (add_block L) ([], 0) bs;
               infos = map (line_info fl L) (iter line_map);
               full = length (filter (\<lambda>i. cl_bytes_used i = L) infos);
               total_utilization = foldl (\<lambda>t i. fl (t + cl_utilization i)) 0 infos;
               active = length infos
           in report\<lparr>cr_split_allocations := splits, cr_fully_utilized := full,
                     cr_active_lines := active,
                     cr_avg_utilization := (if active > 0 then fl (total_utilization / fl (real active)) else 0),
                     cr_lines := sort_key cl_line_index infos\<rparr>)"

subsection \<open>The accumulated map\<close>

definition acc_at :: "(size_t \<times> LineAccum) list \<Rightarrow> size_t \<Rightarrow> LineAccum" where
  "acc_at m l = (case map_of m l of None \<Rightarrow> \<lparr>la_bytes_used = 0, la_is_split = False, la_tags = []\<rparr> | Some a \<Rightarrow> a)"

abbreviation used_at :: "(size_t \<times> LineAccum) list \<Rightarrow> size_t \<Rightarrow> nat" where
  "used_at m l \<equiv> la_bytes_used (acc_at m l)"

text \<open>The bytes of \<open>[s, e)\<close> on line \<open>l\<close>.\<close>

definition overlap :: "size_t \<Rightarrow> nat \<Rightarrow> nat \<Rightarrow> nat \<Rightarrow> nat" where
  "overlap L s e l = min e (l * L + L) - max s (l * L)"

lemma acc_at_update: "acc_at (line_map_update k f m) l = (if l = k then f (acc_at m k) else acc_at m l)"
  by (induction k f m rule: line_map_update.induct) (auto simp: acc_at_def)

lemma keys_update: "fst ` set (line_map_update k f m) = insert k (fst ` set m)"
  by (induction k f m rule: line_map_update.induct) auto

lemma distinct_update: "distinct (map fst m) \<Longrightarrow> distinct (map fst (line_map_update k f m))"
proof (induction k f m rule: line_map_update.induct)
  case (2 k f k' a m)
  then show ?case using keys_update [of k f m] by auto
qed auto

definition lm_ok :: "(size_t \<times> LineAccum) list \<Rightarrow> bool" where
  "lm_ok m \<longleftrightarrow> distinct (map fst m) \<and> (\<forall>x \<in> set m. 0 < la_bytes_used (snd x))"

lemma set_update:
  "distinct (map fst m) \<Longrightarrow> x \<in> set (line_map_update k f m) \<Longrightarrow> x \<in> set m \<or> x = (k, f (acc_at m k))"
  by (induction k f m rule: line_map_update.induct) (auto simp: acc_at_def split: if_splits)

lemma lm_ok_update: "lm_ok m \<Longrightarrow> 0 < la_bytes_used (f (acc_at m k)) \<Longrightarrow> lm_ok (line_map_update k f m)"
  using distinct_update [of m k f] by (auto simp: lm_ok_def dest!: set_update)

lemma lm_ok_used: "lm_ok m \<Longrightarrow> (l, a) \<in> set m \<Longrightarrow> acc_at m l = a"
  by (simp add: lm_ok_def acc_at_def)

lemma lm_ok_keys:
  assumes "lm_ok m"
  shows "l \<in> fst ` set m \<longleftrightarrow> 0 < used_at m l"
proof (cases "map_of m l")
  case None
  have "used_at m l = 0" unfolding acc_at_def None by simp
  then show ?thesis using None by (simp add: map_of_eq_None_iff)
next
  case (Some a)
  then have "(l, a) \<in> set m" by (rule map_of_SomeD)
  then show ?thesis using Some assms by (force simp: acc_at_def lm_ok_def)
qed

abbreviation on_line :: "size_t \<Rightarrow> BlockMetadata \<Rightarrow> nat \<Rightarrow> nat" where
  "on_line L b \<equiv> overlap L (bm_offset b) (bm_offset b + bm_actual_size b)"

definition block_ok :: "size_t \<Rightarrow> size_t \<Rightarrow> BlockMetadata \<Rightarrow> bool" where
  "block_ok L cap b \<longleftrightarrow> 0 < L \<and> cap + L < 2 ^ 64 \<and> bm_offset b + bm_actual_size b \<le> cap"

lemma overlap_le: "overlap L s e l \<le> e - s"
  by (auto simp: overlap_def)

lemma block_end_eq: "block_ok L cap b \<Longrightarrow> block_end b = bm_offset b + bm_actual_size b"
  by (simp add: block_ok_def block_end_def)

lemma off_line:
  assumes "block_ok L cap b" "l \<notin> set [first_line L b..<Suc (last_line L b)]"
  shows "on_line L b l = 0"
proof (cases "bm_actual_size b = 0")
  case True
  then show ?thesis using overlap_le [of L "bm_offset b" "bm_offset b" l] by simp
next
  case False
  let ?s = "bm_offset b" and ?e = "bm_offset b + bm_actual_size b"
  have L: "0 < L" using assms(1) by (simp add: block_ok_def)
  have "last_line L b = (?e - 1) div L" using False by (simp add: last_line_def block_end_eq [OF assms(1)])
  then consider "l < ?s div L" | "(?e - 1) div L < l" using assms(2) by (force simp: first_line_def)
  then show ?thesis
  proof cases
    case 1
    then have "(l + 1) * L \<le> ?s" using L by (metis Suc_eq_plus1 Suc_leI le_trans mult_le_mono1 div_times_less_eq_dividend)
    then show ?thesis by (simp add: overlap_def)
  next
    case 2
    then have "?e - 1 < l * L" using L by (simp add: div_less_iff_less_mult)
    then show ?thesis by (simp add: overlap_def)
  qed
qed

lemma add_line_used:
  assumes b: "block_ok L cap b" and l: "line \<le> last_line L b" and m: "lm_ok m" and w: "used_at m line + on_line L b line < 2 ^ 64"
  shows "lm_ok (add_line L b m line)"
    "used_at (add_line L b m line) l = used_at m l + (if l = line then on_line L b line else 0)"
proof -
  let ?s = "bm_offset b" and ?e = "bm_offset b + bm_actual_size b" and ?ls = "line * L"
  have L: "0 < L" "?e \<le> cap" "cap + L < 2 ^ 64" using b by (auto simp: block_ok_def)
  have "(?e - 1) div L * L \<le> ?e" "?s div L * L \<le> ?e"
    using div_times_less_eq_dividend [of "?e - 1" L] div_times_less_eq_dividend [of ?s L] by linarith+
  then have "last_line L b * L \<le> ?e" by (simp add: last_line_def first_line_def block_end_eq [OF b])
  then have "?ls \<le> ?e" using l by (meson mult_le_mono1 le_trans)
  then have "mul64 line L = ?ls" "add64 ?ls L = ?ls + L" using L by auto
  then have A: "add_line L b m line =
      (if min ?e (?ls + L) \<le> max ?s ?ls then m
       else line_map_update line (\<lambda>a. \<lparr>la_bytes_used = add64 (la_bytes_used a) (on_line L b line),
            la_is_split = la_is_split a \<or> last_line L b > first_line L b,
            la_tags = (if hd (bm_tag b) \<noteq> NUL then la_tags a @ [c_str (bm_tag b)] else la_tags a)\<rparr>) m)"
    by (simp add: add_line_def block_end_eq [OF b] overlap_def Let_def)
  show "used_at (add_line L b m line) l = used_at m l + (if l = line then on_line L b line else 0)"
    using w by (auto simp: A acc_at_update overlap_def)
  show "lm_ok (add_line L b m line)" unfolding A using m w by (auto intro!: lm_ok_update simp: overlap_def)
qed

lemma add_lines_used:
  assumes b: "block_ok L cap b"
  shows "lm_ok m \<Longrightarrow> distinct ls \<Longrightarrow> (\<forall>x \<in> set ls. x \<le> last_line L b) \<Longrightarrow>
    (\<forall>x. used_at m x + bm_actual_size b < 2 ^ 64) \<Longrightarrow>
    lm_ok (foldl (add_line L b) m ls) \<and>
    (\<forall>l. used_at (foldl (add_line L b) m ls) l = used_at m l + (if l \<in> set ls then on_line L b l else 0))"
proof (induction ls rule: rev_induct)
  case (snoc x ls)
  let ?m = "foldl (add_line L b) m ls"
  have IH: "lm_ok ?m" "\<forall>l. used_at ?m l = used_at m l + (if l \<in> set ls then on_line L b l else 0)"
    using snoc by auto
  have "on_line L b x \<le> bm_actual_size b"
    using overlap_le [of L "bm_offset b" "bm_offset b + bm_actual_size b" x] by simp
  then have w: "used_at ?m x + on_line L b x < 2 ^ 64"
    using IH(2) snoc.prems(2,4) by (simp, meson le_less_trans nat_add_left_cancel_le)
  from add_line_used [OF b _ IH(1) w] snoc.prems IH(2) show ?case by auto
qed simp

lemma add_block_used:
  assumes b: "block_ok L cap b" and m: "lm_ok m" and w: "\<forall>x. used_at m x + bm_actual_size b < 2 ^ 64"
  shows "lm_ok (fst (add_block L (m, n) b))"
    "used_at (fst (add_block L (m, n) b)) l = used_at m l + on_line L b l"
    "snd (add_block L (m, n) b) = (if first_line L b < last_line L b then add64 n 1 else n)"
proof -
  let ?ls = "[first_line L b..<Suc (last_line L b)]"
  have ls: "\<forall>x \<in> set ?ls. x \<le> last_line L b" by auto
  note U = add_lines_used [OF b m distinct_upt ls w]
  show "lm_ok (fst (add_block L (m, n) b))" using U by (simp add: add_block_def)
  show "used_at (fst (add_block L (m, n) b)) l = used_at m l + on_line L b l"
    using U off_line [OF b, of l] by (auto simp: add_block_def simp del: upt_Suc set_upt)
  show "snd (add_block L (m, n) b) = (if first_line L b < last_line L b then add64 n 1 else n)"
    by (simp add: add_block_def)
qed

text \<open>What the loop over the blocks computes.\<close>

lemma add_blocks_used:
  "(\<forall>b \<in> set bs. block_ok L cap b) \<Longrightarrow> sum_list (map bm_actual_size bs) < 2 ^ 64 \<Longrightarrow> length bs < 2 ^ 64 \<Longrightarrow>
   lm_ok (fst (foldl (add_block L) ([], 0) bs)) \<and>
   (\<forall>l. used_at (fst (foldl (add_block L) ([], 0) bs)) l = (\<Sum>b\<leftarrow>bs. on_line L b l)) \<and>
   snd (foldl (add_block L) ([], 0) bs) = length (filter (\<lambda>b. first_line L b < last_line L b) bs)"
proof (induction bs rule: rev_induct)
  case Nil
  then show ?case by (simp add: lm_ok_def acc_at_def)
next
  case (snoc b bs)
  obtain m n where mn: "foldl (add_block L) ([], 0) bs = (m, n)" by fastforce
  have IH: "lm_ok m" "\<forall>l. used_at m l = (\<Sum>b\<leftarrow>bs. on_line L b l)"
     "n = length (filter (\<lambda>b. first_line L b < last_line L b) bs)" using snoc mn by auto
  have "(\<Sum>b\<leftarrow>bs. on_line L b x) \<le> (\<Sum>b\<leftarrow>bs. bm_actual_size b)" for x
    using overlap_le by (intro sum_list_mono) (metis add_diff_cancel_left')
  then have w: "\<forall>x. used_at m x + bm_actual_size b < 2 ^ 64"
    using IH(2) snoc.prems(2) by (auto intro: le_less_trans [rotated])
  have ok: "block_ok L cap b" using snoc.prems by simp
  have "n \<le> length bs" unfolding IH(3) by (rule length_filter_le)
  then have "add64 n 1 = Suc n" using snoc.prems(3) by simp
  then show ?case using add_block_used [OF ok IH(1) w, of n] IH mn by simp
qed

subsection \<open>The report\<close>

text \<open>A block's bytes, and the bytes of a line that are in use.\<close>

definition bytes_of :: "BlockMetadata \<Rightarrow> nat set" where
  "bytes_of b = {bm_offset b..<bm_offset b + bm_actual_size b}"

definition line_bytes :: "size_t \<Rightarrow> nat \<Rightarrow> nat set" where
  "line_bytes L l = {l * L..<l * L + L}"

definition live_on :: "size_t \<Rightarrow> BlockMetadata list \<Rightarrow> nat \<Rightarrow> nat" where
  "live_on L bs l = card (\<Union> (bytes_of ` set bs) \<inter> line_bytes L l)"

fun disjoint_spans :: "BlockMetadata list \<Rightarrow> bool" where
  "disjoint_spans [] = True"
| "disjoint_spans (b # bs) = (list_all (\<lambda>c. bytes_of b \<inter> bytes_of c = {}) bs \<and> disjoint_spans bs)"

lemma overlap_card: "on_line L b l = card (bytes_of b \<inter> line_bytes L l)"
  by (simp add: overlap_def bytes_of_def line_bytes_def)

lemma live_on_sum: "disjoint_spans bs \<Longrightarrow> (\<Sum>b\<leftarrow>bs. on_line L b l) = live_on L bs l"
proof (induction bs)
  case (Cons b bs)
  let ?X = "bytes_of b \<inter> line_bytes L l" and ?Y = "\<Union> (bytes_of ` set bs) \<inter> line_bytes L l"
  have "finite ?X" "finite ?Y" by (auto simp: line_bytes_def)
  moreover have "?X \<inter> ?Y = {}" using Cons.prems by (auto simp: list_all_iff)
  ultimately have "card (?X \<union> ?Y) = card ?X + card ?Y" by (rule card_Un_disjoint)
  moreover have "?X \<union> ?Y = \<Union> (bytes_of ` set (b # bs)) \<inter> line_bytes L l" by auto
  ultimately show ?case using Cons by (simp add: overlap_card [of L b l] live_on_def)
qed (simp add: live_on_def)

lemma live_on_le: "live_on L bs l \<le> L"
  using card_mono [of "line_bytes L l" "\<Union> (bytes_of ` set bs) \<inter> line_bytes L l"] by (simp add: live_on_def line_bytes_def)

lemma distinct_map_card:
  assumes "distinct (map f xs)"
  shows "length xs = card (f ` set xs)"
  using assms by (metis distinct_card length_map set_map)

definition analyzed :: "size_t \<Rightarrow> size_t \<Rightarrow> BlockMetadata list \<Rightarrow> bool" where
  "analyzed L cap bs \<longleftrightarrow> bs \<noteq> [] \<and> 0 < cap \<and> length bs < 2 ^ 64 \<and> sum_list (map bm_actual_size bs) < 2 ^ 64 \<and>
     list_all (block_ok L cap) bs \<and> disjoint_spans bs"

lemma analyze_lines:
  fixes fl
  assumes a: "analyzed L cap bs" and it: "\<And>m. mset (iter m) = mset m"
  defines "R \<equiv> analyze fl iter L bs cap"
  shows "sorted (map cl_line_index (cr_lines R))" "distinct (map cl_line_index (cr_lines R))"
    "cl_line_index ` set (cr_lines R) = {l. 0 < live_on L bs l}"
    "\<And>i. i \<in> set (cr_lines R) \<Longrightarrow> cl_bytes_used i = live_on L bs (cl_line_index i) \<and>
       cl_bytes_used i + cl_bytes_wasted i = L \<and> cl_utilization i = fl (fl (real (cl_bytes_used i)) / fl (real L))"
    "cr_active_lines R = length (cr_lines R)"
    "cr_fully_utilized R = length (filter (\<lambda>i. cl_bytes_used i = L) (cr_lines R))"
    "cr_split_allocations R = length (filter (\<lambda>b. first_line L b < last_line L b) bs)"
proof -
  obtain m n where mn: "foldl (add_block L) ([], 0) bs = (m, n)" by fastforce
  have u: "lm_ok m" "\<And>l. used_at m l = live_on L bs l" "n = length (filter (\<lambda>b. first_line L b < last_line L b) bs)"
    using add_blocks_used [of bs L cap] a mn live_on_sum [of bs] by (auto simp: analyzed_def list_all_iff)
  let ?is = "map (line_info fl L) (iter m)"
  have lines: "cr_lines R = sort_key cl_line_index ?is" "cr_split_allocations R = n" "cr_active_lines R = length ?is"
    "cr_fully_utilized R = length (filter (\<lambda>i. cl_bytes_used i = L) ?is)"
    using a mn by (auto simp: R_def analyze_def analyzed_def Let_def)
  have ix: "cl_line_index (line_info fl L x) = fst x" for x by (cases x) (simp add: line_info_def Let_def)
  have st: "set (iter m) = set m" using it by (metis mset_eq_setD)
  have ks: "map cl_line_index ?is = map fst (iter m)" by (simp add: ix)
  have "mset (map fst (iter m)) = mset (map fst m)" using it by simp
  then have di: "distinct (map fst (iter m))" using u(1) by (metis lm_ok_def mset_eq_imp_distinct_iff)
  show "sorted (map cl_line_index (cr_lines R))" by (simp add: lines)
  have "mset (map cl_line_index (cr_lines R)) = mset (map cl_line_index ?is)" by (simp add: lines multiset.map_comp)
  then show "distinct (map cl_line_index (cr_lines R))" using di ks by (metis mset_eq_imp_distinct_iff)
  have "cl_line_index ` set (cr_lines R) = fst ` set m" using st by (auto simp: lines image_image ix)
  then show "cl_line_index ` set (cr_lines R) = {l. 0 < live_on L bs l}" using lm_ok_keys [OF u(1)] u(2) by auto
  show "cr_active_lines R = length (cr_lines R)" "cr_split_allocations R = length (filter (\<lambda>b. first_line L b < last_line L b) bs)"
    using u(3) by (simp_all add: lines)
  have "mset (filter (\<lambda>i. cl_bytes_used i = L) (cr_lines R)) = mset (filter (\<lambda>i. cl_bytes_used i = L) ?is)"
    by (simp add: lines)
  then show "cr_fully_utilized R = length (filter (\<lambda>i. cl_bytes_used i = L) (cr_lines R))"
    unfolding lines by (metis size_mset)
  fix i assume "i \<in> set (cr_lines R)"
  then obtain l acc where x: "(l, acc) \<in> set m" "i = line_info fl L (l, acc)" using st by (auto simp: lines)
  then have "la_bytes_used acc = live_on L bs l" using lm_ok_used [OF u(1)] u(2) by metis
  then show "cl_bytes_used i = live_on L bs (cl_line_index i) \<and> cl_bytes_used i + cl_bytes_wasted i = L \<and>
      cl_utilization i = fl (fl (real (cl_bytes_used i)) / fl (real L))"
    using live_on_le [of L bs l] x(2) by (simp add: line_info_def Let_def min_def)
qed

text \<open>Counting the lines with a given value of \<open>f\<close>, when the reported lines have the right value and none is missing.\<close>

lemma lines_with_value:
  assumes "distinct (map cl_line_index is)" "\<And>i. i \<in> set is \<Longrightarrow> cl_bytes_used i = f (cl_line_index i)"
    "\<And>l. f l = n \<Longrightarrow> l \<in> cl_line_index ` set is"
  shows "length (filter (\<lambda>i. cl_bytes_used i = n) is) = card {l. f l = n}"
proof -
  let ?F = "filter (\<lambda>i. cl_bytes_used i = n) is"
  have "length ?F = card (cl_line_index ` set ?F)"
    using distinct_map_card [OF distinct_map_filter [OF assms(1)]] .
  moreover have "cl_line_index ` set ?F = {l. f l = n}" using assms(2,3) by force
  ultimately show ?thesis by simp
qed

text \<open>C29. For blocks that do not overlap, the analyzer reports each cache line some live byte lies
  on exactly once, in order of address, with the number of live bytes on it; it counts the lines,
  the full lines and the blocks that straddle a line boundary.\<close>

theorem analyze_counts_live_bytes:
  assumes "analyzed L cap bs" "\<And>m. mset (iter m) = mset m"
  shows "map cl_line_index (cr_lines (analyze fl iter L bs cap)) = sorted_list_of_set {l. 0 < live_on L bs l} \<and>
    list_all (\<lambda>i. cl_bytes_used i = live_on L bs (cl_line_index i) \<and> cl_bytes_wasted i = L - cl_bytes_used i)
      (cr_lines (analyze fl iter L bs cap)) \<and>
    cr_active_lines (analyze fl iter L bs cap) = card {l. 0 < live_on L bs l} \<and>
    cr_fully_utilized (analyze fl iter L bs cap) = card {l. live_on L bs l = L} \<and>
    cr_split_allocations (analyze fl iter L bs cap) = length (filter (\<lambda>b. first_line L b < last_line L b) bs)"
proof -
  let ?R = "analyze fl iter L bs cap" and ?K = "{l. 0 < live_on L bs l}"
  note A = analyze_lines [where iter = iter and fl = fl, OF assms]
  have L: "0 < L" using assms(1) by (cases bs) (auto simp: analyzed_def block_ok_def)
  have K: "set (map cl_line_index (cr_lines ?R)) = ?K" using A(3) by simp
  have used: "cl_bytes_used i = live_on L bs (cl_line_index i)" if "i \<in> set (cr_lines ?R)" for i
    using A(4) [OF that] by blast
  have "map cl_line_index (cr_lines ?R) = sorted_list_of_set ?K"
    using A(1,2) K by (metis sorted_list_of_set_unique List.finite_set sorted_distinct_set_unique
        sorted_list_of_set.distinct_sorted_key_list_of_set sorted_list_of_set.set_sorted_key_list_of_set
        sorted_list_of_set.sorted_sorted_key_list_of_set)
  moreover have "cr_active_lines ?R = card ?K"
    using A(2,5) K by (metis distinct_card length_map)
  moreover have "cr_fully_utilized ?R = card {l. live_on L bs l = L}"
  proof -
    have "l \<in> cl_line_index ` set (cr_lines ?R)" if "live_on L bs l = L" for l
      unfolding A(3) using L that by simp
    then show ?thesis using A(6) lines_with_value [OF A(2) used, of L] by simp
  qed
  moreover have "list_all (\<lambda>i. cl_bytes_used i = live_on L bs (cl_line_index i) \<and> cl_bytes_wasted i = L - cl_bytes_used i)
      (cr_lines ?R)"
    unfolding list_all_iff
  proof
    fix i assume i: "i \<in> set (cr_lines ?R)"
    show "cl_bytes_used i = live_on L bs (cl_line_index i) \<and> cl_bytes_wasted i = L - cl_bytes_used i"
      using A(4) [OF i] by linarith
  qed
  ultimately show ?thesis using A(7) by simp
qed

definition demo_block :: "size_t \<Rightarrow> size_t \<Rightarrow> BlockMetadata" where
  "demo_block off n = \<lparr>bm_offset = off, bm_size = n, bm_alignment = 16, bm_actual_size = n,
     bm_tag = empty_tag, bm_timestamp = 0\<rparr>"

theorem analyze_counts_live_bytes_witness:
  "analyzed 64 4096 [demo_block 0 64, demo_block 96 64] \<and>
   cr_active_lines (analyze id rev 64 [demo_block 0 64, demo_block 96 64] 4096) =
     card {l. 0 < live_on 64 [demo_block 0 64, demo_block 96 64] l} \<and>
   cr_split_allocations (analyze id rev 64 [demo_block 0 64, demo_block 96 64] 4096) = 1"
proof -
  let ?bs = "[demo_block 0 64, demo_block 96 64]"
  have a: "analyzed 64 4096 ?bs"
    by (simp add: analyzed_def block_ok_def demo_block_def bytes_of_def)
  have "length (filter (\<lambda>b. first_line 64 b < last_line 64 b) ?bs) = 1"
    by (simp add: demo_block_def first_line_def last_line_def block_end_def)
  then show ?thesis using analyze_counts_live_bytes [OF a, of rev id] a by simp
qed

text \<open>Every utilization the analyzer reports lies between 0 and 1, for any monotone rounding of
  \<open>float\<close> that keeps 0 and 1.\<close>

lemma analyze_utilization_bounds:
  assumes "analyzed L cap bs" "\<And>m. mset (iter m) = mset m" "mono fl" "fl 0 = 0" "fl 1 = 1"
    "i \<in> set (cr_lines (analyze fl iter L bs cap))"
  shows "0 \<le> cl_utilization i \<and> cl_utilization i \<le> 1"
proof -
  note A = analyze_lines(4) [where iter = iter and fl = fl, OF assms(1,2,6)]
  let ?u = "fl (real (cl_bytes_used i))" and ?l = "fl (real L)"
  have L: "1 \<le> L" using assms(1) by (cases bs) (auto simp: analyzed_def block_ok_def)
  have "cl_bytes_used i \<le> L" using A by linarith
  then have "?u \<le> ?l" using monoD [OF assms(3)] by simp
  moreover have "0 \<le> ?u" using monoD [OF assms(3), of 0 "real (cl_bytes_used i)"] assms(4) by simp
  moreover have "1 \<le> ?l" using monoD [OF assms(3), of 1 "real L"] assms(5) L by simp
  ultimately have "0 \<le> ?u / ?l" "?u / ?l \<le> 1" by auto
  then have "fl 0 \<le> fl (?u / ?l)" "fl (?u / ?l) \<le> fl 1" using monoD [OF assms(3)] by blast+
  then show ?thesis using A assms(4,5) by simp
qed

end
