(* ===== verification/Padding_Inspector.thy ===== *)
theory Padding_Inspector
  imports Event_Tracker Complex_Main
begin

text \<open>
  The padding reports (\<open>src/src/interface/padding_inspector.hpp\<close>): the report over live
  allocations and the layout of a struct whose fields the macro \<open>MMAP_VIZ_INSPECT\<close> lists. \<open>fl\<close> is
  the rounding of \<open>float\<close>.
\<close>

record BlockPaddingInfo =
  bp_offset :: size_t
  bp_requested_size :: size_t
  bp_actual_size :: size_t
  bp_alignment :: size_t
  bp_padding_bytes :: size_t
  bp_efficiency :: real
  bp_tag :: string

record PaddingReport =
  pr_total_requested :: size_t
  pr_total_actual :: size_t
  pr_total_wasted :: size_t
  pr_efficiency :: real
  pr_blocks :: "BlockPaddingInfo list"

definition block_padding :: "(real \<Rightarrow> real) \<Rightarrow> BlockMetadata \<Rightarrow> BlockPaddingInfo" where
  "block_padding fl b =
     (let wasted = (if bm_actual_size b > bm_size b then bm_actual_size b - bm_size b else 0);
          eff = (if bm_actual_size b > 0 then fl (fl (real (bm_size b)) / fl (real (bm_actual_size b))) else 0)
      in \<lparr>bp_offset = bm_offset b, bp_requested_size = bm_size b, bp_actual_size = bm_actual_size b,
          bp_alignment = bm_alignment b, bp_padding_bytes = wasted, bp_efficiency = eff,
          bp_tag = c_str (bm_tag b)\<rparr>)"

definition add_padding :: "(real \<Rightarrow> real) \<Rightarrow> PaddingReport \<Rightarrow> BlockMetadata \<Rightarrow> PaddingReport" where
  "add_padding fl report b =
     report\<lparr>pr_blocks := pr_blocks report @ [block_padding fl b],
            pr_total_requested := add64 (pr_total_requested report) (bm_size b),
            pr_total_actual := add64 (pr_total_actual report) (bm_actual_size b)\<rparr>"

definition compute_padding_report :: "(real \<Rightarrow> real) \<Rightarrow> BlockMetadata list \<Rightarrow> PaddingReport" where
  "compute_padding_report fl bs =
     (let report = foldl (add_padding fl)
            \<lparr>pr_total_requested = 0, pr_total_actual = 0, pr_total_wasted = 0, pr_efficiency = 0, pr_blocks = []\<rparr> bs;
          report = report\<lparr>pr_total_wasted :=
            (if pr_total_actual report > pr_total_requested report
             then pr_total_actual report - pr_total_requested report else 0)\<rparr>
      in report\<lparr>pr_efficiency :=
           (if pr_total_actual report > 0
            then fl (fl (real (pr_total_requested report)) / fl (real (pr_total_actual report))) else 0)\<rparr>)"

record FieldInfo =
  fi_name :: string
  fi_offset :: size_t
  fi_size :: size_t
  fi_alignment :: size_t
  fi_padding_before :: size_t

record LayoutInfo =
  lo_type_name :: string
  lo_total_size :: size_t
  lo_total_alignment :: size_t
  lo_useful_bytes :: size_t
  lo_padding_bytes :: size_t
  lo_tail_padding :: size_t
  lo_efficiency :: real
  lo_fields :: "FieldInfo list"

text \<open>The loop over the fields, with \<open>useful\<close> and \<open>prev_end\<close>.\<close>

fun layout_fields :: "size_t \<Rightarrow> size_t \<Rightarrow> FieldInfo list \<Rightarrow> FieldInfo list \<times> size_t \<times> size_t" where
  "layout_fields useful prev_end [] = ([], useful, prev_end)"
| "layout_fields useful prev_end (f # fs) =
     (let f' = f\<lparr>fi_padding_before := (if fi_offset f \<ge> prev_end then fi_offset f - prev_end else 0)\<rparr>;
          (fs', u, e) = layout_fields (add64 useful (fi_size f)) (add64 (fi_offset f) (fi_size f)) fs
      in (f' # fs', u, e))"

definition build_layout :: "(real \<Rightarrow> real) \<Rightarrow> string \<Rightarrow> size_t \<Rightarrow> size_t \<Rightarrow> FieldInfo list \<Rightarrow> LayoutInfo" where
  "build_layout fl type_name total_size total_align flds =
     (let (flds, useful, prev_end) = layout_fields 0 0 flds;
          tail = (if total_size \<ge> prev_end then total_size - prev_end else 0);
          pad = sub64 total_size useful;
          eff = (if total_size > 0 then fl (fl (real useful) / fl (real total_size)) else 0)
      in \<lparr>lo_type_name = type_name, lo_total_size = total_size, lo_total_alignment = total_align,
          lo_useful_bytes = useful, lo_padding_bytes = pad, lo_tail_padding = tail,
          lo_efficiency = eff, lo_fields = flds\<rparr>)"

subsection \<open>Padding of live allocations\<close>

lemma foldl_padding:
  "pr_total_requested r + sum_list (map bm_size bs) < 2 ^ 64 \<Longrightarrow>
   pr_total_actual r + sum_list (map bm_actual_size bs) < 2 ^ 64 \<Longrightarrow>
   foldl (add_padding fl) r bs = r\<lparr>pr_blocks := pr_blocks r @ map (block_padding fl) bs,
     pr_total_requested := pr_total_requested r + sum_list (map bm_size bs),
     pr_total_actual := pr_total_actual r + sum_list (map bm_actual_size bs)\<rparr>"
  by (induction bs arbitrary: r) (simp_all add: add_padding_def)

lemma sum_padding:
  "list_all (\<lambda>b. bm_size b \<le> bm_actual_size b) bs \<Longrightarrow>
   sum_list (map bm_actual_size bs) =
     sum_list (map bm_size bs) + sum_list (map (bp_padding_bytes \<circ> block_padding fl) bs)"
  by (induction bs) (auto simp: block_padding_def Let_def)

text \<open>For blocks no smaller than requested, the padding report is consistent: one entry per
  block, and the total waste is the sum of the blocks' padding, what is allocated beyond the request.\<close>

lemma padding_report_consistent:
  assumes "list_all (\<lambda>b. bm_size b \<le> bm_actual_size b) bs" "sum_list (map bm_actual_size bs) < 2 ^ 64"
  shows "pr_blocks (compute_padding_report fl bs) = map (block_padding fl) bs \<and>
    pr_total_wasted (compute_padding_report fl bs) =
      sum_list (map bp_padding_bytes (pr_blocks (compute_padding_report fl bs))) \<and>
    pr_total_requested (compute_padding_report fl bs) + pr_total_wasted (compute_padding_report fl bs) =
      pr_total_actual (compute_padding_report fl bs)"
proof -
  let ?r = "\<lparr>pr_total_requested = 0, pr_total_actual = 0, pr_total_wasted = 0, pr_efficiency = 0, pr_blocks = []\<rparr>"
  note S = sum_padding [OF assms(1), of fl]
  have "foldl (add_padding fl) ?r bs = ?r\<lparr>pr_blocks := map (block_padding fl) bs,
      pr_total_requested := sum_list (map bm_size bs), pr_total_actual := sum_list (map bm_actual_size bs)\<rparr>"
    using foldl_padding [of ?r bs fl] S assms(2) by simp
  then show ?thesis using S by (auto simp: compute_padding_report_def Let_def comp_def)
qed

subsection \<open>Struct layouts\<close>

text \<open>The fields as a compiler lays them out: in order, without overlap, inside the struct.\<close>

fun fields_ok :: "size_t \<Rightarrow> size_t \<Rightarrow> FieldInfo list \<Rightarrow> bool" where
  "fields_ok prev_end tot [] = (prev_end \<le> tot)"
| "fields_ok prev_end tot (f # fs) =
     (prev_end \<le> fi_offset f \<and> fields_ok (fi_offset f + fi_size f) tot fs)"

lemma fields_ok_le: "fields_ok e t fs \<Longrightarrow> e \<le> t"
  by (induction e t fs rule: fields_ok.induct) auto

lemma layout_fields_sum:
  "fields_ok e t fs \<Longrightarrow> t < 2 ^ 64 \<Longrightarrow> u \<le> e \<Longrightarrow> layout_fields u e fs = (gs, v, d) \<Longrightarrow>
   v = u + sum_list (map fi_size fs) \<and> d \<le> t \<and> d + u = e + sum_list (map fi_padding_before gs) + v \<and> v \<le> d"
proof (induction fs arbitrary: u e gs)
  case (Cons f fs)
  obtain gs' where gs: "layout_fields (add64 u (fi_size f)) (add64 (fi_offset f) (fi_size f)) fs = (gs', v, d)"
    "gs = f\<lparr>fi_padding_before := fi_offset f - e\<rparr> # gs'"
    using Cons.prems by (auto simp: Let_def split: prod.splits)
  have e: "e \<le> fi_offset f" "fi_offset f + fi_size f \<le> t" "fields_ok (fi_offset f + fi_size f) t fs"
    using Cons.prems(1) fields_ok_le by auto
  then have "add64 u (fi_size f) = u + fi_size f" "add64 (fi_offset f) (fi_size f) = fi_offset f + fi_size f"
    using Cons.prems by auto
  with Cons.IH [OF e(3) Cons.prems(2), of "u + fi_size f" gs'] gs e Cons.prems(3) show ?case by simp
qed (auto dest: fields_ok_le)

text \<open>The layout report accounts for every byte of a struct: the fields' sizes and the padding
  add up to its size, and the padding is what lies before the fields and after the last one.\<close>

lemma layout_accounts_for_all_bytes:
  assumes "fields_ok 0 tot flds" "tot < 2 ^ 64"
  shows "lo_useful_bytes (build_layout fl name tot al flds) = sum_list (map fi_size flds) \<and>
    lo_useful_bytes (build_layout fl name tot al flds) + lo_padding_bytes (build_layout fl name tot al flds) = tot \<and>
    lo_padding_bytes (build_layout fl name tot al flds) =
      sum_list (map fi_padding_before (lo_fields (build_layout fl name tot al flds))) +
      lo_tail_padding (build_layout fl name tot al flds)"
proof -
  obtain gs u e where l: "layout_fields 0 0 flds = (gs, u, e)" by (cases "layout_fields 0 0 flds") auto
  have "u = sum_list (map fi_size flds)" "e \<le> tot" "e = sum_list (map fi_padding_before gs) + u" "u \<le> e"
    using layout_fields_sum [OF assms _ l] by auto
  then show ?thesis using assms(2) by (simp add: build_layout_def l Let_def)
qed

subsection \<open>The inspection macro\<close>

text \<open>
  \<open>MMAP_VIZ_INSPECT\<close> is a family of preprocessor macros: \<open>MMAP_VIZ_SELECT_\<close> expands to its seventeenth argument, which
  picks \<open>MMAP_VIZ_MAP_n_\<close> for \<open>n\<close> field names, and that one expands to the \<open>n\<close> initialisers. What the compiler says about
  the type (\<open>sizeof\<close>, \<open>alignof\<close>, \<open>offsetof\<close>) is an argument; \<open>None\<close> is an expansion that does not compile. A call without field names
  passes one empty argument on, for which \<open>MMAP_VIZ_MAP_1_\<close> is chosen; the \<open>offsetof\<close> of an empty name does not compile.
\<close>

record struct_layout =
  sl_size :: size_t
  sl_align :: size_t
  sl_offset :: "string \<Rightarrow> size_t"
  sl_field_size :: "string \<Rightarrow> size_t"
  sl_field_align :: "string \<Rightarrow> size_t"

datatype macro_arg = FieldName string | MapMacro nat

definition field_info :: "struct_layout \<Rightarrow> string \<Rightarrow> FieldInfo" where
  "field_info T a = \<lparr>fi_name = a, fi_offset = sl_offset T a, fi_size = sl_field_size T a,
     fi_alignment = sl_field_align T a, fi_padding_before = 0\<rparr>"

definition viz_field :: "struct_layout \<Rightarrow> string \<Rightarrow> FieldInfo option" where
  "viz_field T a = (if a = [] then None else Some (field_info T a))"

definition viz_select :: "macro_arg list \<Rightarrow> macro_arg option" where
  "viz_select args = (if 17 \<le> length args then Some (args ! 16) else None)"

fun viz_map :: "nat \<Rightarrow> (string \<Rightarrow> FieldInfo option) \<Rightarrow> string list \<Rightarrow> FieldInfo list option" where
  "viz_map n M [] = None"
| "viz_map n M (a # rest) =
     (if n = 1 then if rest = [] then map_option (\<lambda>f. [f]) (M a) else None
      else if n = 0 then None
      else do { f \<leftarrow> M a; fs \<leftarrow> viz_map (n - 1) M rest; Some (f # fs) })"

text \<open>\<open>__VA_ARGS__\<close> is at least one argument.\<close>

definition va_args :: "string list \<Rightarrow> string list" where
  "va_args names = (if names = [] then [[]] else names)"

definition viz_map_impl :: "(string \<Rightarrow> FieldInfo option) \<Rightarrow> string list \<Rightarrow> FieldInfo list option" where
  "viz_map_impl M names = (case viz_select (map FieldName names @ map MapMacro (rev [1..<17])) of
     Some (MapMacro n) \<Rightarrow> viz_map n M names
   | _ \<Rightarrow> None)"

definition viz_inspect :: "(real \<Rightarrow> real) \<Rightarrow> string \<Rightarrow> struct_layout \<Rightarrow> string list \<Rightarrow> LayoutInfo option" where
  "viz_inspect fl name T names =
     map_option (build_layout fl name (sl_size T) (sl_align T)) (viz_map_impl (viz_field T) (va_args names))"

lemma viz_map_all:
  "names \<noteq> [] \<Longrightarrow> viz_map (length names) (viz_field T) names = (if [] \<in> set names then None else Some (map (field_info T) names))"
  by (induction names) (auto simp: viz_field_def)

lemma viz_map_impl_all:
  assumes ne: "names \<noteq> []"
  shows "viz_map_impl (viz_field T) names = (if length names \<le> 16 \<and> [] \<notin> set names then Some (map (field_info T) names) else None)"
proof -
  have len: "17 \<le> length (map FieldName names @ map MapMacro (rev [1..<17]))" using ne by (cases names) (simp_all del: upt_rec_numeral)
  show ?thesis
  proof (cases "length names \<le> 16")
    case True
    have "1 \<le> length names" using ne by (cases names) auto
    then have "map MapMacro (rev [1..<17]) ! (16 - length names) = MapMacro (length names)"
      using True by (simp add: rev_nth del: upt_rec_numeral)
    then have "(map FieldName names @ map MapMacro (rev [1..<17])) ! 16 = MapMacro (length names)"
      using True by (simp add: nth_append del: upt_rec_numeral)
    then show ?thesis using len True viz_map_all [OF ne, of T] unfolding viz_map_impl_def viz_select_def by simp
  next
    case False
    then have "(map FieldName names @ map MapMacro (rev [1..<17])) ! 16 = FieldName (names ! 16)"
      by (simp add: nth_append del: upt_rec_numeral)
    then show ?thesis using len False unfolding viz_map_impl_def viz_select_def by simp
  qed
qed

lemma viz_inspect_eq:
  "viz_inspect fl name T names =
     (if names = [] \<or> 16 < length names \<or> [] \<in> set names then None
      else Some (build_layout fl name (sl_size T) (sl_align T) (map (field_info T) names)))"
  using viz_map_impl_all [of "va_args names" T] by (auto simp: viz_inspect_def va_args_def)

lemma layout_fields_names: "map fi_name (fst (layout_fields u e fs)) = map fi_name fs"
  by (induction fs arbitrary: u e) (auto simp: Let_def split: prod.splits, metis fst_conv)

text \<open>C30. Inspecting a struct with a list of its fields in declaration order lists them in this order and accounts for every byte
  of the type the compiler has laid out: the sizes of the fields and the padding before, between and behind them add up to
  its size. The macro expands exactly for one to sixteen non-empty names; without a name or with more it does not compile. For a list
  that is not in declaration order, which the macro accepts, nothing is claimed.\<close>

theorem inspect_accounts_for_all_bytes:
  assumes "fields_ok 0 (sl_size T) (map (field_info T) names)" "sl_size T < 2 ^ 64"
  shows "case viz_inspect fl name T names of
      None \<Rightarrow> names = [] \<or> 16 < length names \<or> [] \<in> set names
    | Some lay \<Rightarrow> names \<noteq> [] \<and> length names \<le> 16 \<and> [] \<notin> set names \<and> map fi_name (lo_fields lay) = names \<and>
        lo_useful_bytes lay = sum_list (map (sl_field_size T) names) \<and>
        sum_list (map (sl_field_size T) names) + sum_list (map fi_padding_before (lo_fields lay)) + lo_tail_padding lay = sl_size T \<and>
        lo_useful_bytes lay + lo_padding_bytes lay = sl_size T"
proof (cases "names = [] \<or> 16 < length names \<or> [] \<in> set names")
  case False
  let ?fs = "map (field_info T) names"
  let ?lay = "build_layout fl name (sl_size T) (sl_align T) ?fs"
  have i: "viz_inspect fl name T names = Some ?lay" using False by (simp add: viz_inspect_eq)
  have "map fi_name (lo_fields ?lay) = map fi_name ?fs"
    using layout_fields_names [of 0 0 ?fs] by (auto simp: build_layout_def Let_def split: prod.splits)
  also have "\<dots> = names" by (simp add: field_info_def comp_def)
  finally have names: "map fi_name (lo_fields ?lay) = names" .
  have sizes: "map fi_size ?fs = map (sl_field_size T) names" by (simp add: field_info_def)
  note all = layout_accounts_for_all_bytes [OF assms, of fl name "sl_align T", unfolded sizes]
  have "names \<noteq> []" "length names \<le> 16" "[] \<notin> set names" using False by auto
  then show ?thesis using all names unfolding i option.case by linarith
next
  case True
  then show ?thesis by (simp add: viz_inspect_eq)
qed

text \<open>A struct with an \<open>int\<close>, a \<open>double\<close> and a \<open>char\<close>.\<close>

definition demo_struct :: struct_layout where
  "demo_struct = \<lparr>sl_size = 24, sl_align = 8,
     sl_offset = (\<lambda>f. if f = ''a'' then 0 else if f = ''b'' then 8 else 16),
     sl_field_size = (\<lambda>f. if f = ''a'' then 4 else if f = ''b'' then 8 else 1),
     sl_field_align = (\<lambda>f. if f = ''a'' then 4 else if f = ''b'' then 8 else 1)\<rparr>"

theorem inspect_accounts_for_all_bytes_witness:
  "case viz_inspect id ''MyStruct'' demo_struct [''a'', ''b'', ''c''] of
     None \<Rightarrow> False
   | Some lay \<Rightarrow> map fi_name (lo_fields lay) = [''a'', ''b'', ''c''] \<and> lo_useful_bytes lay = 13"
  using inspect_accounts_for_all_bytes [of demo_struct "[''a'', ''b'', ''c'']" id "''MyStruct''"]
  by (auto simp: demo_struct_def field_info_def split: option.splits)

end
