(* ===== verification/Json_Serializer.thy ===== *)
theory Json_Serializer
  imports Event_Tracker Complex_Main
begin

text \<open>
  Conversion of blocks, events and snapshots to JSON values (\<open>src/src/serialization/json_serializer.hpp\<close>)
  and the array text the batcher and the event log build from events. A JSON value is a term of the
  datatype \<open>json\<close>, an object keeps its members in the order the source lists them; the printer of the JSON
  library (\<open>dump\<close>) is an argument. Time stamps count nanoseconds since the epoch.
\<close>

datatype json = JNull | JBool bool | JInt int | JReal real | JStr string | JArr "json list" | JObj "(string \<times> json) list"

text \<open>\<open>duration_cast\<close> to microseconds truncates towards zero.\<close>

definition to_microseconds :: "int \<Rightarrow> int" where
  "to_microseconds t = (if 0 \<le> t then t div 1000 else - ((- t) div 1000))"

definition block_to_json :: "BlockMetadata \<Rightarrow> json" where
  "block_to_json b = JObj
     [(''offset'', JInt (int (bm_offset b))),
      (''size'', JInt (int (bm_size b))),
      (''alignment'', JInt (int (bm_alignment b))),
      (''actual_size'', JInt (int (bm_actual_size b))),
      (''tag'', JStr (c_str (bm_tag b))),
      (''timestamp_us'', JInt (to_microseconds (bm_timestamp b)))]"

definition event_to_json :: "AllocationEvent \<Rightarrow> json" where
  "event_to_json e = JObj
     [(''type'', JStr (if ev_type e = Allocate then ''allocate'' else ''deallocate'')),
      (''event_id'', JInt (int (ev_event_id e))),
      (''offset'', JInt (int (bm_offset (ev_block e)))),
      (''size'', JInt (int (bm_size (ev_block e)))),
      (''alignment'', JInt (int (bm_alignment (ev_block e)))),
      (''actual_size'', JInt (int (bm_actual_size (ev_block e)))),
      (''tag'', JStr (c_str (bm_tag (ev_block e)))),
      (''timestamp_us'', JInt (to_microseconds (bm_timestamp (ev_block e)))),
      (''total_allocated'', JInt (int (ev_total_allocated e))),
      (''total_free'', JInt (int (ev_total_free e))),
      (''fragmentation_pct'', JInt (int (ev_fragmentation_pct e))),
      (''free_block_count'', JInt (int (ev_free_block_count e)))]"

definition snapshot_to_json ::
    "BlockMetadata list \<Rightarrow> size_t \<Rightarrow> size_t \<Rightarrow> size_t \<Rightarrow> size_t \<Rightarrow> size_t \<Rightarrow> json" where
  "snapshot_to_json blocks total_allocated total_free cap fragmentation_pct block_count = JObj
     [(''type'', JStr ''snapshot''),
      (''capacity'', JInt (int cap)),
      (''total_allocated'', JInt (int total_allocated)),
      (''total_free'', JInt (int total_free)),
      (''fragmentation_pct'', JInt (int fragmentation_pct)),
      (''free_block_count'', JInt (int block_count)),
      (''blocks'', JArr (map block_to_json blocks))]"

text \<open>The loop over the events that puts a comma after each but the last.\<close>

definition events_payload :: "(json \<Rightarrow> string) \<Rightarrow> AllocationEvent list \<Rightarrow> string" where
  "events_payload dump events =
     ''['' @
     concat (map (\<lambda>i. dump (event_to_json (events ! i)) @ (if i < length events - 1 then '','' else []))
       [0..<length events]) @
     '']''"

subsection \<open>Reading JSON back\<close>

fun json_get :: "json \<Rightarrow> string \<Rightarrow> json option" where
  "json_get (JObj ms) k = map_of ms k"
| "json_get _ k = None"

fun json_nat :: "json option \<Rightarrow> nat option" where
  "json_nat (Some (JInt i)) = (if 0 \<le> i then Some (nat i) else None)"
| "json_nat _ = None"

fun json_int :: "json option \<Rightarrow> int option" where
  "json_int (Some (JInt i)) = Some i"
| "json_int _ = None"

fun json_str :: "json option \<Rightarrow> string option" where
  "json_str (Some (JStr t)) = Some t"
| "json_str _ = None"

text \<open>A client's view: an event with the tag as a string and the time in microseconds.\<close>

definition read_block :: "json \<Rightarrow> (BlockMetadata) option" where
  "read_block j = do {
     off \<leftarrow> json_nat (json_get j ''offset'');
     sz \<leftarrow> json_nat (json_get j ''size'');
     al \<leftarrow> json_nat (json_get j ''alignment'');
     act \<leftarrow> json_nat (json_get j ''actual_size'');
     tag \<leftarrow> json_str (json_get j ''tag'');
     ts \<leftarrow> json_int (json_get j ''timestamp_us'');
     Some \<lparr>bm_offset = off, bm_size = sz, bm_alignment = al, bm_actual_size = act, bm_tag = tag, bm_timestamp = ts\<rparr> }"

definition read_event :: "json \<Rightarrow> AllocationEvent option" where
  "read_event j = do {
     ty \<leftarrow> json_str (json_get j ''type'');
     b \<leftarrow> read_block j;
     eid \<leftarrow> json_nat (json_get j ''event_id'');
     ta \<leftarrow> json_nat (json_get j ''total_allocated'');
     tf \<leftarrow> json_nat (json_get j ''total_free'');
     fp \<leftarrow> json_nat (json_get j ''fragmentation_pct'');
     fc \<leftarrow> json_nat (json_get j ''free_block_count'');
     Some \<lparr>ev_type = (if ty = ''allocate'' then Allocate else Deallocate), ev_block = b, ev_event_id = eid,
           ev_total_allocated = ta, ev_total_free = tf, ev_fragmentation_pct = fp, ev_free_block_count = fc\<rparr> }"

definition block_view :: "BlockMetadata \<Rightarrow> BlockMetadata" where
  "block_view b = b\<lparr>bm_tag := c_str (bm_tag b), bm_timestamp := to_microseconds (bm_timestamp b)\<rparr>"

definition event_view :: "AllocationEvent \<Rightarrow> AllocationEvent" where
  "event_view e = e\<lparr>ev_block := block_view (ev_block e)\<rparr>"

lemma read_block_to_json: "read_block (block_to_json b) = Some (block_view b)"
  by (simp add: read_block_def block_to_json_def block_view_def)

text \<open>The JSON of an event loses nothing a client needs: reading it back gives the event with its
  tag as a C string and its time in microseconds, and the blocks of a snapshot read back in order.\<close>

lemma json_roundtrip:
  "read_event (event_to_json e) = Some (event_view e) \<and>
   (\<exists>js. json_get (snapshot_to_json bs ta tf cap fp fc) ''blocks'' = Some (JArr js) \<and>
      map read_block js = map (Some \<circ> block_view) bs) \<and>
   json_nat (json_get (snapshot_to_json bs ta tf cap fp fc) ''total_free'') = Some tf"
proof -
  have "read_event (event_to_json e) = Some (event_view e)"
    by (cases "ev_type e") (simp_all add: read_event_def read_block_def event_to_json_def event_view_def block_view_def)
  then show ?thesis by (simp add: snapshot_to_json_def read_block_to_json)
qed

end
