(* ===== verification/Visualization_Arena.thy ===== *)
theory Visualization_Arena
  imports Free_List_Props Cache_Analyzer Padding_Inspector Mmap_Arena Json_Serializer
begin

text \<open>
  The facade (\<open>src/src/interface/visualization_arena.hpp\<close> and \<open>visualization_arena.cpp\<close>): the
  arena split into 256 shards, the per-thread contexts, allocation with an in-band header and
  footer, deallocation with the shard lookup, the event batcher and the accessors.

  The state of an arena object holds its shards, the contexts threads have registered, the
  thread-local pointers to them and the memory. \<open>va_data\<close> is the byte image of the memory: every operation writes the
  bytes it writes in the code, nodes of the free lists and block headers included, so that a node or header
  misplaced into a user's block would overwrite its data. \<open>va_headers\<close> and \<open>va_footers\<close> keep the headers and
  the 32-bit offsets before the user pointers as typed values, as the shards keep their nodes. Each operation is one step of the
  calling thread \<open>th\<close>; the shard mutex makes the part on the allocator atomic. Clock readings and
  the initial contents of a tracker's slots are arguments. A null slot of the shard vector is
  an index beyond the list of shards.
\<close>

record ArenaConfig =
  cfg_arena_size :: size_t
  cfg_cache_line_size :: size_t
  cfg_enable_server :: bool
  cfg_port :: nat
  cfg_web_root :: string
  cfg_sampling :: size_t

definition kMaxShards :: nat where
  "kMaxShards = 256"

text \<open>\<open>tc_alive\<close>: the owning thread still holds its \<open>shared_ptr\<close>.\<close>

record ThreadContext =
  tc_generation :: size_t
  tc_shard :: nat
  tc_tracker :: LocalTracker
  tc_alive :: bool

text \<open>The thread-local \<open>tls_context_\<close>: null, a context of this arena, or one left from another arena.\<close>

datatype tls = NoContext | Context nat | ForeignContext

record va_state =
  va_config :: ArenaConfig
  va_arena :: Arena
  va_line_size :: size_t
  va_shards :: "fl_state list"
  va_next_shard_idx :: size_t
  va_batch :: "AllocationEvent list"
  va_contexts :: "ThreadContext list"
  va_active :: "nat list"
  va_tls :: "nat \<Rightarrow> tls"
  va_generation :: size_t
  va_headers :: "addr \<rightharpoonup> AllocationHeader"
  va_footers :: "addr \<rightharpoonup> nat"
  va_data :: "addr \<Rightarrow> nat"

subsection \<open>The bytes of memory\<close>

text \<open>\<open>store d p n f\<close>: the \<open>n\<close> bytes at \<open>p\<close> become \<open>f 0\<close>, \<open>f 1\<close> and so on. Integers are little-endian.\<close>

definition store :: "(addr \<Rightarrow> nat) \<Rightarrow> addr \<Rightarrow> nat \<Rightarrow> (nat \<Rightarrow> nat) \<Rightarrow> addr \<Rightarrow> nat" where
  "store d p n f = (\<lambda>q. if p \<le> q \<and> q < p + n then f (q - p) else d q)"

definition byte_at :: "nat \<Rightarrow> nat \<Rightarrow> nat" where
  "byte_at n k = n div 256 ^ k mod 256"

text \<open>The bytes of an \<open>AllocationHeader\<close>, and of a \<open>FreeBlock\<close>, whose last seven are padding.\<close>

definition header_byte :: "AllocationHeader \<Rightarrow> nat \<Rightarrow> nat" where
  "header_byte h k =
     (if k < 8 then byte_at (ah_size h) k
      else if k < 16 then byte_at (ah_actual_size h) (k - 8)
      else if k < 24 then byte_at (ah_magic h) (k - 16)
      else of_char (ah_tag h ! (k - 24)))"

definition block_byte :: "FreeBlock \<Rightarrow> nat \<Rightarrow> nat option" where
  "block_byte b k =
     (if k < 8 then Some (byte_at (bsize b) k)
      else if k < 16 then Some (byte_at (parent b) (k - 8))
      else if k < 24 then Some (byte_at (left b) (k - 16))
      else if k < 32 then Some (byte_at (right b) (k - 24))
      else if k < 40 then Some (byte_at (subtree_max b) (k - 32))
      else if k = 40 then Some (case color b of Red \<Rightarrow> 0 | Black \<Rightarrow> 1)
      else None)"

text \<open>
  The byte at offset \<open>k\<close> of the node at \<open>p\<close>, if an operation from \<open>old\<close> to \<open>new\<close> made or changed the node, and the
  image after all these writes. A \<open>FreeNode\<close> is its 8-byte link.
\<close>

definition node_byte :: "fl_state \<Rightarrow> fl_state \<Rightarrow> addr \<Rightarrow> nat \<Rightarrow> nat option" where
  "node_byte old new p k = (case fl_mem new p of
     Some b \<Rightarrow> if fl_mem old p = Some b then None else block_byte b k
   | None \<Rightarrow> (case fl_next new p of
       Some nx \<Rightarrow> if fl_next old p = Some nx \<or> 8 \<le> k then None else Some (byte_at nx k)
     | None \<Rightarrow> None))"

definition write_nodes :: "fl_state \<Rightarrow> fl_state \<Rightarrow> (addr \<Rightarrow> nat) \<Rightarrow> addr \<Rightarrow> nat" where
  "write_nodes old new d = (\<lambda>q.
     case find (\<lambda>k. k \<le> q \<and> node_byte old new (q - k) k \<noteq> None) [0..<48] of
       Some k \<Rightarrow> the (node_byte old new (q - k) k)
     | None \<Rightarrow> d q)"

text \<open>The mapped memory is zero until the constructors of the shards write their first nodes.\<close>

definition initial_data :: "fl_state list \<Rightarrow> addr \<Rightarrow> nat" where
  "initial_data shards =
     foldl (\<lambda>d a. write_nodes (a\<lparr>fl_mem := Map.empty, fl_next := Map.empty\<rparr>) a d) (\<lambda>_. 0) shards"

subsection \<open>Construction\<close>

fun make_shards :: "(nat \<Rightarrow> addr) \<Rightarrow> AllocLog \<Rightarrow> addr \<Rightarrow> size_t \<Rightarrow> nat list \<Rightarrow> fl_state list option" where
  "make_shards nilp g b sz [] = Some []"
| "make_shards nilp g b sz (i # is) = do {
     a \<leftarrow> fl_create (nilp i) g (b + i * sz) sz;
     as \<leftarrow> make_shards nilp g b sz is;
     Some (a # as) }"

text \<open>
  \<open>mmap\<close>, the page size, the line size \<open>sysconf\<close> reports, the addresses \<open>nilp\<close> of the sentinels and the
  value \<open>gen\<close> of the global generation counter are arguments. The outer \<open>None\<close> is an abort in the
  constructor of a shard's allocator.
\<close>

definition va_create ::
    "size_t \<Rightarrow> (size_t \<Rightarrow> nat + addr) \<Rightarrow> int \<Rightarrow> (nat \<Rightarrow> addr) \<Rightarrow> AllocLog \<Rightarrow> (nat \<Rightarrow> tls) \<Rightarrow> size_t \<Rightarrow> ArenaConfig \<Rightarrow>
     (errc + va_state) option" where
  "va_create page_size mmap line_sysconf nilp g tls0 gen cfg =
     (let alignment_quantum = 16 * kMaxShards;
          aligned_arena_size = and_not64 (sub64 (add64 (cfg_arena_size cfg) alignment_quantum) 1) (alignment_quantum - 1)
      in case arena_create page_size mmap aligned_arena_size of
           Inl e \<Rightarrow> Some (Inl e)
         | Inr arena \<Rightarrow> do {
             let line_sz = (if cfg_cache_line_size cfg = 0 then detect_line_size line_sysconf
                            else cfg_cache_line_size cfg);
             let shard_size = ar_capacity arena div kMaxShards;
             shards \<leftarrow> make_shards nilp g (ar_base arena) shard_size [0..<kMaxShards];
             Some (Inr \<lparr>va_config = cfg, va_arena = arena, va_line_size = cache_analyzer line_sz,
                        va_shards = shards, va_next_shard_idx = 0, va_batch = [], va_contexts = [],
                        va_active = [], va_tls = tls0, va_generation = gen,
                        va_headers = Map.empty, va_footers = Map.empty, va_data = initial_data shards\<rparr>) })"

subsection \<open>Thread contexts\<close>

definition init_tls_context :: "AllocationEvent list \<Rightarrow> va_state \<Rightarrow> nat \<Rightarrow> va_state" where
  "init_tls_context slots s th =
     (let idx = va_next_shard_idx s;
          s = s\<lparr>va_next_shard_idx := add64 idx 1\<rparr>;
          idx = (if idx \<ge> kMaxShards then idx mod kMaxShards else idx)
      in if idx \<ge> length (va_shards s) then s
         else
           let ctx = \<lparr>tc_generation = va_generation s, tc_shard = idx,
                      tc_tracker = local_tracker slots (cfg_sampling (va_config s)), tc_alive = True\<rparr>;
               c = length (va_contexts s)
           in s\<lparr>va_contexts := va_contexts s @ [ctx], va_tls := (va_tls s)(th := Context c),
                va_active := va_active s @ [c]\<rparr>)"

definition get_shard_idx :: "va_state \<Rightarrow> addr \<Rightarrow> nat" where
  "get_shard_idx s p =
     (let b = ar_base (va_arena s) in
      if p < b \<or> p \<ge> b + ar_capacity (va_arena s) then kMaxShards
      else
        let offset = p - b;
            shard_size = ar_capacity (va_arena s) div kMaxShards;
            idx = offset div shard_size
        in if idx \<ge> kMaxShards then kMaxShards - 1 else idx)"

subsection \<open>Memory\<close>

text \<open>
  Writing into the \<open>n\<close> bytes at \<open>p\<close> that \<open>allocate\<close> returned ends the lifetime of every node
  the free lists had there.
\<close>

definition claim_region :: "fl_state \<Rightarrow> addr \<Rightarrow> size_t \<Rightarrow> fl_state" where
  "claim_region a p n =
     a\<lparr>fl_mem := (\<lambda>q. if p \<le> q \<and> q < p + n then None else fl_mem a q),
       fl_next := (\<lambda>q. if p \<le> q \<and> q < p + n then None else fl_next a q)\<rparr>"

text \<open>
  The words \<open>size\<close>, \<open>actual_size\<close> and \<open>magic\<close> at \<open>p\<close> read as a header: where the allocator has put a
  \<open>FreeBlock\<close>, its \<open>size\<close>, \<open>parent\<close> and \<open>left\<close> overlay them; a \<open>FreeNode\<close> overlays \<open>size\<close> only.
\<close>

definition header_words :: "va_state \<Rightarrow> addr \<Rightarrow> (size_t \<times> size_t \<times> size_t) option" where
  "header_words s p =
     (let i = get_shard_idx s p;
          h = map_option (\<lambda>h. (ah_size h, ah_actual_size h, ah_magic h)) (va_headers s p)
      in if i \<ge> length (va_shards s) then None
         else case fl_mem (va_shards s ! i) p of
           Some b \<Rightarrow> Some (bsize b, parent b, left b)
         | None \<Rightarrow> (case fl_next (va_shards s ! i) p of
             Some nx \<Rightarrow> map_option (\<lambda>(_, w). (nx, w)) h
           | None \<Rightarrow> h))"

subsection \<open>Allocation\<close>

definition needs_context :: "va_state \<Rightarrow> nat \<Rightarrow> bool" where
  "needs_context s th = (case va_tls s th of
     NoContext \<Rightarrow> True
   | ForeignContext \<Rightarrow> True
   | Context c \<Rightarrow> tc_generation (va_contexts s ! c) \<noteq> va_generation s)"

text \<open>\<open>sizeof(AllocationHeader) + sizeof(std::uint32_t)\<close>.\<close>

definition base_overhead :: size_t where
  "base_overhead = 56 + 4"

definition offset_to_user :: "size_t \<Rightarrow> size_t" where
  "offset_to_user alignment =
     (let padding = (if alignment > 0 then
            let remainder = base_overhead mod alignment in if remainder \<noteq> 0 then alignment - remainder else 0
          else 0)
      in add64 base_overhead padding)"

text \<open>The check that the block came from the shard of the context, and its index.\<close>

definition check_shard :: "va_state \<Rightarrow> nat \<Rightarrow> addr \<Rightarrow> unit option" where
  "check_shard s expected raw_ptr =
     assert_opt (\<not> (expected \<noteq> kMaxShards \<and> get_shard_idx s raw_ptr \<noteq> expected))"

text \<open>Header, footer and zeroed user bytes of a new block.\<close>

definition write_block :: "va_state \<Rightarrow> addr \<Rightarrow> size_t \<Rightarrow> size_t \<Rightarrow> size_t \<Rightarrow> string \<Rightarrow> va_state" where
  "write_block s raw_ptr off sz actual tag =
     (let user_ptr = raw_ptr + off;
          old_tag = (case va_headers s raw_ptr of Some h \<Rightarrow> ah_tag h | None \<Rightarrow> empty_tag);
          header = \<lparr>ah_size = sz, ah_actual_size = actual, ah_magic = kMagicValue, ah_tag = copy_tag old_tag tag\<rparr>
      in s\<lparr>va_headers := (va_headers s)(raw_ptr \<mapsto> header),
           va_footers := (va_footers s)(user_ptr - 4 \<mapsto> off mod 2 ^ 32),
           va_data := store (store (store (va_data s) raw_ptr 56 (header_byte header))
             (user_ptr - 4) 4 (byte_at (off mod 2 ^ 32))) user_ptr sz (\<lambda>_. 0)\<rparr>)"

definition alloc_raw ::
    "AllocationEvent list \<Rightarrow> int \<Rightarrow> va_state \<Rightarrow> nat \<Rightarrow> size_t \<Rightarrow> size_t \<Rightarrow> string \<Rightarrow> (addr \<times> va_state) option" where
  "alloc_raw slots now s th sz alignment tag =
     (let s = (if needs_context s th then init_tls_context slots s th else s) in
      case va_tls s th of
        NoContext \<Rightarrow> Some (nullptr, s)
      | ForeignContext \<Rightarrow> None
      | Context c \<Rightarrow> do {
          let ctx = va_contexts s ! c;
          let i = tc_shard ctx;
          let off = offset_to_user alignment;
          let total_request = add64 sz off;
          (result, a) \<leftarrow> allocate (va_shards s ! i) total_request alignment;
          let s = s\<lparr>va_shards := (va_shards s)[i := a], va_data := write_nodes (va_shards s ! i) a (va_data s)\<rparr>;
          case result of
            Inl e \<Rightarrow> Some (nullptr, s)
          | Inr r \<Rightarrow> do {
              let raw_ptr = res_ptr r;
              (if raw_ptr \<noteq> nullptr then check_shard s i raw_ptr else Some ());
              let s = s\<lparr>va_shards := (va_shards s)[i := claim_region a raw_ptr (res_actual_size r)]\<rparr>;
              let s = write_block s raw_ptr off sz (res_actual_size r) tag;
              let meta = set_tag \<lparr>bm_offset = res_offset r, bm_size = sz, bm_alignment = alignment,
                    bm_actual_size = res_actual_size r, bm_tag = empty_tag, bm_timestamp = now\<rparr> tag;
              t \<leftarrow> record_alloc (va_shards s ! i) (tc_tracker ctx) meta;
              let s = s\<lparr>va_contexts := (va_contexts s)[c := ctx\<lparr>tc_tracker := t\<rparr>]\<rparr>;
              Some (raw_ptr + off, s) } })"

subsection \<open>Deallocation\<close>

text \<open>The shard that owns \<open>p\<close>: the one the address suggests, else the first that contains it.\<close>

definition owning_shard :: "va_state \<Rightarrow> nat \<Rightarrow> addr \<Rightarrow> nat option" where
  "owning_shard s idx p =
     (if contains (va_shards s ! idx) p then Some idx
      else find (\<lambda>i. i < length (va_shards s) \<and> contains (va_shards s ! i) p) [0..<kMaxShards])"

text \<open>
  \<open>None\<close>: an abort, a read of bytes that hold no footer or header, or a thread whose context belongs to
  another arena, which may be gone.
\<close>

definition record_free :: "int \<Rightarrow> va_state \<Rightarrow> nat \<Rightarrow> addr \<Rightarrow> size_t \<Rightarrow> va_state option" where
  "record_free now s th raw_ptr actual = (case va_tls s th of
     NoContext \<Rightarrow> Some s
   | ForeignContext \<Rightarrow> None
   | Context c \<Rightarrow> do {
       let ctx = va_contexts s ! c;
       t \<leftarrow> record_dealloc (va_shards s ! tc_shard ctx) (tc_tracker ctx)
              (sub64 raw_ptr (ar_base (va_arena s))) actual now;
       Some (s\<lparr>va_contexts := (va_contexts s)[c := ctx\<lparr>tc_tracker := t\<rparr>]\<rparr>) })"

definition dealloc_raw :: "int \<Rightarrow> va_state \<Rightarrow> nat \<Rightarrow> addr \<Rightarrow> size_t \<Rightarrow> va_state option" where
  "dealloc_raw now s th p sz =
     (if p = nullptr then Some s
      else do {
        offset_val \<leftarrow> va_footers s (p - 4);
        let raw_ptr = sub64 p offset_val;
        (_, actual, magic) \<leftarrow> header_words s raw_ptr;
        if magic \<noteq> kMagicValue then Some s
        else do {
          let s = s\<lparr>va_headers := (va_headers s)(raw_ptr :=
                    map_option (\<lambda>h. h\<lparr>ah_magic := 0\<rparr>) (va_headers s raw_ptr)),
                    va_data := store (va_data s) (raw_ptr + 16) 8 (byte_at 0)\<rparr>;
          s \<leftarrow> record_free now s th raw_ptr actual;
          let idx = get_shard_idx s raw_ptr;
          if idx \<ge> kMaxShards \<or> idx \<ge> length (va_shards s) then Some s
          else do {
            i \<leftarrow> owning_shard s idx raw_ptr;
            (_, a) \<leftarrow> deallocate (va_shards s ! i) raw_ptr actual;
            Some (s\<lparr>va_shards := (va_shards s)[i := a], va_data := write_nodes (va_shards s ! i) a (va_data s)\<rparr>) } } })"

subsection \<open>Events\<close>

text \<open>The batcher's pass over the registered contexts: drain the live ones, erase the expired ones.\<close>

fun batcher_collect :: "va_state \<Rightarrow> nat list \<Rightarrow> (nat list \<times> va_state) option" where
  "batcher_collect s [] = Some ([], s)"
| "batcher_collect s (c # cs) =
     (let ctx = va_contexts s ! c in
      if tc_alive ctx then do {
        (evs, t) \<leftarrow> drain_to (tc_tracker ctx) (va_batch s);
        (kept, s) \<leftarrow> batcher_collect (s\<lparr>va_batch := evs, va_contexts := (va_contexts s)[c := ctx\<lparr>tc_tracker := t\<rparr>]\<rparr>) cs;
        Some (c # kept, s) }
      else batcher_collect s cs)"

text \<open>One round of the batcher thread: the text it would broadcast, \<open>None\<close> inside for an empty batch.\<close>

definition batcher_round :: "(json \<Rightarrow> string) \<Rightarrow> va_state \<Rightarrow> (string option \<times> va_state) option" where
  "batcher_round dump s = do {
     (kept, s) \<leftarrow> batcher_collect s (va_active s);
     let s = s\<lparr>va_active := kept\<rparr>;
     if va_batch s = [] then Some (None, s)
     else do {
       let batch = va_batch s;
       let s = s\<lparr>va_batch := []\<rparr>;
       Some (Some (events_payload dump batch), s) } }"

text \<open>The event log drains the same buffers into the batch, which it leaves in place.\<close>

fun log_collect :: "va_state \<Rightarrow> nat list \<Rightarrow> va_state option" where
  "log_collect s [] = Some s"
| "log_collect s (c # cs) =
     (let ctx = va_contexts s ! c in
      if tc_alive ctx then do {
        (evs, t) \<leftarrow> drain_to (tc_tracker ctx) (va_batch s);
        log_collect (s\<lparr>va_batch := evs, va_contexts := (va_contexts s)[c := ctx\<lparr>tc_tracker := t\<rparr>]\<rparr>) cs }
      else log_collect s cs)"

definition event_log_json :: "(json \<Rightarrow> string) \<Rightarrow> va_state \<Rightarrow> (string \<times> va_state) option" where
  "event_log_json dump s = do {
     s \<leftarrow> log_collect s (va_active s);
     Some (events_payload dump (va_batch s), s) }"

subsection \<open>Accessors\<close>

definition va_capacity :: "va_state \<Rightarrow> size_t" where
  "va_capacity s = ar_capacity (va_arena s)"

definition va_bytes_allocated :: "va_state \<Rightarrow> size_t" where
  "va_bytes_allocated s = foldl (\<lambda>n a. add64 n (bytes_allocated a)) 0 (va_shards s)"

definition va_bytes_free :: "va_state \<Rightarrow> size_t" where
  "va_bytes_free s = foldl (\<lambda>n a. add64 n (bytes_free a)) 0 (va_shards s)"

definition active_block_count :: "va_state \<Rightarrow> size_t" where
  "active_block_count s = 0"

definition cache_line_size :: "va_state \<Rightarrow> size_t" where
  "cache_line_size s = va_line_size s"

definition va_base :: "va_state \<Rightarrow> addr" where
  "va_base s = ar_base (va_arena s)"

definition padding_report :: "va_state \<Rightarrow> PaddingReport" where
  "padding_report s = \<lparr>pr_total_requested = 0, pr_total_actual = 0, pr_total_wasted = 0, pr_efficiency = 0, pr_blocks = []\<rparr>"

definition cache_report :: "va_state \<Rightarrow> CacheReport" where
  "cache_report s = \<lparr>cr_cache_line_size = 0, cr_total_lines = 0, cr_active_lines = 0, cr_fully_utilized = 0,
     cr_split_allocations = 0, cr_avg_utilization = 0, cr_lines = []\<rparr>"

end
