(* ===== verification/Event_Delivery.thy ===== *)
theory Event_Delivery
  imports Visualization_Arena
begin

text \<open>
  What the batcher thread and the event log deliver (\<open>src/src/interface/visualization_arena.cpp\<close>): a pass
  over the registered contexts takes exactly the events the live trackers hold, context by context
  and in order, and forgets the contexts of threads that ended.
\<close>

subsection \<open>Draining\<close>

text \<open>What a pass over the contexts \<open>cs\<close> collects when the tracker of context \<open>c\<close> holds \<open>ev c\<close>.\<close>

definition collected :: "va_state \<Rightarrow> (nat \<Rightarrow> AllocationEvent list) \<Rightarrow> nat list \<Rightarrow> AllocationEvent list" where
  "collected s ev cs = concat (map ev (filter (\<lambda>c. tc_alive (va_contexts s ! c)) cs))"

text \<open>The state after it: the batch is longer and the trackers of the live contexts are empty.\<close>

definition drained :: "va_state \<Rightarrow> nat list \<Rightarrow> AllocationEvent list \<Rightarrow> va_state \<Rightarrow> bool" where
  "drained s cs evs s' \<longleftrightarrow>
     (\<exists>ctxs. s' = s\<lparr>va_batch := va_batch s @ evs, va_contexts := ctxs\<rparr> \<and> length ctxs = length (va_contexts s) \<and>
        (\<forall>c < length ctxs. \<exists>t. ctxs ! c = (va_contexts s ! c)\<lparr>tc_tracker := t\<rparr> \<and>
           lt_sampling t = lt_sampling (tc_tracker (va_contexts s ! c)) \<and>
           (if c \<in> set cs \<and> tc_alive (va_contexts s ! c) then lt_holds t [] else t = tc_tracker (va_contexts s ! c))))"

lemma drain_tracker:
  "lt_holds t xs \<Longrightarrow> \<exists>t'. drain_to t out = Some (out @ xs, t') \<and> lt_holds t' [] \<and> lt_sampling t' = lt_sampling t"
proof (induction xs arbitrary: t out)
  case Nil
  then show ?case using tracker.drain_unfold [of t out] tracker.deq_empty by simp
next
  case (Cons x xs)
  then obtain t' where t': "lt_pop t = Some (x, t')" "lt_holds t' xs" using tracker.deq_first by blast
  then have "lt_sampling t' = lt_sampling t" by (auto simp: lt_pop_def)
  then show ?case using tracker.drain_unfold [of t out] Cons.IH [OF t'(2), of "out @ [x]"] t'(1) by simp
qed

lemma drained_Cons:
  assumes c: "c < length (va_contexts s)" "c \<notin> set cs" and alive: "tc_alive (va_contexts s ! c)"
    and t: "lt_holds t []" "lt_sampling t = lt_sampling (tc_tracker (va_contexts s ! c))"
    and d: "drained (s\<lparr>va_batch := va_batch s @ es, va_contexts := (va_contexts s)[c := (va_contexts s ! c)\<lparr>tc_tracker := t\<rparr>]\<rparr>) cs es' s'"
  shows "drained s (c # cs) (es @ es') s'"
proof -
  define u where "u = s\<lparr>va_batch := va_batch s @ es, va_contexts := (va_contexts s)[c := (va_contexts s ! c)\<lparr>tc_tracker := t\<rparr>]\<rparr>"
  have other: "va_contexts u ! k = va_contexts s ! k" if "k \<noteq> c" for k using that by (simp add: u_def)
  obtain ctxs where ctxs: "s' = u\<lparr>va_batch := va_batch u @ es', va_contexts := ctxs\<rparr>"
    "length ctxs = length (va_contexts u)"
    "\<And>k. k < length ctxs \<Longrightarrow> \<exists>t. ctxs ! k = (va_contexts u ! k)\<lparr>tc_tracker := t\<rparr> \<and>
         lt_sampling t = lt_sampling (tc_tracker (va_contexts u ! k)) \<and>
         (if k \<in> set cs \<and> tc_alive (va_contexts u ! k) then lt_holds t [] else t = tc_tracker (va_contexts u ! k))"
    using d unfolding drained_def u_def by blast
  have "\<exists>t. ctxs ! k = (va_contexts s ! k)\<lparr>tc_tracker := t\<rparr> \<and>
         lt_sampling t = lt_sampling (tc_tracker (va_contexts s ! k)) \<and>
         (if k \<in> set (c # cs) \<and> tc_alive (va_contexts s ! k) then lt_holds t [] else t = tc_tracker (va_contexts s ! k))"
    if "k < length ctxs" for k
  proof (cases "k = c")
    case True
    then show ?thesis using ctxs(3) [OF that] t c alive by (auto simp: u_def)
  next
    case False
    then have "k \<in> set (c # cs) \<longleftrightarrow> k \<in> set cs" by simp
    then show ?thesis using ctxs(3) [OF that] unfolding other [OF False] by (simp only:)
  qed
  then show ?thesis using ctxs(1,2) unfolding drained_def by (intro exI [of _ ctxs] conjI) (auto simp: u_def)
qed

lemma log_collect_drained:
  assumes "distinct cs" "\<And>c. c \<in> set cs \<Longrightarrow> c < length (va_contexts s)"
    "\<And>c. c \<in> set cs \<Longrightarrow> tc_alive (va_contexts s ! c) \<Longrightarrow> lt_holds (tc_tracker (va_contexts s ! c)) (ev c)"
  shows "\<exists>s'. log_collect s cs = Some s' \<and> drained s cs (collected s ev cs) s'"
  using assms
proof (induction cs arbitrary: s)
  case Nil
  have "drained s [] [] s" unfolding drained_def
    by (intro exI [of _ "va_contexts s"]) (auto intro!: exI [of _ "tc_tracker (va_contexts s ! c)" for c])
  then show ?case by (simp add: collected_def)
next
  case (Cons c cs)
  let ?ctx = "va_contexts s ! c"
  show ?case
  proof (cases "tc_alive ?ctx")
    case False
    then have "\<exists>s'. log_collect s cs = Some s' \<and> drained s cs (collected s ev cs) s'" using Cons by simp
    then show ?thesis using False by (fastforce simp: collected_def drained_def)
  next
    case alive: True
    have c: "c < length (va_contexts s)" "c \<notin> set cs" using Cons.prems(1,2) by auto
    obtain t where t: "drain_to (tc_tracker ?ctx) (va_batch s) = Some (va_batch s @ ev c, t)" "lt_holds t []"
      "lt_sampling t = lt_sampling (tc_tracker ?ctx)"
      using drain_tracker Cons.prems(3) [of c] alive by (meson list.set_intros(1))
    define u where "u = s\<lparr>va_batch := va_batch s @ ev c, va_contexts := (va_contexts s)[c := ?ctx\<lparr>tc_tracker := t\<rparr>]\<rparr>"
    have other: "va_contexts u ! d = va_contexts s ! d" if "d \<noteq> c" for d using that by (simp add: u_def)
    have len: "length (va_contexts u) = length (va_contexts s)" by (simp add: u_def)
    have nc: "d \<in> set cs \<Longrightarrow> d \<noteq> c" for d using c(2) by blast
    then obtain s' where s': "log_collect u cs = Some s'" "drained u cs (collected u ev cs) s'"
      using Cons.IH [of u] Cons.prems other by (auto simp: len)
    have "filter (\<lambda>d. tc_alive (va_contexts u ! d)) cs = filter (\<lambda>d. tc_alive (va_contexts s ! d)) cs"
      using other nc by (intro filter_cong) auto
    then have col: "ev c @ collected u ev cs = collected s ev (c # cs)" using alive by (simp add: collected_def)
    have "drained s (c # cs) (collected s ev (c # cs)) s'"
      using drained_Cons [OF c alive t(2,3) s'(2) [unfolded u_def]] col by (simp add: u_def)
    then show ?thesis using s'(1) t(1) alive by (auto simp: u_def)
  qed
qed

lemma batcher_collect_log:
  "distinct cs \<Longrightarrow> batcher_collect s cs =
     map_option (\<lambda>s'. (filter (\<lambda>c. tc_alive (va_contexts s ! c)) cs, s')) (log_collect s cs)"
proof (induction cs arbitrary: s)
  case (Cons c cs)
  have "filter (\<lambda>d. tc_alive ((va_contexts s)[c := x] ! d)) cs = filter (\<lambda>d. tc_alive (va_contexts s ! d)) cs" for x
  proof (rule filter_cong)
    fix d assume "d \<in> set cs"
    then have "d \<noteq> c" using Cons.prems by auto
    then show "tc_alive ((va_contexts s)[c := x] ! d) = tc_alive (va_contexts s ! d)" by simp
  qed simp
  then show ?case using Cons by (auto simp: Let_def split: option.splits bind_splits)
qed simp

end
