(* ===== verification/Shards.thy ===== *)
theory Shards
  imports Free_List_Props
begin

text \<open>
  What a client may rely on when it uses an allocator, as the locale \<open>region_allocator\<close>, and what
  follows for a row of allocators over adjacent memory, the shards of \<open>VisualizationArena\<close>. The
  free-list allocator interprets the contract.
\<close>

definition sharded ::
    "('s \<Rightarrow> (addr \<times> size_t) list \<Rightarrow> bool) \<Rightarrow> ('s \<Rightarrow> addr) \<Rightarrow> ('s \<Rightarrow> size_t) \<Rightarrow> addr \<Rightarrow> size_t \<Rightarrow>
     's list \<Rightarrow> (nat \<Rightarrow> (addr \<times> size_t) list) \<Rightarrow> bool" where
  "sharded ivt bas siz b k ss Ls \<longleftrightarrow>
     (\<forall>i < length ss. ivt (ss ! i) (Ls i) \<and> bas (ss ! i) = b + i * k \<and> siz (ss ! i) = k)"

lemma shardedD:
  assumes "sharded ivt bas siz b k ss Ls" "i < length ss"
  shows "ivt (ss ! i) (Ls i)" "bas (ss ! i) = b + i * k" "siz (ss ! i) = k"
  using assms by (auto simp: sharded_def)

lemma sharded_upd:
  assumes "sharded ivt bas siz b k ss Ls" "ivt a M" "bas a = b + i * k" "siz a = k"
  shows "sharded ivt bas siz b k (ss[i := a]) (Ls(i := M))"
  using assms by (auto simp: sharded_def nth_list_update)

lemma slots_disjoint:
  fixes p c :: nat
  assumes "i \<noteq> j" "b + i * k \<le> p" "p + m \<le> b + i * k + k" "b + j * k \<le> c" "c + l \<le> b + j * k + k"
  shows "p + m \<le> c \<or> c + l \<le> p"
proof (cases "i < j")
  case True
  then have "Suc i * k \<le> j * k" by (intro mult_le_mono1) simp
  then show ?thesis using assms by auto
next
  case False
  then have "Suc j * k \<le> i * k" using assms(1) by (intro mult_le_mono1) simp
  then show ?thesis using assms by auto
qed

locale region_allocator =
  fixes ivt :: "'s \<Rightarrow> (addr \<times> size_t) list \<Rightarrow> bool"
    and bas :: "'s \<Rightarrow> addr"
    and siz :: "'s \<Rightarrow> size_t"
    and ok :: "size_t \<Rightarrow> size_t \<Rightarrow> bool"
    and alloc :: "'s \<Rightarrow> size_t \<Rightarrow> size_t \<Rightarrow> ((AllocError + AllocationResult) \<times> 's) option"
    and free :: "'s \<Rightarrow> addr \<Rightarrow> size_t \<Rightarrow> ((AllocError + unit) \<times> 's) option"
    and same :: "addr set \<Rightarrow> 's \<Rightarrow> 's \<Rightarrow> bool"
  assumes alloc_law: "ivt s L \<Longrightarrow> ok n al \<Longrightarrow> \<exists>res s'. alloc s n al = Some (res, s') \<and>
      (case res of Inl e \<Rightarrow> s' = s
       | Inr r \<Rightarrow> ivt s' ((res_ptr r, res_actual_size r) # L) \<and> bas s' = bas s \<and> siz s' = siz s \<and>
           n \<le> res_actual_size r \<and> same (spared (bas s) (siz s) L) s s')"
    and free_law: "ivt s L \<Longrightarrow> (p, m) \<in> set L \<Longrightarrow> \<exists>s'. free s p m = Some (Inr (), s') \<and>
      ivt s' (remove1 (p, m) L) \<and> bas s' = bas s \<and> siz s' = siz s \<and> 
        same (spared (bas s) (siz s) (remove1 (p, m) L)) s s'"
    and region_bounds: "ivt s L \<Longrightarrow> (p, m) \<in> set L \<Longrightarrow> bas s \<le> p \<and> p + m \<le> bas s + siz s \<and> 0 < m \<and> p mod 16 = 0"
    and region_disjoint: "ivt s (us @ (p, m) # vs) \<Longrightarrow> (c, k) \<in> set (us @ vs) \<Longrightarrow> p + m \<le> c \<or> c + k \<le> p"
begin

text \<open>A new region of one shard is disjoint from the regions of all of them.\<close>

lemma shard_alloc:
  assumes S: "sharded ivt bas siz b k ss Ls" and i: "i < length ss" and o: "ok n al"
  shows "\<exists>res a. alloc (ss ! i) n al = Some (res, a) \<and>
    (case res of Inl e \<Rightarrow> a = ss ! i
     | Inr r \<Rightarrow> sharded ivt bas siz b k (ss[i := a]) (Ls(i := (res_ptr r, res_actual_size r) # Ls i)) \<and>
         b + i * k \<le> res_ptr r \<and> res_ptr r + res_actual_size r \<le> b + i * k + k \<and> res_ptr r mod 16 = 0 \<and>
         n \<le> res_actual_size r \<and> same (spared (b + i * k) k (Ls i)) (ss ! i) a \<and>
         (\<forall>j < length ss. \<forall>x \<in> set (Ls j). res_ptr r + res_actual_size r \<le> fst x \<or> fst x + snd x \<le> res_ptr r))"
proof -
  note I = shardedD [OF S i]
  obtain res a where a: "alloc (ss ! i) n al = Some (res, a)"
     "case res of Inl e \<Rightarrow> a = ss ! i
       | Inr r \<Rightarrow> ivt a ((res_ptr r, res_actual_size r) # Ls i) \<and> bas a = b + i * k \<and> siz a = k \<and>
           n \<le> res_actual_size r \<and> same (spared (b + i * k) k (Ls i)) (ss ! i) a"
    using alloc_law [OF I(1) o] unfolding I(2,3) by blast
  show ?thesis
  proof (cases res)
    case (Inl e)
    then show ?thesis using a by simp
  next
    case (Inr r)
    let ?p = "res_ptr r" and ?m = "res_actual_size r"
    have r: "ivt a ((?p, ?m) # Ls i)" "bas a = b + i * k" "siz a = k" using a(2) Inr I by auto
    have p: "b + i * k \<le> ?p" "?p + ?m \<le> b + i * k + k" "?p mod 16 = 0"
      using region_bounds [OF r(1), of ?p ?m] r(2,3) by auto
    have "?p + ?m \<le> fst x \<or> fst x + snd x \<le> ?p" if j: "j < length ss" and x: "x \<in> set (Ls j)" for j x
    proof (cases "j = i")
      case True
      then show ?thesis using region_disjoint [of a "[]" ?p ?m "Ls i" "fst x" "snd x"] r(1) x by simp
    next
      case False
      have "bas (ss ! j) \<le> fst x" "fst x + snd x \<le> bas (ss ! j) + siz (ss ! j)"
        using region_bounds [OF shardedD(1) [OF S j], of "fst x" "snd x"] x by auto
      then show ?thesis using slots_disjoint [of i j b k ?p ?m "fst x" "snd x"] False p shardedD(2,3) [OF S j] by simp
    qed
    then show ?thesis using a Inr p sharded_upd [OF S r] by auto
  qed
qed

lemma shard_free:
  assumes S: "sharded ivt bas siz b k ss Ls" and i: "i < length ss" and p: "(p, m) \<in> set (Ls i)"
  shows "\<exists>a. free (ss ! i) p m = Some (Inr (), a) \<and>
    sharded ivt bas siz b k (ss[i := a]) (Ls(i := remove1 (p, m) (Ls i))) \<and>
    same (spared (b + i * k) k (remove1 (p, m) (Ls i))) (ss ! i) a"
proof -
  note I = shardedD [OF S i]
  obtain a where a: "free (ss ! i) p m = Some (Inr (), a)" "ivt a (remove1 (p, m) (Ls i))"
    "bas a = b + i * k" "siz a = k" "same (spared (b + i * k) k (remove1 (p, m) (Ls i))) (ss ! i) a"
    using free_law [OF I(1) p] unfolding I(2,3) by blast
  then show ?thesis using sharded_upd [OF S a(2)] I by auto
qed

lemma shard_region:
  assumes "sharded ivt bas siz b k ss Ls" "i < length ss" "(p, m) \<in> set (Ls i)"
  shows "b + i * k \<le> p" "p + m \<le> b + i * k + k" "0 < m" "p mod 16 = 0"
  using region_bounds [OF shardedD(1) [OF assms(1,2)] assms(3)] shardedD(2,3) [OF assms(1,2)] by auto

end

interpretation shard: region_allocator fl_inv fl_base fl_size "\<lambda>n al. n \<le> 2 ^ 64 - 16 \<and> align_ok al" allocate deallocate untouched
proof (unfold_locales, goal_cases)
  case (1 s L n al)
  then obtain res s' where a: "allocate s n al = Some (res, s')" "case res of Inl e \<Rightarrow> e = OutOfMemory \<and> s' = s
     | Inr r \<Rightarrow> fl_inv s' ((res_ptr r, res_actual_size r) # L) \<and> fl_base s' = fl_base s \<and> fl_size s' = fl_size s"
     "untouched (spared (fl_base s) (fl_size s) L) s s'"
    using allocate_inv [OF 1(1), of n al] by blast
  moreover have "n \<le> res_actual_size r" if "res = Inr r" for r
    using allocate_result(2) [OF 1(1), of n al r s'] internal_size_bounds(3) [of n] a(1) that 1(2) by simp
  ultimately show ?case by (cases res) auto
next
  case (2 s L p m)
  then show ?case using deallocate_inv [OF 2] by blast
next
  case (3 s L p m)
  then obtain us vs where "L = us @ (p, m) # vs" by (metis split_list)
  then show ?case using fl_inv_regions(1-4) [OF 3(1)] by auto
next
  case (4 s us p m vs c k)
  then show ?case using fl_inv_regions(5) [OF 4(1) refl] by blast
qed

end
