(* ===== verification/Sharded_Arena.thy ===== *)
theory Sharded_Arena
  imports Event_Delivery Shards
begin

text \<open>
  The invariant of \<open>VisualizationArena\<close> and its theorems: which blocks are live, that headers and
  footers stay intact while other threads allocate and free, and what \<open>alloc_raw\<close> and \<open>dealloc_raw\<close>
  guarantee on top of the shards.
\<close>

subsection \<open>Claiming a region\<close>

lemma rep_agree: "rep nl m p t \<Longrightarrow> (\<And>q. q \<in> set (addrs t) \<Longrightarrow> m' q = m q) \<Longrightarrow> rep nl m' p t"
  by (induction nl m p t rule: rep.induct) auto

lemma fl_tree_agree:
  assumes "fl_tree s bs" "\<And>q. q \<in> insert (fl_nil s) (fst ` set bs) \<Longrightarrow> f q = fl_mem s q"
  shows "fl_tree (s\<lparr>fl_mem := f\<rparr>) bs"
proof -
  obtain T where T: "tree_at s T" "rbt_ok T" "blocks T = bs" using assms(1) by (auto simp: fl_tree_def)
  have "\<And>q. q \<in> set (addrs T) \<Longrightarrow> f q = fl_mem s q" using assms(2) T(3) by (simp add: addrs_blocks)
  then have "tree_at (s\<lparr>fl_mem := f\<rparr>) T" using T(1) assms(2) rep_agree by (fastforce simp: tree_at_def)
  with T show ?thesis by (auto simp: fl_tree_def)
qed

lemma chain_agree: "chain nx p as \<Longrightarrow> (\<And>q. q \<in> set as \<Longrightarrow> nx' q = nx q) \<Longrightarrow> chain nx' p as"
  by (induction as arbitrary: p) auto

lemma claim_region_refines:
  assumes A: "ab_wf b n ((p, m) # L) A" "fl_refines b n a A"
  shows "fl_refines b n (claim_region a p m) A"
proof -
  let ?f = "\<lambda>g q. if p \<le> q \<and> q < p + m then None else g q"
  have out: "\<not> (p \<le> fst x \<and> fst x < p + m)" if "x \<in> set (ab_regions A)" for x
    using live_disjoint [OF A(1), of p m "fst x" "snd x"] that ab_wf_region(3) [OF A(1), of "fst x" "snd x"] by auto
  have pm: "b \<le> p" "p + m \<le> b + n" using ab_wf_region [OF A(1), of p m] by auto
  have t: "fl_tree a (ab_tree A)" "fl_nil a < b \<or> b + n \<le> fl_nil a" using A(2) by (auto simp: fl_refines_def)
  have "fl_tree (a\<lparr>fl_mem := ?f (fl_mem a)\<rparr>) (ab_tree A)"
  proof (rule fl_tree_agree [OF t(1)])
    fix q assume "q \<in> insert (fl_nil a) (fst ` set (ab_tree A))"
    then show "?f (fl_mem a) q = fl_mem a q" using out t(2) pm by (fastforce simp: ab_regions_def)
  qed
  moreover have "chain (?f (fl_next a)) (fl_lists a ! i) (ab_small A ! i)" if i: "i < 8" for i
  proof (rule chain_agree)
    show "chain (fl_next a) (fl_lists a ! i) (ab_small A ! i)" using A(2) i by (simp add: fl_refines_def)
    fix q assume q: "q \<in> set (ab_small A ! i)"
    have "length (ab_small A) = 8" using A(1) by (simp add: ab_wf_def)
    then have "(q, 16 * Suc i) \<in> set (ab_regions A)" using q i by (auto simp: ab_regions_def class_set)
    then show "?f (fl_next a) q = fl_next a q" using out by fastforce
  qed
  ultimately show ?thesis using A(2) by (simp add: fl_refines_def claim_region_def)
qed

lemma claim_region_inv:
  assumes "fl_inv a ((p, m) # L)"
  shows "fl_inv (claim_region a p m) ((p, m) # L)"
proof -
  obtain A where A: "ab_wf (fl_base a) (fl_size a) ((p, m) # L) A" "fl_refines (fl_base a) (fl_size a) a A"
    using assms by (auto simp: fl_inv_def)
  then show ?thesis using fl_invI [OF A(1) claim_region_refines [OF A]] by blast
qed

subsection \<open>Bytes that writes leave alone\<close>

lemma store_other [simp]: "q \<notin> {p..<p + n} \<Longrightarrow> store d p n f q = d q"
  by (auto simp: store_def)

lemma write_nodes_frame:
  assumes "untouched U old new" "q \<in> U"
  shows "write_nodes old new d q = d q"
proof -
  have "node_byte old new (q - k) k = None" if k: "k \<le> q" "k < 48" for k
  proof -
    have "q \<in> {q - k..<q - k + 48} \<inter> U" "k < 8 \<Longrightarrow> q \<in> {q - k..<q - k + 8} \<inter> U" using k assms(2) by auto
    then have ne: "{q - k..<q - k + 48} \<inter> U \<noteq> {}" "k < 8 \<Longrightarrow> {q - k..<q - k + 8} \<inter> U \<noteq> {}" by blast+
    have "fl_mem new (q - k) = fl_mem old (q - k) \<or> fl_mem new (q - k) = None"
      using assms(1) ne(1) unfolding untouched_def by meson
    moreover have "fl_next new (q - k) = fl_next old (q - k) \<or> fl_next new (q - k) = None" if "k < 8"
      using assms(1) ne(2) [OF that] unfolding untouched_def by meson
    ultimately show ?thesis by (auto simp: node_byte_def split: option.splits)
  qed
  then have "find (\<lambda>k. k \<le> q \<and> node_byte old new (q - k) k \<noteq> None) [0..<48] = None" by (auto simp: find_None_iff)
  then show ?thesis by (simp only: write_nodes_def option.simps)
qed

lemma write_nodes_same [simp]: "write_nodes a a d = d"
  using write_nodes_frame [of UNIV a a] by auto

subsection \<open>Live blocks\<close>

record live_block =
  lb_raw :: addr
  lb_off :: size_t
  lb_size :: size_t
  lb_actual :: size_t
  lb_shard :: nat

definition lb_user :: "live_block \<Rightarrow> addr" where
  "lb_user x = lb_raw x + lb_off x"

definition block_bytes :: "live_block \<Rightarrow> addr set" where
  "block_bytes x = {lb_raw x ..< lb_raw x + lb_actual x}"

definition user_bytes :: "live_block \<Rightarrow> addr set" where
  "user_bytes x = {lb_user x ..< lb_user x + lb_size x}"

definition region_of :: "live_block \<Rightarrow> addr \<times> size_t" where
  "region_of x = (lb_raw x, lb_actual x)"

definition shard_regions :: "live_block list \<Rightarrow> nat \<Rightarrow> (addr \<times> size_t) list" where
  "shard_regions H i = map region_of (filter (\<lambda>x. lb_shard x = i) H)"

definition live_ok :: "va_state \<Rightarrow> live_block \<Rightarrow> bool" where
  "live_ok s x \<longleftrightarrow>
     (\<exists>tag. va_headers s (lb_raw x) =
        Some \<lparr>ah_size = lb_size x, ah_actual_size = lb_actual x, ah_magic = kMagicValue, ah_tag = tag\<rparr>) \<and>
     va_footers s (lb_user x - 4) = Some (lb_off x) \<and> 60 \<le> lb_off x \<and>
     lb_off x + lb_size x \<le> lb_actual x \<and> lb_shard x < 256 \<and>
     fl_mem (va_shards s ! lb_shard x) (lb_raw x) = None \<and> fl_next (va_shards s ! lb_shard x) (lb_raw x) = None"

definition ctx_wf :: "size_t \<Rightarrow> ThreadContext \<Rightarrow> bool" where
  "ctx_wf g x \<longleftrightarrow> tc_generation x = g \<and> tc_shard x < 256 \<and>
     0 < lt_sampling (tc_tracker x) \<and> (\<exists>xs. lt_holds (tc_tracker x) xs)"

definition ctx_ok :: "va_state \<Rightarrow> bool" where
  "ctx_ok s \<longleftrightarrow> 0 < cfg_sampling (va_config s) \<and> (\<forall>x \<in> set (va_contexts s). ctx_wf (va_generation s) x) \<and>
     (\<forall>th c. va_tls s th = Context c \<longrightarrow> c < length (va_contexts s)) \<and>
     distinct (va_active s) \<and> (\<forall>c \<in> set (va_active s). c < length (va_contexts s))"

definition shard_span :: "va_state \<Rightarrow> size_t" where
  "shard_span s = ar_capacity (va_arena s) div 256"

definition va_inv :: "va_state \<Rightarrow> live_block list \<Rightarrow> bool" where
  "va_inv s H \<longleftrightarrow> length (va_shards s) = 256 \<and> 0 < shard_span s \<and> ar_capacity (va_arena s) = 256 * shard_span s \<and>
     0 < ar_base (va_arena s) \<and> ar_base (va_arena s) + ar_capacity (va_arena s) < 2 ^ 64 \<and>
     sharded fl_inv fl_base fl_size (ar_base (va_arena s)) (shard_span s) (va_shards s) (shard_regions H) \<and>
     distinct (map lb_raw H) \<and> (\<forall>x \<in> set H. live_ok s x) \<and> ctx_ok s"

lemma va_invD:
  assumes "va_inv s H"
  shows "length (va_shards s) = 256" "0 < shard_span s" "ar_capacity (va_arena s) = 256 * shard_span s"
    "0 < ar_base (va_arena s)" "ar_base (va_arena s) + ar_capacity (va_arena s) < 2 ^ 64"
    "sharded fl_inv fl_base fl_size (ar_base (va_arena s)) (shard_span s) (va_shards s) (shard_regions H)"
    "distinct (map lb_raw H)" "x \<in> set H \<Longrightarrow> live_ok s x" "ctx_ok s"
  using assms by (simp_all add: va_inv_def)

lemma shard_regions_Cons:
  "shard_regions (x # H) = (shard_regions H)(lb_shard x := region_of x # shard_regions H (lb_shard x))"
  by (auto simp: shard_regions_def)

lemma map_remove1_inj: "distinct (map f xs) \<Longrightarrow> x \<in> set xs \<Longrightarrow> map f (remove1 x xs) = remove1 (f x) (map f xs)"
  by (induction xs) (auto, metis image_eqI)

lemma shard_regions_remove:
  assumes "distinct (map lb_raw H)" "x \<in> set H"
  shows "shard_regions (remove1 x H) =
    (shard_regions H)(lb_shard x := remove1 (region_of x) (shard_regions H (lb_shard x)))"
proof
  fix i
  have d: "distinct (map lb_raw (filter P H))" for P using assms(1) by (rule distinct_map_filter)
  have "distinct (map region_of (filter P H))" for P
    using d [of P] by (auto simp: distinct_map inj_on_def region_of_def)
  then show "shard_regions (remove1 x H) i =
      ((shard_regions H)(lb_shard x := remove1 (region_of x) (shard_regions H (lb_shard x)))) i"
    using map_remove1_inj [of region_of "filter (\<lambda>x. lb_shard x = i) H" x] assms(2)
    by (auto simp: shard_regions_def filter_remove1 remove1_idem)
qed

text \<open>Where live blocks lie.\<close>

lemma live_region:
  assumes "va_inv s H" "x \<in> set H"
  shows "ar_base (va_arena s) + lb_shard x * shard_span s \<le> lb_raw x"
    "lb_raw x + lb_actual x \<le> ar_base (va_arena s) + lb_shard x * shard_span s + shard_span s"
    "0 < lb_actual x" "lb_raw x mod 16 = 0" "region_of x \<in> set (shard_regions H (lb_shard x))" "lb_shard x < 256"
proof -
  note I = va_invD [OF assms(1)]
  show i: "lb_shard x < 256" using I(8) [OF assms(2)] by (simp add: live_ok_def)
  show m: "region_of x \<in> set (shard_regions H (lb_shard x))" using assms(2) by (auto simp: shard_regions_def)
  then show "ar_base (va_arena s) + lb_shard x * shard_span s \<le> lb_raw x"
    "lb_raw x + lb_actual x \<le> ar_base (va_arena s) + lb_shard x * shard_span s + shard_span s"
    "0 < lb_actual x" "lb_raw x mod 16 = 0"
    using shard.shard_region [OF I(6), of "lb_shard x" "lb_raw x" "lb_actual x"] i I(1) by (auto simp: region_of_def)
qed

lemma slot_in_arena:
  fixes k :: nat
  assumes "i < 256" "p + m \<le> b + i * k + k"
  shows "p + m \<le> b + 256 * k"
proof -
  have "Suc i * k \<le> 256 * k" using assms(1) by (intro mult_le_mono1) simp
  then show ?thesis using assms(2) unfolding mult_Suc by linarith
qed

lemma get_shard_idx_slot:
  assumes "ar_capacity (va_arena s) = 256 * shard_span s" "i < 256"
    "ar_base (va_arena s) + i * shard_span s \<le> p" "p < ar_base (va_arena s) + i * shard_span s + shard_span s"
  shows "get_shard_idx s p = i"
proof -
  let ?b = "ar_base (va_arena s)" and ?k = "shard_span s"
  have "p < ?b + 256 * ?k" using slot_in_arena [of i p 1 ?b ?k] assms(2,4) by simp
  moreover have "?b \<le> p" using assms(3) by linarith
  moreover have "(p - ?b) div ?k = i" using assms(3,4) by (intro div_nat_eqI) (auto simp: algebra_simps)
  ultimately show ?thesis using assms(1,2) by (simp add: get_shard_idx_def kMaxShards_def Let_def)
qed

lemma contains_slot:
  assumes "sharded fl_inv fl_base fl_size b k ss Ls" "i < length ss"
  shows "contains (ss ! i) p \<longleftrightarrow> b + i * k \<le> p \<and> p < b + i * k + k"
  using shardedD [OF assms] by (simp add: contains_def)

lemma live_disjoint_regions:
  assumes "va_inv s (us @ x # vs)" "y \<in> set (us @ vs)"
  shows "lb_raw x + lb_actual x \<le> lb_raw y \<or> lb_raw y + lb_actual y \<le> lb_raw x"
proof -
  note I = va_invD [OF assms(1)]
  have xy: "x \<in> set (us @ x # vs)" "y \<in> set (us @ x # vs)" using assms(2) by auto
  note X = live_region [OF assms(1) xy(1)] and Y = live_region [OF assms(1) xy(2)]
  show ?thesis
  proof (cases "lb_shard x = lb_shard y")
    case False
    then show ?thesis using slots_disjoint [OF False X(1,2) Y(1,2)] by blast
  next
    case True
    let ?f = "filter (\<lambda>z. lb_shard z = lb_shard x)"
    have "shard_regions (us @ x # vs) (lb_shard x) = map region_of (?f us) @ (lb_raw x, lb_actual x) # map region_of (?f vs)"
      by (simp add: shard_regions_def region_of_def)
    moreover have "(lb_raw y, lb_actual y) \<in> set (map region_of (?f us) @ map region_of (?f vs))"
      using assms(2) True by (auto simp: region_of_def)
    ultimately show ?thesis
      using shard.region_disjoint [of "va_shards s ! lb_shard x"] shardedD(1) [OF I(6), of "lb_shard x"] X(6) I(1)
      by (metis (no_types, lifting))
  qed
qed

lemma other_block_apart:
  assumes "va_inv s H" "x \<in> set H" "y \<in> set (remove1 x H)"
  shows "lb_raw y + lb_actual y \<le> lb_raw x \<or> lb_raw x + lb_actual x \<le> lb_raw y"
proof -
  obtain us vs where H: "H = us @ x # vs" "x \<notin> set us" using split_list_first [OF assms(2)] by blast
  then have "y \<in> set (us @ vs)" using assms(3) by (simp add: remove1_append)
  then show ?thesis using live_disjoint_regions [of s us x vs y] assms(1) H(1) by auto
qed

lemma va_inv_frame:
  assumes "va_inv s H" "va_arena s' = va_arena s" "va_shards s' = va_shards s" "va_headers s' = va_headers s"
    "va_footers s' = va_footers s" "ctx_ok s'"
  shows "va_inv s' H"
  using assms(1,6) unfolding va_inv_def live_ok_def shard_span_def assms(2-5) by blast

subsection \<open>Thread contexts\<close>

lemma fresh_tracker: "length slots = kEventSlots \<Longrightarrow> lt_holds (local_tracker slots k) []"
  by (simp add: lt_holds_def local_tracker_def ring_holds_def ring_wf_def
        ring_init_def ring_count_def ring_items_def kEventSlots_def)

lemma init_tls_context_ok:
  assumes "va_inv s H" "length slots = kEventSlots"
  shows "va_inv (init_tls_context slots s th) H" "\<exists>c. va_tls (init_tls_context slots s th) th = Context c"
    "va_shards (init_tls_context slots s th) = va_shards s" "va_data (init_tls_context slots s th) = va_data s"
    "va_arena (init_tls_context slots s th) = va_arena s"
proof -
  note I = va_invD [OF assms(1)]
  define idx where "idx = (if va_next_shard_idx s \<ge> 256 then va_next_shard_idx s mod 256 else va_next_shard_idx s)"
  define ctx where "ctx = \<lparr>tc_generation = va_generation s, tc_shard = idx,
    tc_tracker = local_tracker slots (cfg_sampling (va_config s)), tc_alive = True\<rparr>"
  have idx: "idx < 256" by (simp add: idx_def)
  define s' where "s' = s\<lparr>va_next_shard_idx := add64 (va_next_shard_idx s) 1, va_contexts := va_contexts s @ [ctx],
     va_tls := (va_tls s)(th := Context (length (va_contexts s))), va_active := va_active s @ [length (va_contexts s)]\<rparr>"
  have s': "init_tls_context slots s th = s'"
    using idx I(1) unfolding init_tls_context_def Let_def kMaxShards_def s'_def ctx_def idx_def by simp
  have "ctx_ok s'" using I(9) idx fresh_tracker [OF assms(2)]
    by (auto simp: ctx_ok_def ctx_wf_def s'_def ctx_def local_tracker_def less_Suc_eq)
  then show "va_inv (init_tls_context slots s th) H"
    unfolding s' by (rule va_inv_frame [OF assms(1), rotated -1]) (simp_all add: s'_def)
  show "\<exists>c. va_tls (init_tls_context slots s th) th = Context c"
    "va_shards (init_tls_context slots s th) = va_shards s" "va_data (init_tls_context slots s th) = va_data s"
    "va_arena (init_tls_context slots s th) = va_arena s"
    unfolding s' by (simp_all add: s'_def)
qed

lemma own_context:
  assumes "va_inv s H" "\<not> needs_context s th"
  shows "\<exists>c. va_tls s th = Context c"
  using assms(2) by (auto simp: needs_context_def split: tls.splits)

lemma ctx_ok_nth: "ctx_ok s \<Longrightarrow> c < length (va_contexts s) \<Longrightarrow> ctx_wf (va_generation s) (va_contexts s ! c)"
  by (simp add: ctx_ok_def)

lemma ctx_ok_upd:
  assumes "ctx_ok s" "ctx_wf (va_generation s) x"
  shows "ctx_ok (s\<lparr>va_contexts := (va_contexts s)[c := x]\<rparr>)"
proof -
  have "y = x \<or> y \<in> set (va_contexts s)" if "y \<in> set ((va_contexts s)[c := x])" for y
    using set_update_subset_insert [of "va_contexts s" c x] that by blast
  then show ?thesis using assms by (auto simp: ctx_ok_def)
qed

text \<open>Recording an event changes the tracker of one context only.\<close>

lemma record_ok:
  assumes "ctx_ok s" "c < length (va_contexts s)" "track (tc_tracker (va_contexts s ! c)) call = Some t"
  shows "ctx_ok (s\<lparr>va_contexts := (va_contexts s)[c := (va_contexts s ! c)\<lparr>tc_tracker := t\<rparr>]\<rparr>)"
proof (rule ctx_ok_upd [OF assms(1)])
  let ?x = "va_contexts s ! c"
  have x: "ctx_wf (va_generation s) ?x" using ctx_ok_nth assms(1,2) .
  then obtain xs where xs: "lt_holds (tc_tracker ?x) xs" by (auto simp: ctx_wf_def)
  have "lt_holds (t0\<lparr>lt_next_event_id := i\<rparr>) ys = lt_holds t0 ys" for t0 i ys by (simp add: lt_holds_def)
  then have "0 < lt_sampling t \<and> (\<exists>ys. lt_holds t ys)"
    using assms(3) xs x tracker.enq_law [OF xs] unfolding track_step
    by (auto simp: Let_def lt_push_id lt_push_def ctx_wf_def split: if_splits) (auto simp: lt_holds_def lt_push_def)
  then show "ctx_wf (va_generation s) (?x\<lparr>tc_tracker := t\<rparr>)" using x by (simp add: ctx_wf_def)
qed

lemma track_total: "0 < lt_sampling t \<Longrightarrow> \<exists>t'. track t call = Some t'"
  by (simp add: track_step Let_def)

subsection \<open>Allocation\<close>

lemma offset_to_user_bounds:
  assumes "al < 2 ^ 64"
  shows "60 \<le> offset_to_user al" "0 < al \<Longrightarrow> offset_to_user al mod al = 0"
proof -
  let ?r = "60 mod al"
  have r: "?r < al" if "0 < al" using that by simp
  have b: "base_overhead = 60" by (simp add: base_overhead_def)
  have "0 < al \<Longrightarrow> 60 < al \<Longrightarrow> ?r = 60" by simp
  then have n: "60 + (al - ?r) < 2 ^ 64" if "0 < al" "?r \<noteq> 0"
    using assms that r by (cases "60 < al") auto
  have pos: "offset_to_user al = 60 + (if ?r \<noteq> 0 then al - ?r else 0)" if "0 < al"
    using that n by (simp add: offset_to_user_def b Let_def)
  then show "60 \<le> offset_to_user al" by (cases "al = 0") (auto simp: offset_to_user_def b)
  show "offset_to_user al mod al = 0" if "0 < al"
  proof (cases "?r = 0")
    case True
    then show ?thesis using pos that by simp
  next
    case False
    have "60 + (al - ?r) = 60 div al * al + al" using div_mult_mod_eq [of 60 al] r [OF that] by linarith
    then show ?thesis using pos [OF that] False by simp
  qed
qed

definition alloc_block :: "va_state \<Rightarrow> addr \<Rightarrow> size_t \<Rightarrow> size_t \<Rightarrow> live_block" where
  "alloc_block s p sz al =
     (let off = offset_to_user al in
      \<lparr>lb_raw = p - off, lb_off = off, lb_size = sz, lb_actual = internal_size_of (sz + off),
       lb_shard = get_shard_idx s (p - off)\<rparr>)"

text \<open>Taking a region of a shard and writing its header and footer makes it live and spares the others.\<close>

lemma new_live_block:
  assumes inv: "va_inv s H" and i: "lb_shard x < 256"
    and sh: "sharded fl_inv fl_base fl_size (ar_base (va_arena s)) (shard_span s)
      ((va_shards s)[lb_shard x := a]) ((shard_regions H)(lb_shard x := region_of x # shard_regions H (lb_shard x)))"
    and un: "untouched (spared b k (shard_regions H (lb_shard x))) (va_shards s ! lb_shard x) a"
    and dj: "\<And>j y. j < 256 \<Longrightarrow> y \<in> set (shard_regions H j) \<Longrightarrow>
      lb_raw x + lb_actual x \<le> fst y \<or> fst y + snd y \<le> lb_raw x"
    and off: "60 \<le> lb_off x" "lb_off x + lb_size x \<le> lb_actual x" "lb_actual x < 2 ^ 32"
    and s': "va_arena s' = va_arena s" "ctx_ok s'"
      "va_shards s' = (va_shards s)[lb_shard x := claim_region a (lb_raw x) (lb_actual x)]"
      "va_headers s' = (va_headers s)(lb_raw x \<mapsto>
         \<lparr>ah_size = lb_size x, ah_actual_size = lb_actual x, ah_magic = kMagicValue, ah_tag = tag\<rparr>)"
      "va_footers s' = (va_footers s)(lb_user x - 4 \<mapsto> lb_off x mod 2 ^ 32)"
  shows "va_inv s' (x # H)"
proof -
  note I = va_invD [OF inv]
  let ?i = "lb_shard x" and ?a = "claim_region a (lb_raw x) (lb_actual x)"
  have a: "fl_inv a (region_of x # shard_regions H ?i)" "fl_base a = ar_base (va_arena s) + ?i * shard_span s"
    "fl_size a = shard_span s" using shardedD [OF sh, of ?i] i I(1) by auto
  have ca: "fl_inv ?a (region_of x # shard_regions H ?i)" "fl_base ?a = fl_base a" "fl_size ?a = fl_size a"
    using claim_region_inv a(1) by (simp_all add: region_of_def claim_region_def)
  have "sharded fl_inv fl_base fl_size (ar_base (va_arena s)) (shard_span s) (va_shards s') (shard_regions (x # H))"
    using sharded_upd [OF I(6) ca(1)] ca(2,3) a(2,3) by (simp add: s'(3) shard_regions_Cons)
  moreover have sep: "lb_raw x + lb_actual x \<le> lb_raw y \<or> lb_raw y + lb_actual y \<le> lb_raw x" if "y \<in> set H" for y
    using dj [OF live_region(6,5) [OF inv that]] by (simp add: region_of_def)
  then have new: "lb_raw x \<notin> lb_raw ` set H" using live_region(3) [OF inv] off by fastforce
  moreover have "live_ok s' x"
    using off i I(1) by (simp add: live_ok_def s' claim_region_def lb_user_def)
  moreover have "live_ok s' y" if y: "y \<in> set H" for y
  proof -
    have ok: "live_ok s y" using I(8) y by blast
    have ne: "lb_raw y \<noteq> lb_raw x" "lb_user y - 4 \<noteq> lb_user x - 4"
      using new y sep [OF y] off ok by (auto simp: lb_user_def live_ok_def)
    have out: "\<not> (lb_raw x \<le> lb_raw y \<and> lb_raw y < lb_raw x + lb_actual x)"
      using sep [OF y] live_region(3) [OF inv y] by linarith
    have "fl_mem (va_shards s' ! lb_shard y) (lb_raw y) = fl_mem (va_shards s ! lb_shard y) (lb_raw y) \<and>
       fl_next (va_shards s' ! lb_shard y) (lb_raw y) = fl_next (va_shards s ! lb_shard y) (lb_raw y)"
    proof (cases "lb_shard y = ?i")
      case True
      have "lb_raw y \<in> held (shard_regions H ?i)"
        using live_region(3,5) [OF inv y] True by (force simp: held_def region_of_def)
      then have "lb_raw y \<in> spared b k (shard_regions H ?i)" by (simp add: spared_def)
      then show ?thesis using un out i I(1) True by (auto simp: untouched_def s'(3) claim_region_def)
    next
      case False
      then show ?thesis by (simp add: s'(3))
    qed
    then show ?thesis using ok ne by (simp add: live_ok_def s'(4,5))
  qed
  ultimately show ?thesis using I(1-5,7) s'(2) unfolding va_inv_def s'(1) shard_span_def by (simp add: s'(3))
qed

lemma get_shard_idx_arena: "va_arena s' = va_arena s \<Longrightarrow> get_shard_idx s' p = get_shard_idx s p"
  unfolding get_shard_idx_def by (simp only: Let_def)

lemma get_shard_idx_upd [simp]:
  "get_shard_idx (s\<lparr>va_shards := x\<rparr>) p = get_shard_idx s p"
  "get_shard_idx (s\<lparr>va_contexts := y\<rparr>) p = get_shard_idx s p"
  "get_shard_idx (s\<lparr>va_headers := z\<rparr>) p = get_shard_idx s p"
  "get_shard_idx (s\<lparr>va_data := d\<rparr>) p = get_shard_idx s p"
  by (simp_all add: get_shard_idx_def Let_def)

lemma shard_span_less: "va_inv s H \<Longrightarrow> shard_span s \<le> 2 ^ 30"
proof -
  assume "va_inv s H"
  note I = va_invD [OF this]
  have "fl_inv (va_shards s ! 0) (shard_regions H 0)" "fl_size (va_shards s ! 0) = shard_span s"
    using shardedD [OF I(6), of 0] I(1) by auto
  then show "shard_span s \<le> 2 ^ 30" by (auto simp: fl_inv_def ab_wf_def arena_ok_def)
qed

text \<open>The bytes of the blocks \<open>H\<close>, headers included, are the same.\<close>

definition same_bytes :: "live_block list \<Rightarrow> va_state \<Rightarrow> va_state \<Rightarrow> bool" where
  "same_bytes H s s' \<longleftrightarrow> (\<forall>y \<in> set H. \<forall>q \<in> block_bytes y. va_data s' q = va_data s q)"

text \<open>An operation on shard \<open>i\<close> that spares its blocks \<open>H\<close> writes no node into a block of any shard.\<close>

lemma nodes_spare_blocks:
  assumes inv: "va_inv s H" and y: "y \<in> set H" "set G \<subseteq> set H" "y \<in> set G" and q: "q \<in> block_bytes y"
    and un: "untouched (spared (ar_base (va_arena s) + i * shard_span s) (shard_span s) (shard_regions G i)) (va_shards s ! i) a"
  shows "write_nodes (va_shards s ! i) a d q = d q"
proof (rule write_nodes_frame [OF un])
  note Y = live_region [OF inv y(1)]
  show "q \<in> spared (ar_base (va_arena s) + i * shard_span s) (shard_span s) (shard_regions G i)"
  proof (cases "lb_shard y = i")
    case True
    then have "region_of y \<in> set (shard_regions G i)" using y(3) by (auto simp: shard_regions_def)
    then show ?thesis using q by (force simp: spared_def held_def region_of_def block_bytes_def)
  next
    case False
    have "lb_raw y + lb_actual y \<le> ar_base (va_arena s) + i * shard_span s \<or>
        ar_base (va_arena s) + i * shard_span s + shard_span s \<le> lb_raw y"
      using slots_disjoint [OF False Y(1,2), of "ar_base (va_arena s) + i * shard_span s" "shard_span s"] by auto
    then show ?thesis using q by (auto simp: spared_def block_bytes_def)
  qed
qed

definition alloc_post :: "va_state \<Rightarrow> live_block list \<Rightarrow> size_t \<Rightarrow> size_t \<Rightarrow> addr \<Rightarrow> va_state \<Rightarrow> bool" where
  "alloc_post s H sz al p s' \<longleftrightarrow>
       va_inv s' (alloc_block s p sz al # H) \<and> va_arena s' = va_arena s \<and> offset_to_user al \<le> p \<and>
       (\<forall>q \<in> {p..<p + sz}. va_data s' q = 0) \<and> same_bytes H s s' \<and>
       (\<exists>j r a. j < 256 \<and> allocate (va_shards s ! j) (sz + offset_to_user al) al = Some (Inr r, a) \<and>
          p = res_ptr r + offset_to_user al \<and> va_shards s' = (va_shards s)[j := claim_region a (res_ptr r) (res_actual_size r)])"

definition shard_full :: "va_state \<Rightarrow> size_t \<Rightarrow> size_t \<Rightarrow> bool" where
  "shard_full s sz al \<longleftrightarrow>
     (\<exists>j e a. j < 256 \<and> allocate (va_shards s ! j) (sz + offset_to_user al) al = Some (Inl e, a))"

text \<open>What a shard's answer means to the rows of shards: \<open>i\<close> is the shard, \<open>a\<close> its new state.\<close>

definition granted :: "va_state \<Rightarrow> live_block list \<Rightarrow> nat \<Rightarrow> size_t \<Rightarrow> AllocationResult \<Rightarrow> fl_state \<Rightarrow> bool" where
  "granted s H i n r a \<longleftrightarrow>
     sharded fl_inv fl_base fl_size (ar_base (va_arena s)) (shard_span s) ((va_shards s)[i := a])
       ((shard_regions H)(i := (res_ptr r, res_actual_size r) # shard_regions H i)) \<and>
     ar_base (va_arena s) + i * shard_span s \<le> res_ptr r \<and>
     res_ptr r + res_actual_size r \<le> ar_base (va_arena s) + i * shard_span s + shard_span s \<and>
     res_ptr r mod 16 = 0 \<and> n \<le> res_actual_size r \<and>
     untouched (spared (ar_base (va_arena s) + i * shard_span s) (shard_span s) (shard_regions H i)) (va_shards s ! i) a \<and>
     (\<forall>j < 256. \<forall>x \<in> set (shard_regions H j). res_ptr r + res_actual_size r \<le> fst x \<or> fst x + snd x \<le> res_ptr r)"

lemma alloc_block_simps:
  assumes "get_shard_idx s p = i" "m = internal_size_of (sz + offset_to_user al)"
  shows "lb_raw (alloc_block s (p + offset_to_user al) sz al) = p" "lb_shard (alloc_block s (p + offset_to_user al) sz al) = i"
    "lb_actual (alloc_block s (p + offset_to_user al) sz al) = m" "lb_off (alloc_block s (p + offset_to_user al) sz al) = offset_to_user al"
    "lb_size (alloc_block s (p + offset_to_user al) sz al) = sz"
  using assms by (simp_all add: alloc_block_def Let_def)

lemma alloc_raw_granted:
  assumes inv: "va_inv s H" and tls: "va_tls s th = Context c" "\<not> needs_context s th" and c: "c < length (va_contexts s)"
    and sz: "sz + offset_to_user al \<le> 2 ^ 64 - 16" and al: "align_ok al" "al < 2 ^ 64" and i: "tc_shard (va_contexts s ! c) = i" "i < 256"
    and a: "allocate (va_shards s ! i) (sz + offset_to_user al) al = Some (Inr r, a)" and g: "granted s H i (sz + offset_to_user al) r a"
  shows "\<exists>p s'. alloc_raw slots now s th sz al tag = Some (p, s') \<and> va_tls s' = va_tls s \<and> p \<noteq> nullptr \<and> alloc_post s H sz al p s'"
proof -
  note I = va_invD [OF inv]
  let ?ctx = "va_contexts s ! c" and ?off = "offset_to_user al" and ?p = "res_ptr r" and ?m = "res_actual_size r"
  have smp: "0 < lt_sampling (tc_tracker ?ctx)" using ctx_ok_nth [OF I(9) c] by (simp add: ctx_wf_def)
  have m: "?m = internal_size_of (sz + ?off)" using allocate_result(2) [OF shardedD(1) [OF I(6), of i] sz al(1)] a i I(1) by simp
  have R: "ar_base (va_arena s) + i * shard_span s \<le> ?p" "sz + ?off \<le> ?m"
    "?p + ?m \<le> ar_base (va_arena s) + i * shard_span s + shard_span s" using g by (auto simp: granted_def)
  have off: "60 \<le> ?off" using offset_to_user_bounds(1) [OF al(2)] .
  have idx: "get_shard_idx s ?p = i" using R off by (intro get_shard_idx_slot [OF I(3) i(2)]) linarith+
  have p0: "?p \<noteq> 0" using R(1) I(4) by linarith
  define u where "u = write_block (s\<lparr>va_data := write_nodes (va_shards s ! i) a (va_data s),
    va_shards := (va_shards s)[i := claim_region a ?p ?m]\<rparr>) ?p ?off sz ?m tag"
  define meta where "meta = set_tag \<lparr>bm_offset = res_offset r, bm_size = sz, bm_alignment = al,
                  bm_actual_size = ?m, bm_tag = empty_tag, bm_timestamp = now\<rparr> tag"
  obtain t where t: "record_alloc (va_shards u ! i) (tc_tracker ?ctx) meta = Some t"
    using track_total [OF smp, of "RecAlloc (va_shards u ! i) meta"] by auto
  define s' where "s' = u\<lparr>va_contexts := (va_contexts s)[c := ?ctx\<lparr>tc_tracker := t\<rparr>]\<rparr>"
  have uc: "va_contexts u = va_contexts s" "va_arena u = va_arena s" "va_tls u = va_tls s"
    "va_config u = va_config s" "va_generation u = va_generation s" "va_active u = va_active s" by (simp_all add: u_def write_block_def Let_def)
  have run: "alloc_raw slots now s th sz al tag = Some (?p + ?off, s')"
    using a tls idx p0 t sz unfolding alloc_raw_def
    by (simp add: i(1) check_shard_def kMaxShards_def u_def [symmetric] meta_def [symmetric] uc s'_def)
  note x = alloc_block_simps [OF idx m]
  have "ctx_ok u" using I(9) by (simp add: ctx_ok_def uc)
  from record_ok [OF this, of c "RecAlloc (va_shards u ! i) meta" t] t c have "ctx_ok s'" by (simp add: uc s'_def)
  moreover have "?m < 2 ^ 32" using R shard_span_less [OF inv] by simp
  ultimately have "va_inv s' (alloc_block s (?p + ?off) sz al # H)"
    using g off R(2) unfolding granted_def by (intro new_live_block [OF inv, where a = a])
      (auto simp: x i region_of_def s'_def u_def write_block_def Let_def lb_user_def)
  moreover have "\<forall>q \<in> {?p + ?off..<?p + ?off + sz}. va_data s' q = 0"
    by (auto simp: s'_def u_def write_block_def Let_def store_def)
  moreover have "same_bytes H s s'"
    unfolding same_bytes_def
  proof (intro ballI)
    fix y q assume y: "y \<in> set H" and q: "q \<in> block_bytes y"
    have un: "untouched (spared (ar_base (va_arena s) + i * shard_span s) (shard_span s) (shard_regions H i)) (va_shards s ! i) a"
      and dj: "?p + ?m \<le> fst (region_of y) \<or> fst (region_of y) + snd (region_of y) \<le> ?p"
      using g live_region(5,6) [OF inv y] unfolding granted_def by blast+
    have "q \<notin> {?p..<?p + ?m}" using q dj by (auto simp: block_bytes_def region_of_def)
    then have "va_data s' q = write_nodes (va_shards s ! i) a (va_data s) q"
      using R(2) off by (auto simp: s'_def u_def write_block_def Let_def store_def)
    then show "va_data s' q = va_data s q" using nodes_spare_blocks [OF inv y _ y q un] by simp
  qed
  moreover have "va_shards s' = (va_shards s)[i := claim_region a ?p ?m]" by (simp add: s'_def u_def write_block_def Let_def)
  ultimately have "alloc_post s H sz al (?p + ?off) s'" using a i unfolding alloc_post_def by (auto simp: s'_def uc)
  then show ?thesis using run p0 uc(3) by (simp add: s'_def)
qed

lemma alloc_raw_context:
  assumes inv: "va_inv s H" and tls: "va_tls s th = Context c" "\<not> needs_context s th"
    and sz: "sz + offset_to_user al \<le> 2 ^ 64 - 16" and al: "align_ok al" "al < 2 ^ 64"
  shows "\<exists>p s'. alloc_raw slots now s th sz al tag = Some (p, s') \<and> va_tls s' = va_tls s \<and>
    (if p = nullptr then s' = s \<and> shard_full s sz al else alloc_post s H sz al p s')"
proof -
  note I = va_invD [OF inv]
  define i where "i = tc_shard (va_contexts s ! c)"
  have c: "c < length (va_contexts s)" using I(9) tls(1) by (auto simp: ctx_ok_def)
  then have i: "i < 256" using ctx_ok_nth [OF I(9)] by (auto simp: ctx_wf_def i_def)
  obtain res a where a: "allocate (va_shards s ! i) (sz + offset_to_user al) al = Some (res, a)"
    and res: "case res of Inl e \<Rightarrow> a = va_shards s ! i | Inr r \<Rightarrow> granted s H i (sz + offset_to_user al) r a"
    using shard.shard_alloc [OF I(6), unfolded I(1), OF i conjI [OF sz al(1)], folded granted_def] by blast
  show ?thesis
  proof (cases res)
    case (Inl e)
    have "alloc_raw slots now s th sz al tag = Some (nullptr, s)"
      using a res Inl tls sz unfolding alloc_raw_def by (simp add: i_def [symmetric] Let_def)
    then show ?thesis using a Inl i by (auto simp: shard_full_def)
  next
    case (Inr r)
    have "granted s H i (sz + offset_to_user al) r a" using res Inr by simp
    from alloc_raw_granted [OF inv tls c sz al i_def [symmetric] i a [unfolded Inr] this, of slots now tag]
    obtain p s' where "alloc_raw slots now s th sz al tag = Some (p, s')" "va_tls s' = va_tls s" "p \<noteq> nullptr" "alloc_post s H sz al p s'"
      by blast
    then show ?thesis by (intro exI [of _ p] exI [of _ s'] conjI) simp_all
  qed
qed

lemma alloc_raw_inv:
  assumes inv: "va_inv s H" and slots: "length slots = kEventSlots"
    and sz: "sz + offset_to_user al \<le> 2 ^ 64 - 16" and al: "align_ok al" "al < 2 ^ 64"
  shows "\<exists>p s'. alloc_raw slots now s th sz al tag = Some (p, s') \<and> (\<exists>c. va_tls s' th = Context c) \<and>
    (if p = nullptr then va_inv s' H \<and> va_data s' = va_data s \<and> va_headers s' = va_headers s \<and> va_arena s' = va_arena s \<and> shard_full s sz al
     else alloc_post s H sz al p s')"
proof (cases "needs_context s th")
  case False
  obtain c where c: "va_tls s th = Context c" using own_context [OF inv False] by blast
  from alloc_raw_context [OF inv this False sz al, of slots now tag] obtain p s'
    where r: "alloc_raw slots now s th sz al tag = Some (p, s')" "va_tls s' = va_tls s" "if p = nullptr then s' = s \<and> shard_full s sz al else alloc_post s H sz al p s'"
    by blast
  show ?thesis using r c inv by (cases "p = nullptr") auto
next
  case True
  define u where "u = init_tls_context slots s th"
  note U = init_tls_context_ok [OF inv slots, of th, folded u_def]
  obtain c where c: "va_tls u th = Context c" using U(2) by blast
  then have ctx: "\<not> needs_context u th" using va_invD(9) [OF U(1)] by (auto simp: needs_context_def ctx_ok_def ctx_wf_def)
  have eq: "alloc_raw slots now s th sz al tag = alloc_raw slots now u th sz al tag"
    using True ctx by (simp add: alloc_raw_def Let_def u_def)
  have "alloc_block u p sz al = alloc_block s p sz al" for p
    using U(5) by (simp add: alloc_block_def get_shard_idx_def Let_def)
  then have post: "alloc_post u H sz al p s' = alloc_post s H sz al p s'" for p s'
    by (simp only: alloc_post_def same_bytes_def U(3-5))
  from alloc_raw_context [OF U(1) c ctx sz al, of slots now tag] obtain p s'
    where r: "alloc_raw slots now u th sz al tag = Some (p, s')" "va_tls s' = va_tls u" "if p = nullptr then s' = u \<and> shard_full s sz al else alloc_post s H sz al p s'"
    unfolding post shard_full_def U(3) by blast
  have "va_headers u = va_headers s" by (simp add: u_def init_tls_context_def Let_def)
  then show ?thesis using r c U(1,4,5) by (cases "p = nullptr") (auto simp: eq)
qed

subsection \<open>Deallocation\<close>

lemma record_free_ok:
  assumes "ctx_ok s" "va_tls s th \<noteq> ForeignContext"
  shows "\<exists>cs. record_free now s th p m = Some (s\<lparr>va_contexts := cs\<rparr>) \<and> ctx_ok (s\<lparr>va_contexts := cs\<rparr>)"
proof (cases "va_tls s th")
  case NoContext
  then show ?thesis using assms(1) by (intro exI [of _ "va_contexts s"]) (simp add: record_free_def)
next
  case (Context c)
  let ?ctx = "va_contexts s ! c"
  let ?call = "RecDealloc (va_shards s ! tc_shard ?ctx) (sub64 p (ar_base (va_arena s))) m now"
  have c: "c < length (va_contexts s)" "0 < lt_sampling (tc_tracker ?ctx)"
    using assms(1) Context ctx_ok_nth [OF assms(1), of c] by (auto simp: ctx_ok_def ctx_wf_def)
  obtain t where t: "track (tc_tracker ?ctx) ?call = Some t" using track_total [OF c(2)] by blast
  then show ?thesis using record_ok [OF assms(1) c(1) t] Context by (auto simp: record_free_def)
qed (use assms in simp)

definition dealloc_post :: "va_state \<Rightarrow> live_block list \<Rightarrow> live_block \<Rightarrow> va_state \<Rightarrow> bool" where
  "dealloc_post s H x s' \<longleftrightarrow> same_bytes (remove1 x H) s s' \<and> va_arena s' = va_arena s \<and> va_footers s' = va_footers s \<and>
     va_tls s' = va_tls s \<and> (\<forall>q. q \<noteq> lb_raw x \<longrightarrow> va_headers s' q = va_headers s q) \<and> (\<exists>h. va_headers s' (lb_raw x) = Some h \<and> ah_magic h = 0) \<and>
     (\<exists>a. deallocate (va_shards s ! lb_shard x) (lb_raw x) (lb_actual x) = Some (Inr (), a) \<and>
        va_shards s' = (va_shards s)[lb_shard x := a])"

text \<open>Giving a region back keeps the other blocks, whatever becomes of the header of the freed one.\<close>

lemma free_region_inv:
  assumes inv: "va_inv s H" and x: "x \<in> set H"
  shows "\<exists>a. deallocate (va_shards s ! lb_shard x) (lb_raw x) (lb_actual x) = Some (Inr (), a) \<and>
    (\<forall>g. (\<forall>q. q \<noteq> lb_raw x \<longrightarrow> g q = va_headers s q) \<longrightarrow>
       va_inv (s\<lparr>va_shards := (va_shards s)[lb_shard x := a], va_headers := g\<rparr>) (remove1 x H)) \<and>
    (\<forall>y \<in> set (remove1 x H). \<forall>q \<in> block_bytes y. \<forall>d. write_nodes (va_shards s ! lb_shard x) a d q = d q)"
proof -
  note I = va_invD [OF inv] and R = live_region [OF inv x]
  let ?p = "lb_raw x" and ?m = "lb_actual x" and ?i = "lb_shard x"
  obtain a where a: "deallocate (va_shards s ! ?i) ?p ?m = Some (Inr (), a)"
    "sharded fl_inv fl_base fl_size (ar_base (va_arena s)) (shard_span s) ((va_shards s)[?i := a])
        ((shard_regions H)(?i := remove1 (?p, ?m) (shard_regions H ?i)))"
    "untouched (spared (ar_base (va_arena s) + ?i * shard_span s) (shard_span s) (remove1 (?p, ?m) (shard_regions H ?i))) (va_shards s ! ?i) a"
    using shard.shard_free [OF I(6), of ?i ?p ?m] R(5,6) I(1) by (auto simp: region_of_def)
  have rm: "shard_regions (remove1 x H) = (shard_regions H)(?i := remove1 (?p, ?m) (shard_regions H ?i))"
    using shard_regions_remove [OF I(7) x] by (simp add: region_of_def)
  have "va_inv (s\<lparr>va_shards := (va_shards s)[?i := a], va_headers := g\<rparr>) (remove1 x H)" (is "va_inv ?s _")
    if g: "\<forall>q. q \<noteq> ?p \<longrightarrow> g q = va_headers s q" for g
  proof -
    have "live_ok ?s y" if y: "y \<in> set (remove1 x H)" for y
    proof -
      have yH: "y \<in> set H" using y by (meson set_remove1_subset subsetD)
      have ne: "lb_raw y \<noteq> ?p" using I(7) x y by (auto simp: distinct_map distinct_remove1 inj_on_def set_remove1_eq)
      have "lb_raw y \<in> held (remove1 (?p, ?m) (shard_regions H ?i))" if i: "lb_shard y = ?i"
      proof -
        have "region_of y \<in> set (shard_regions (remove1 x H) ?i)" using y i by (auto simp: shard_regions_def)
        then show ?thesis using live_region(3) [OF inv yH] by (force simp: rm held_def region_of_def)
      qed
      then have "fl_mem (va_shards ?s ! lb_shard y) (lb_raw y) = fl_mem (va_shards s ! lb_shard y) (lb_raw y) \<and>
         fl_next (va_shards ?s ! lb_shard y) (lb_raw y) = fl_next (va_shards s ! lb_shard y) (lb_raw y)"
        using a(3) R(6) I(1) by (cases "lb_shard y = ?i") (auto simp: untouched_def spared_def)
      then show ?thesis using I(8) [OF yH] ne g by (simp add: live_ok_def)
    qed
    moreover have "ctx_ok ?s" using I(9) by (simp add: ctx_ok_def)
    moreover have "distinct (map lb_raw (remove1 x H))" using I(7) by (simp add: map_remove1_inj [OF I(7) x])
    ultimately show ?thesis using I(1-5) a(2) unfolding va_inv_def rm shard_span_def by simp
  qed
  moreover have "write_nodes (va_shards s ! ?i) a d q = d q" if y: "y \<in> set (remove1 x H)" and q: "q \<in> block_bytes y" for y q d
    using nodes_spare_blocks [OF inv _ set_remove1_subset y q, of ?i a] a(3) y by (auto simp: rm dest: set_remove1_subset [THEN subsetD])
  ultimately show ?thesis using a(1) by blast
qed

lemma dealloc_raw_inv:
  assumes inv: "va_inv s H" and x: "x \<in> set H" and th: "va_tls s th \<noteq> ForeignContext"
  shows "\<exists>s'. dealloc_raw now s th (lb_user x) n = Some s' \<and> va_inv s' (remove1 x H) \<and> dealloc_post s H x s'"
proof -
  note I = va_invD [OF inv] and R = live_region [OF inv x]
  let ?p = "lb_raw x" and ?m = "lb_actual x" and ?i = "lb_shard x"
  obtain tag where h: "va_headers s ?p =
     Some \<lparr>ah_size = lb_size x, ah_actual_size = ?m, ah_magic = kMagicValue, ah_tag = tag\<rparr>"
    and f: "va_footers s (lb_user x - 4) = Some (lb_off x)" "60 \<le> lb_off x" "lb_off x + lb_size x \<le> ?m"
    and nd: "fl_mem (va_shards s ! ?i) ?p = None" "fl_next (va_shards s ! ?i) ?p = None"
    using I(8) [OF x] by (auto simp: live_ok_def)
  have "?p + ?m < 2 ^ 64" using slot_in_arena [OF R(6,2)] I(3,5) by linarith
  then have raw: "sub64 (lb_user x) (lb_off x) = ?p" using f(3) by (simp add: lb_user_def)
  have idx: "get_shard_idx s ?p = ?i" using R by (intro get_shard_idx_slot [OF I(3) R(6)]) linarith+
  have hw: "header_words s ?p = Some (lb_size x, ?m, kMagicValue)"
    using idx nd R(6) I(1) h by (simp add: header_words_def)
  define g where "g = (va_headers s)(?p := map_option (\<lambda>h. h\<lparr>ah_magic := 0\<rparr>) (va_headers s ?p))"
  define d where "d = store (va_data s) (?p + 16) 8 (byte_at 0)"
  define u where "u = s\<lparr>va_headers := g, va_data := d\<rparr>"
  have "ctx_ok u" "va_tls u th \<noteq> ForeignContext" using I(9) th by (simp_all add: u_def ctx_ok_def)
  then obtain cs where cs: "record_free now u th ?p ?m = Some (u\<lparr>va_contexts := cs\<rparr>)" "ctx_ok (u\<lparr>va_contexts := cs\<rparr>)"
    using record_free_ok by blast
  have "contains (va_shards s ! ?i) ?p" using contains_slot [OF I(6), of ?i ?p] R I(1) by simp
  then have own: "owning_shard (u\<lparr>va_contexts := cs\<rparr>) ?i ?p = Some ?i" by (simp add: owning_shard_def u_def)
  have gi: "get_shard_idx (u\<lparr>va_contexts := cs\<rparr>) ?p = ?i" using idx by (simp add: u_def)
  obtain a where a: "deallocate (va_shards s ! ?i) ?p ?m = Some (Inr (), a)"
    "va_inv (s\<lparr>va_shards := (va_shards s)[?i := a], va_headers := g\<rparr>) (remove1 x H)"
    "\<And>y q d. y \<in> set (remove1 x H) \<Longrightarrow> q \<in> block_bytes y \<Longrightarrow> write_nodes (va_shards s ! ?i) a d q = d q"
    using free_region_inv [OF inv x] by (fastforce simp: g_def)
  define s' where "s' = u\<lparr>va_contexts := cs, va_shards := (va_shards s)[?i := a], va_data := write_nodes (va_shards s ! ?i) a d\<rparr>"
  have ne: "lb_user x \<noteq> 0" using f(2) by (simp add: lb_user_def)
  have sh: "va_shards u = va_shards s" "va_arena u = va_arena s" "va_data u = d" by (simp_all add: u_def)
  have run: "dealloc_raw now s th (lb_user x) n = Some s'"
    using f(1) raw hw cs(1) gi own a(1) R(6) I(1) ne
    by (simp add: dealloc_raw_def kMaxShards_def g_def [symmetric] d_def [symmetric] u_def [symmetric] s'_def sh Let_def)
  have "ctx_ok s'" using cs(2) by (simp add: ctx_ok_def s'_def)
  then have "va_inv s' (remove1 x H)" by (intro va_inv_frame [OF a(2)]) (simp_all add: s'_def u_def)
  moreover have "same_bytes (remove1 x H) s s'"
    unfolding same_bytes_def
  proof (intro ballI)
    fix y q assume y: "y \<in> set (remove1 x H)" and q: "q \<in> block_bytes y"
    have "lb_raw y + lb_actual y \<le> ?p \<or> ?p + ?m \<le> lb_raw y" using other_block_apart [OF inv x y] .
    then have "d q = va_data s q" using q f(2,3) by (auto simp: d_def block_bytes_def store_def)
    then show "va_data s' q = va_data s q" using a(3) [OF y q] by (simp add: s'_def)
  qed
  then have "dealloc_post s H x s'" using a(1) h by (simp add: dealloc_post_def s'_def u_def g_def)
  with calculation show ?thesis using run by blast
qed

subsection \<open>Construction\<close>

definition rounded_size :: "size_t \<Rightarrow> size_t" where
  "rounded_size n = (n + 4095) div 4096 * 4096"

definition config_ok :: "size_t \<Rightarrow> (size_t \<Rightarrow> nat + addr) \<Rightarrow> (nat \<Rightarrow> addr) \<Rightarrow> (nat \<Rightarrow> tls) \<Rightarrow> ArenaConfig \<Rightarrow> bool" where
  "config_ok ps mm nilp tls0 cfg \<longleftrightarrow>
     8192 < cfg_arena_size cfg \<and> cfg_arena_size cfg \<le> 2 ^ 37 \<and> 0 < cfg_sampling cfg \<and>
     (ps dvd 4096 \<or> 4096 dvd ps) \<and> 0 < ps \<and> ps \<le> 2 ^ 30 \<and> (\<forall>th c. tls0 th \<noteq> Context c) \<and>
     (\<forall>n b. mm n = Inr b \<longrightarrow> 0 < b \<and> b mod 16 = 0 \<and> b + n < 2 ^ 64 \<and> (\<forall>i. nilp i \<noteq> 0 \<and> (nilp i < b \<or> b + n \<le> nilp i)))"

lemma make_shards_inv:
  assumes "\<And>i. i \<in> set is \<Longrightarrow> create_ok (nilp i) (b + i * k) k"
  shows "\<exists>ss. make_shards nilp g b k is = Some ss \<and> length ss = length is \<and>
    (\<forall>j < length is. fl_refines (b + is ! j * k) k (ss ! j) (ab_init (b + is ! j * k) k))"
  using assms
proof (induction "is")
  case Nil
  then show ?case by simp
next
  case (Cons i "is")
  obtain ss where ss: "make_shards nilp g b k is = Some ss" "length ss = length is"
    "\<And>j. j < length is \<Longrightarrow> fl_refines (b + is ! j * k) k (ss ! j) (ab_init (b + is ! j * k) k)"
    using Cons by auto
  have c: "create_ok (nilp i) (b + i * k) k" using Cons.prems by simp
  obtain a where a: "fl_create (nilp i) g (b + i * k) k = Some a" "fl_refines (b + i * k) k a (ab_init (b + i * k) k)"
    using fl_create_refines [OF c, of g] by blast
  have "fl_refines (b + (i # is) ! j * k) k ((a # ss) ! j) (ab_init (b + (i # is) ! j * k) k)"
    if "j < length (i # is)" for j using ss(3) a that by (cases j) auto
  then show ?case using ss(1,2) a(1) by (intro exI [of _ "a # ss"]) simp
qed

lemma rounded_size_bounds: "n \<le> rounded_size n" "rounded_size n < n + 4096" "4096 dvd rounded_size n"
proof -
  have "n + 4095 = (n + 4095) div 4096 * 4096 + (n + 4095) mod 4096" by (rule div_mult_mod_eq [symmetric])
  moreover have "(n + 4095) mod 4096 < 4096" by simp
  ultimately show "n \<le> rounded_size n" "rounded_size n < n + 4096" unfolding rounded_size_def by linarith+
  show "4096 dvd rounded_size n" by (simp add: rounded_size_def)
qed

lemma arena_size_aligned:
  assumes "n \<le> 2 ^ 37"
  shows "and_not64 (sub64 (add64 n (16 * kMaxShards)) 1) (16 * kMaxShards - 1) = rounded_size n"
proof -
  have "sub64 (add64 n (16 * kMaxShards)) 1 = n + 4095" "16 * kMaxShards - 1 = 2 ^ 12 - 1"
    using assms by (simp_all add: kMaxShards_def)
  then show ?thesis using and_not64_mask [of "n + 4095" 12] assms unfolding rounded_size_def by simp
qed

definition fresh_arena :: "va_state \<Rightarrow> bool" where
  "fresh_arena s \<longleftrightarrow> (\<forall>j < 256. fl_refines (ar_base (va_arena s) + j * shard_span s) (shard_span s) (va_shards s ! j)
     (ab_init (ar_base (va_arena s) + j * shard_span s) (shard_span s)))"

text \<open>The capacity that is mapped divides into 256 shards of at least the size of a tree node.\<close>

lemma mapped_capacity:
  assumes "config_ok ps mm nilp tls0 cfg"
  defines "q \<equiv> rounded_size (cfg_arena_size cfg)"
  defines "cap \<equiv> (q + ps - 1) div ps * ps"
  shows "arena_create ps mm q = (case mm cap of Inl e \<Rightarrow> Inl (errno_error e) | Inr p \<Rightarrow> Inr \<lparr>ar_base = p, ar_capacity = cap\<rparr>)"
    "cfg_arena_size cfg \<le> cap" "\<exists>k. cap = 256 * k \<and> k mod 16 = 0 \<and> 48 \<le> k \<and> k \<le> 2 ^ 30"
proof -
  let ?n = "cfg_arena_size cfg"
  have C: "8192 < ?n" "?n \<le> 2 ^ 37" "ps dvd 4096 \<or> 4096 dvd ps" "0 < ps" "ps \<le> 2 ^ 30"
    using assms(1) by (auto simp: config_ok_def)
  note q = rounded_size_bounds [of ?n, folded q_def]
  have nw: "q + ps < 2 ^ 64" using q(2) C(2,5) by simp
  note rp = round_up_page [OF C(4) nw]
  show "arena_create ps mm q = (case mm cap of Inl e \<Rightarrow> Inl (errno_error e) | Inr p \<Rightarrow> Inr \<lparr>ar_base = p, ar_capacity = cap\<rparr>)"
    using q(1) C(1) unfolding arena_create_def Let_def rp(1) cap_def by simp
  show "?n \<le> cap" using rp(2) q(1) by (simp add: cap_def)
  have "4096 dvd cap"
  proof (cases "4096 dvd ps")
    case True
    then show ?thesis by (simp add: cap_def)
  next
    case False
    then have "ps dvd q" using C(3) q(3) dvd_trans by blast
    then obtain c where c: "q = ps * c" by blast
    have "cap = q" using C(4) unfolding cap_def c by (simp add: div_nat_eqI algebra_simps)
    then show ?thesis using q(3) by simp
  qed
  then obtain k0 where k0: "cap = 4096 * k0" by blast
  have "3 * 4096 \<le> q" using q(1,3) C(1) by (auto elim!: dvdE)
  then have "3 \<le> k0" "k0 \<le> 2 ^ 26" using rp(2,3) q(2) C(2,5) k0 by (auto simp: cap_def)
  then show "\<exists>k. cap = 256 * k \<and> k mod 16 = 0 \<and> 48 \<le> k \<and> k \<le> 2 ^ 30" using k0 by (intro exI [of _ "16 * k0"]) simp
qed

lemma fresh_shards:
  assumes "0 < b" "b mod 16 = 0" "b + cap < 2 ^ 64" "\<And>i. nilp i \<noteq> 0 \<and> (nilp i < b \<or> b + cap \<le> nilp i)"
    and cap: "cap = 256 * k" and k: "k mod 16 = 0" "48 \<le> k" "k \<le> 2 ^ 30"
  shows "\<exists>ss. make_shards nilp g b k [0..<256] = Some ss \<and> length ss = 256 \<and>
    (\<forall>j < 256. fl_refines (b + j * k) k (ss ! j) (ab_init (b + j * k) k) \<and>
       fl_inv (ss ! j) [] \<and> fl_base (ss ! j) = b + j * k \<and> fl_size (ss ! j) = k)"
proof -
  have cr: "create_ok (nilp i) (b + i * k) k" if i: "i < 256" for i
  proof -
    have "b + i * k + k \<le> b + cap" using slot_in_arena [OF i, of "b + i * k" k b k] cap by simp
    moreover have "(b + i * k) mod 16 = 0" using assms(2) k(1) by (metis add.left_neutral mod_add_eq mod_mult_right_eq mult_0_right mod_0)
    ultimately show ?thesis using assms(1-3) assms(4) [of i] k by (auto simp: create_ok_def arena_ok_def)
  qed
  then obtain ss where ss: "make_shards nilp g b k [0..<256] = Some ss" "length ss = 256"
    "\<And>j. j < 256 \<Longrightarrow> fl_refines (b + j * k) k (ss ! j) (ab_init (b + j * k) k)"
    using make_shards_inv [of "[0..<256]" nilp b k g] by (auto simp del: upt_rec_numeral)
  have "fl_inv (ss ! j) [] \<and> fl_base (ss ! j) = b + j * k \<and> fl_size (ss ! j) = k" if j: "j < 256" for j
    using fl_invI [OF ab_init_wf [OF cr [OF j]] ss(3) [OF j]] ss(3) [OF j] by (simp add: fl_refines_def)
  then show ?thesis using ss by blast
qed

lemma va_create_inv:
  assumes "config_ok ps mm nilp tls0 cfg"
  shows "\<exists>r. va_create ps mm ls nilp g tls0 gen cfg = Some r \<and>
    (case r of Inl e \<Rightarrow> \<exists>n. e = errno_error n
     | Inr s \<Rightarrow> va_inv s [] \<and> cfg_arena_size cfg \<le> va_capacity s \<and> va_config s = cfg \<and> va_batch s = [] \<and>
         fresh_arena s \<and> mm (va_capacity s) = Inr (ar_base (va_arena s)))"
proof -
  have C: "cfg_arena_size cfg \<le> 2 ^ 37" "0 < cfg_sampling cfg" "\<And>th c. tls0 th \<noteq> Context c"
    "\<And>n b. mm n = Inr b \<Longrightarrow> 0 < b \<and> b mod 16 = 0 \<and> b + n < 2 ^ 64 \<and> (\<forall>i. nilp i \<noteq> 0 \<and> (nilp i < b \<or> b + n \<le> nilp i))"
    using assms by (auto simp: config_ok_def)
  note M = mapped_capacity [OF assms]
  let ?cap = "(rounded_size (cfg_arena_size cfg) + ps - 1) div ps * ps"
  from M(3) obtain k where "?cap = 256 * k \<and> k mod 16 = 0 \<and> 48 \<le> k \<and> k \<le> 2 ^ 30" ..
  then have k: "?cap = 256 * k" "k mod 16 = 0" "48 \<le> k" "k \<le> 2 ^ 30" by simp_all
  show ?thesis
  proof (cases "mm ?cap")
    case (Inl e)
    then show ?thesis unfolding va_create_def Let_def arena_size_aligned [OF C(1)] M(1) by simp
  next
    case (Inr b)
    have B: "0 < b" "b mod 16 = 0" "b + ?cap < 2 ^ 64" "\<And>i. nilp i \<noteq> 0 \<and> (nilp i < b \<or> b + ?cap \<le> nilp i)"
      using C(4) [OF Inr] by blast+
    obtain ss where ss: "make_shards nilp g b k [0..<256] = Some ss" "length ss = 256"
      "\<forall>j < 256. fl_refines (b + j * k) k (ss ! j) (ab_init (b + j * k) k) \<and>
         fl_inv (ss ! j) [] \<and> fl_base (ss ! j) = b + j * k \<and> fl_size (ss ! j) = k"
      using fresh_shards [of b _ nilp k g, OF B k] by blast
    define s where "s = \<lparr>va_config = cfg, va_arena = \<lparr>ar_base = b, ar_capacity = 256 * k\<rparr>,
       va_line_size = cache_analyzer (if cfg_cache_line_size cfg = 0 then detect_line_size ls else cfg_cache_line_size cfg),
       va_shards = ss, va_next_shard_idx = 0, va_batch = [], va_contexts = [], va_active = [], va_tls = tls0,
       va_generation = gen, va_headers = Map.empty, va_footers = Map.empty, va_data = initial_data ss\<rparr>"
    have "va_create ps mm ls nilp g tls0 gen cfg = Some (Inr s)"
      using Inr ss(1) unfolding va_create_def Let_def arena_size_aligned [OF C(1)] M(1) k(1)
      by (simp add: kMaxShards_def s_def del: upt_rec_numeral)
    moreover have "va_inv s []"
      using ss(2,3) k(3) B(1) B(3) [unfolded k(1)] C(2,3)
      by (simp add: va_inv_def s_def shard_span_def sharded_def shard_regions_def ctx_ok_def)
    moreover have "fresh_arena s" using ss(3) by (simp add: fresh_arena_def s_def shard_span_def)
    ultimately show ?thesis using M(2) k(1) Inr by (auto simp: s_def va_capacity_def)
  qed
qed

end
