(* ===== verification/Arena_Theorems.thy ===== *)
theory Arena_Theorems
  imports Sharded_Arena
begin

text \<open>
  The properties of \<open>VisualizationArena\<close> as a state machine: threads allocate, free, write into their
  blocks and end, the batcher runs; every reachable state keeps the live blocks apart and their
  bookkeeping intact.
\<close>

subsection \<open>Runs\<close>

definition thread_exit :: "va_state \<Rightarrow> nat \<Rightarrow> nat \<Rightarrow> va_state" where
  "thread_exit s th c = s\<lparr>va_tls := (va_tls s)(th := NoContext),
     va_contexts := (va_contexts s)[c := (va_contexts s ! c)\<lparr>tc_alive := False\<rparr>]\<rparr>"

definition request_ok :: "AllocationEvent list \<Rightarrow> size_t \<Rightarrow> size_t \<Rightarrow> bool" where
  "request_ok slots sz al \<longleftrightarrow> length slots = kEventSlots \<and> sz + offset_to_user al \<le> 2 ^ 64 - 16 \<and> align_ok al \<and> al < 2 ^ 64"

inductive va_reach :: "va_state \<Rightarrow> live_block list \<Rightarrow> bool" where
  va_start: "config_ok ps mm nilp tls0 cfg \<Longrightarrow> va_create ps mm ls nilp g tls0 gen cfg = Some (Inr s) \<Longrightarrow> va_reach s []"
| va_alloc: "va_reach s H \<Longrightarrow> request_ok slots sz al \<Longrightarrow> alloc_raw slots now s th sz al tag = Some (p, s') \<Longrightarrow>
    va_reach s' (if p = nullptr then H else alloc_block s p sz al # H)"
| va_free: "va_reach s H \<Longrightarrow> x \<in> set H \<Longrightarrow> va_tls s th \<noteq> ForeignContext \<Longrightarrow>
    dealloc_raw now s th (lb_user x) n = Some s' \<Longrightarrow> va_reach s' (remove1 x H)"
| va_write: "va_reach s H \<Longrightarrow> x \<in> set H \<Longrightarrow> q \<in> user_bytes x \<Longrightarrow> va_reach (s\<lparr>va_data := (va_data s)(q := v)\<rparr>) H"
| va_exit: "va_reach s H \<Longrightarrow> va_tls s th = Context c \<Longrightarrow> va_reach (thread_exit s th c) H"
| va_batch: "va_reach s H \<Longrightarrow> batcher_round dump s = Some (out, s') \<Longrightarrow> va_reach s' H"
| va_log: "va_reach s H \<Longrightarrow> event_log_json dump s = Some (res, s') \<Longrightarrow> va_reach s' H"

lemma ctx_ok_events:
  assumes "ctx_ok s"
  shows "\<exists>ev. \<forall>c \<in> set (va_active s). lt_holds (tc_tracker (va_contexts s ! c)) (ev c)"
  using assms by (intro bchoice) (auto simp: ctx_ok_def ctx_wf_def)

lemma drained_ok:
  assumes "ctx_ok s" "drained s cs evs s'"
  shows "ctx_ok s'" "va_arena s' = va_arena s" "va_shards s' = va_shards s" "va_headers s' = va_headers s"
    "va_footers s' = va_footers s" "va_data s' = va_data s" "va_active s' = va_active s" "va_batch s' = va_batch s @ evs"
proof -
  obtain ctxs where ctxs: "s' = s\<lparr>va_batch := va_batch s @ evs, va_contexts := ctxs\<rparr>" "length ctxs = length (va_contexts s)"
     "\<And>c. c < length ctxs \<Longrightarrow> \<exists>t. ctxs ! c = (va_contexts s ! c)\<lparr>tc_tracker := t\<rparr> \<and>
           lt_sampling t = lt_sampling (tc_tracker (va_contexts s ! c)) \<and>
           (if c \<in> set cs \<and> tc_alive (va_contexts s ! c) then lt_holds t [] else t = tc_tracker (va_contexts s ! c))"
    using assms(2) unfolding drained_def by blast
  have "ctx_wf (va_generation s) x" if x: "x \<in> set ctxs" for x
  proof -
    obtain c where c: "c < length ctxs" "x = ctxs ! c" using x by (auto simp: in_set_conv_nth)
    then show ?thesis using ctxs(3) [OF c(1)] ctx_ok_nth [OF assms(1), of c] ctxs(2)
      by (auto simp: ctx_wf_def split: if_splits)
  qed
  then show "ctx_ok s'" using assms(1) ctxs(1,2) by (simp add: ctx_ok_def)
  show "va_arena s' = va_arena s" "va_shards s' = va_shards s" "va_headers s' = va_headers s"
    "va_footers s' = va_footers s" "va_data s' = va_data s" "va_active s' = va_active s" "va_batch s' = va_batch s @ evs"
    using ctxs(1) by simp_all
qed

lemma log_collect_ok:
  assumes "ctx_ok s" "\<And>c. c \<in> set (va_active s) \<Longrightarrow> tc_alive (va_contexts s ! c) \<Longrightarrow> lt_holds (tc_tracker (va_contexts s ! c)) (ev c)"
  shows "\<exists>s'. log_collect s (va_active s) = Some s' \<and> drained s (va_active s) (collected s ev (va_active s)) s'"
  using log_collect_drained [of "va_active s" s ev] assms by (auto simp: ctx_ok_def)

text \<open>The batcher's round in closed form.\<close>

lemma batcher_round_eq:
  assumes "ctx_ok s" "\<And>c. c \<in> set (va_active s) \<Longrightarrow> tc_alive (va_contexts s ! c) \<Longrightarrow> lt_holds (tc_tracker (va_contexts s ! c)) (ev c)"
  defines "b \<equiv> va_batch s @ collected s ev (va_active s)"
  shows "\<exists>u. drained s (va_active s) (collected s ev (va_active s)) u \<and>
    batcher_round dump s = Some (if b = [] then None else Some (events_payload dump b),
      u\<lparr>va_active := filter (\<lambda>c. tc_alive (va_contexts s ! c)) (va_active s), va_batch := []\<rparr>)"
proof -
  obtain u where u: "log_collect s (va_active s) = Some u" "drained s (va_active s) (collected s ev (va_active s)) u"
    using log_collect_ok [OF assms(1,2)] by blast
  have "distinct (va_active s)" using assms(1) by (simp add: ctx_ok_def)
  moreover have "va_batch u = b" using drained_ok(8) [OF assms(1) u(2)] by (simp add: b_def)
  ultimately show ?thesis using u by (auto simp: batcher_round_def batcher_collect_log)
qed

text \<open>The batcher, the event log and the end of a thread touch neither shards nor headers.\<close>

lemma drained_tls: "drained s cs evs s' \<Longrightarrow> va_tls s' = va_tls s"
  by (auto simp: drained_def)

lemma batcher_frame:
  assumes ok: "ctx_ok s" and run: "batcher_round dump s = Some (out, s')"
  shows "ctx_ok s'" "va_arena s' = va_arena s" "va_shards s' = va_shards s" "va_headers s' = va_headers s"
    "va_footers s' = va_footers s" "va_data s' = va_data s" "va_tls s' = va_tls s"
proof -
  obtain ev where "\<forall>c \<in> set (va_active s). lt_holds (tc_tracker (va_contexts s ! c)) (ev c)" using ctx_ok_events [OF ok] by blast
  then obtain u evs where u: "drained s (va_active s) evs u"
    "s' = u\<lparr>va_active := filter (\<lambda>c. tc_alive (va_contexts s ! c)) (va_active s), va_batch := []\<rparr>"
    using batcher_round_eq [OF ok, of ev dump] run by auto
  note d = drained_ok [OF ok u(1)] drained_tls [OF u(1)]
  show "ctx_ok s'" using d(1,7) by (simp add: u(2) ctx_ok_def)
  show "va_arena s' = va_arena s" "va_shards s' = va_shards s" "va_headers s' = va_headers s"
    "va_footers s' = va_footers s" "va_data s' = va_data s" "va_tls s' = va_tls s" by (simp_all add: u(2) d)
qed

lemma log_frame:
  assumes ok: "ctx_ok s" and run: "event_log_json dump s = Some (res, s')"
  shows "ctx_ok s'" "va_arena s' = va_arena s" "va_shards s' = va_shards s" "va_headers s' = va_headers s"
    "va_footers s' = va_footers s" "va_data s' = va_data s" "va_tls s' = va_tls s"
proof -
  obtain ev where "\<forall>c \<in> set (va_active s). lt_holds (tc_tracker (va_contexts s ! c)) (ev c)" using ctx_ok_events [OF ok] by blast
  then obtain evs where "drained s (va_active s) evs s'"
    using log_collect_ok [OF ok, of ev] run by (auto simp: event_log_json_def)
  note d = drained_ok [OF ok this] drained_tls [OF this]
  show "ctx_ok s'" "va_arena s' = va_arena s" "va_shards s' = va_shards s" "va_headers s' = va_headers s"
    "va_footers s' = va_footers s" "va_data s' = va_data s" "va_tls s' = va_tls s" by (simp_all add: d)
qed

lemma exit_frame:
  assumes ok: "ctx_ok s" and c: "va_tls s th = Context c"
  shows "ctx_ok (thread_exit s th c)"
proof -
  have "c < length (va_contexts s)" using ok c by (auto simp: ctx_ok_def)
  then have "ctx_wf (va_generation s) ((va_contexts s ! c)\<lparr>tc_alive := False\<rparr>)"
    using ctx_ok_nth [OF ok] by (simp add: ctx_wf_def)
  from ctx_ok_upd [OF ok this, of c] show ?thesis by (simp add: ctx_ok_def thread_exit_def)
qed

lemma va_reach_inv: "va_reach s H \<Longrightarrow> va_inv s H"
proof (induction rule: va_reach.induct)
  case (va_start ps mm nilp tls0 cfg ls g gen s)
  then show ?case using va_create_inv [OF va_start(1), of ls g gen] by auto
next
  case (va_alloc s H slots sz al now th tag p s')
  then show ?case using alloc_raw_inv [OF va_alloc.IH, of slots sz al now th tag]
    by (auto simp: request_ok_def alloc_post_def split: if_splits)
next
  case (va_free s H x th now n s')
  then show ?case using dealloc_raw_inv [OF va_free.IH va_free(2,3), of now n] by auto
next
  case (va_write s H x q v)
  then show ?case using va_invD(9) [OF va_write.IH] by (intro va_inv_frame [OF va_write.IH]) (simp_all add: ctx_ok_def)
next
  case (va_exit s H th c)
  then show ?case using exit_frame [OF va_invD(9) [OF va_exit.IH]]
    by (intro va_inv_frame [OF va_exit.IH]) (simp_all add: thread_exit_def)
next
  case (va_batch s H dump out s')
  then show ?case using batcher_frame [OF va_invD(9) [OF va_batch.IH]] by (intro va_inv_frame [OF va_batch.IH])
next
  case (va_log s H dump res s')
  then show ?case using log_frame [OF va_invD(9) [OF va_log.IH]] by (intro va_inv_frame [OF va_log.IH])
qed

subsection \<open>A concrete arena\<close>

definition demo_cfg :: ArenaConfig where
  "demo_cfg = \<lparr>cfg_arena_size = 16777216, cfg_cache_line_size = 64, cfg_enable_server = True, cfg_port = 8080,
     cfg_web_root = ''web'', cfg_sampling = 1\<rparr>"

definition demo_mmap :: "size_t \<Rightarrow> nat + addr" where
  "demo_mmap n = (if n \<le> 2 ^ 40 then Inr 4096 else Inl 12)"

definition demo_slots :: "AllocationEvent list" where
  "demo_slots = replicate kEventSlots \<lparr>ev_type = Deallocate,
     ev_block = \<lparr>bm_offset = 0, bm_size = 0, bm_alignment = 0, bm_actual_size = 0, bm_tag = empty_tag, bm_timestamp = 0\<rparr>,
     ev_event_id = 0, ev_total_allocated = 0, ev_total_free = 0, ev_fragmentation_pct = 0, ev_free_block_count = 0\<rparr>"

lemma demo_config_ok: "config_ok 4096 demo_mmap (\<lambda>_. 64) (\<lambda>_. NoContext) demo_cfg"
  by (simp add: config_ok_def demo_cfg_def demo_mmap_def)

lemma demo_arena:
  "\<exists>s. va_reach s [] \<and> fresh_arena s \<and> va_arena s = \<lparr>ar_base = 4096, ar_capacity = 16777216\<rparr> \<and>
     va_create 4096 demo_mmap 64 (\<lambda>_. 64) zero_log (\<lambda>_. NoContext) 1 demo_cfg = Some (Inr s) \<and>
     va_tls s = (\<lambda>_. NoContext) \<and> va_batch s = []"
proof -
  have ar: "arena_create 4096 demo_mmap 16777216 = Inr \<lparr>ar_base = 4096, ar_capacity = 16777216\<rparr>"
    by (simp add: arena_create_def demo_mmap_def)
  have sz: "and_not64 (sub64 (add64 16777216 (16 * kMaxShards)) 1) (16 * kMaxShards - 1) = 16777216"
    using arena_size_aligned [of 16777216] by (simp add: rounded_size_def)
  obtain r where r: "va_create 4096 demo_mmap 64 (\<lambda>_. 64) zero_log (\<lambda>_. NoContext) 1 demo_cfg = Some r"
    "case r of Inl e \<Rightarrow> \<exists>n. e = errno_error n | Inr s \<Rightarrow> va_inv s [] \<and> cfg_arena_size demo_cfg \<le> va_capacity s \<and>
       va_config s = demo_cfg \<and> va_batch s = [] \<and> fresh_arena s \<and> demo_mmap (va_capacity s) = Inr (ar_base (va_arena s))"
    using va_create_inv [OF demo_config_ok, of 64 zero_log 1] by blast
  have "cfg_arena_size demo_cfg = 16777216" by (simp add: demo_cfg_def)
  then have "\<exists>s. r = Inr s \<and> va_arena s = \<lparr>ar_base = 4096, ar_capacity = 16777216\<rparr> \<and> va_tls s = (\<lambda>_. NoContext)"
    using r(1) unfolding va_create_def Let_def \<open>cfg_arena_size demo_cfg = 16777216\<close> sz ar
    by (auto simp: bind_eq_Some_conv)
  then show ?thesis using r va_start [OF demo_config_ok r(1) [THEN trans]] by auto
qed

lemma offset_16 [simp]: "offset_to_user 16 = 64"
  by (simp add: offset_to_user_def base_overhead_def)

text \<open>An arena whose shards all have a free block of \<open>k\<close> bytes serves every request that fits into it.\<close>

definition roomy :: "va_state \<Rightarrow> size_t \<Rightarrow> bool" where
  "roomy s k \<longleftrightarrow> (\<forall>j < 256. \<exists>bs. fl_tree (va_shards s ! j) bs \<and> (\<exists>x \<in> set bs. k \<le> snd x))"

lemma roomy_serves:
  assumes inv: "va_inv s H" and rm: "roomy s k" and ok: "request_ok slots sz 16" and sz: "internal_size_of (sz + 64) \<le> k"
  shows "\<exists>p s'. alloc_raw slots now s th sz 16 tag = Some (p, s') \<and> p \<noteq> nullptr"
proof -
  note I = va_invD [OF inv]
  have r: "length slots = kEventSlots" "sz + offset_to_user 16 \<le> 2 ^ 64 - 16" "align_ok 16"
    using ok by (simp_all add: request_ok_def)
  have "\<not> shard_full s sz 16"
  proof
    assume "shard_full s sz 16"
    then obtain j e a where j: "j < 256" and a: "allocate (va_shards s ! j) (sz + 64) 16 = Some (Inl e, a)"
      by (auto simp: shard_full_def)
    have f: "fl_inv (va_shards s ! j) (shard_regions H j)" using shardedD(1) [OF I(6), of j] j I(1) by simp
    obtain bs x where t: "fl_tree (va_shards s ! j) bs" "x \<in> set bs" "k \<le> snd x" using rm j by (auto simp: roomy_def)
    obtain A where A: "ab_wf (fl_base (va_shards s ! j)) (fl_size (va_shards s ! j)) (shard_regions H j) A" "fl_tree (va_shards s ! j) (ab_tree A)"
      using f by (auto simp: fl_inv_def fl_refines_def)
    have "ab_tree A = bs" using A(2) t(1) fl_tree_unique by blast
    then have "fst x mod 16 = 0" using ab_wf_region(1) [OF A(1), of "fst x" "snd x"] t(2) by (simp add: ab_regions_def)
    then have "ab_fits (internal_size_of (sz + 64)) (max 16 16) x"
      using sz t(3) internal_size_bounds(3) [of "sz + 64"] r(2) by (cases x) (auto simp: ab_fits_def align_up_def elim!: dvdE simp flip: mod_eq_0_iff_dvd)
    moreover have "e = OutOfMemory" using allocate_inv [OF f, of "sz + 64" 16] r a by auto
    ultimately show False using allocate_oom_iff [OF f _ r(3) t(1), of "sz + 64"] r(2) a t(2) by (auto simp: list_all_iff)
  qed
  then show ?thesis using alloc_raw_inv [OF inv r(1,2,3), of now th tag] by (auto split: if_splits)
qed

lemma fresh_roomy: "fresh_arena s \<Longrightarrow> roomy s (shard_span s)"
  by (fastforce simp: fresh_arena_def roomy_def fl_refines_def ab_init_def)

lemma fresh_arena_serves:
  assumes "va_inv s []" "fresh_arena s" "request_ok slots sz 16" "internal_size_of (sz + 64) \<le> shard_span s"
  shows "\<exists>p s'. alloc_raw slots now s th sz 16 tag = Some (p, s') \<and> p \<noteq> nullptr"
  using roomy_serves [OF assms(1) fresh_roomy [OF assms(2)] assms(3,4)] .

text \<open>A request changes the context of no other thread.\<close>

lemma init_tls_context_frame:
  "va_headers (init_tls_context slots s th) = va_headers s" "va_footers (init_tls_context slots s th) = va_footers s"
  "th' \<noteq> th \<Longrightarrow> va_tls (init_tls_context slots s th) th' = va_tls s th'"
  "init_tls_context slots (s\<lparr>va_headers := f\<rparr>) th = (init_tls_context slots s th)\<lparr>va_headers := f\<rparr>"
  by (simp_all add: init_tls_context_def Let_def)

lemma alloc_raw_other_tls:
  assumes inv: "va_inv s H" and ok: "request_ok slots sz al" and run: "alloc_raw slots now s th sz al tag = Some (p, s')" and ne: "th' \<noteq> th"
  shows "va_tls s' th' = va_tls s th'"
proof -
  define u where "u = (if needs_context s th then init_tls_context slots s th else s)"
  have r: "sz + offset_to_user al \<le> 2 ^ 64 - 16" "align_ok al" "al < 2 ^ 64" "length slots = kEventSlots"
    using ok by (auto simp: request_ok_def)
  have u: "va_inv u H" "va_tls u th' = va_tls s th'"
    using init_tls_context_ok(1) [OF inv r(4)] init_tls_context_frame(3) [OF ne] inv by (simp_all add: u_def)
  obtain c where c: "va_tls u th = Context c"
    using init_tls_context_ok(2) [OF inv r(4), of th] own_context [OF inv, of th] by (cases "needs_context s th") (auto simp: u_def)
  then have ctx: "\<not> needs_context u th" using va_invD(9) [OF u(1)] by (auto simp: needs_context_def ctx_ok_def ctx_wf_def)
  have "alloc_raw slots now s th sz al tag = alloc_raw slots now u th sz al tag"
    using ctx by (simp add: alloc_raw_def Let_def u_def)
  then show ?thesis using alloc_raw_context [OF u(1) c ctx r(1-3), of slots now tag] run u(2) by auto
qed

lemma demo_block:
  "\<exists>s p. va_reach s [alloc_block s p 100 16] \<and> p \<noteq> nullptr \<and> va_capacity s = 16777216 \<and> va_tls s 0 \<noteq> ForeignContext"
proof -
  obtain s where s: "va_reach s []" "fresh_arena s" "va_arena s = \<lparr>ar_base = 4096, ar_capacity = 16777216\<rparr>"
    "va_tls s = (\<lambda>_. NoContext)" using demo_arena by blast
  have ok: "request_ok demo_slots 100 16" by (simp add: request_ok_def demo_slots_def align_ok_def)
  have "internal_size_of (100 + 64) = 176" by (simp add: internal_size_eq max_def)
  then obtain p s' where p: "alloc_raw demo_slots 0 s 0 100 16 ''cache'' = Some (p, s')" "p \<noteq> nullptr"
    using fresh_arena_serves [OF va_reach_inv [OF s(1)] s(2) ok, of 0 0 "''cache''"] s(3) by (auto simp: shard_span_def)
  have post: "alloc_post s [] 100 16 p s'" "va_tls s' 0 \<noteq> ForeignContext"
    using alloc_raw_inv [OF va_reach_inv [OF s(1)], of demo_slots 100 16 0 0 "''cache''"] ok p by (auto simp: request_ok_def)
  then have ar: "va_arena s' = va_arena s" by (simp add: alloc_post_def)
  have "va_reach s' [alloc_block s p 100 16]" using va_alloc [OF s(1) ok p(1)] p(2) by simp
  moreover have "alloc_block s p 100 16 = alloc_block s' p 100 16"
    using ar by (simp add: alloc_block_def get_shard_idx_def Let_def)
  ultimately show ?thesis using p(2) ar s(3) post(2)
    by (intro exI [of _ s'] exI [of _ p]) (simp add: va_capacity_def)
qed

text \<open>The first allocation leaves room in every shard, so a second thread is served too.\<close>

lemma demo_carved:
  assumes "b mod 16 = 0" "ab_tree A = [(b, 65536)]"
  shows "ab_tree (snd (ab_allocate b 164 16 A)) = [(b + 176, 65360)]"
proof -
  have "internal_size_of 164 = 176" by (simp add: internal_size_eq max_def)
  moreover have "align_up 16 b = b" using assms(1) by (auto simp: align_up_def elim!: dvdE simp flip: mod_eq_0_iff_dvd)
  ultimately show ?thesis using assms(2)
    by (simp add: ab_allocate_def max_def ab_fits_def ab_carve_def ab_padding_def ab_remainder_def ab_insert_def)
qed

lemma demo_carved_shard:
  assumes f: "fl_inv a0 []" "fl_base a0 = b" "fl_size a0 = 65536" and t: "fl_tree a0 [(b, 65536)]" and b: "b mod 16 = 0"
    and a: "allocate a0 164 16 = Some (Inr r, a)"
  shows "fl_tree (claim_region a (res_ptr r) (res_actual_size r)) [(b + 176, 65360)]"
proof -
  have al: "align_ok 16" by (simp add: align_ok_def)
  obtain A where A: "ab_wf b 65536 [] A" "fl_refines b 65536 a0 A" using f by (auto simp: fl_inv_def)
  let ?A = "snd (ab_allocate b 164 16 A)"
  have "ab_tree A = [(b, 65536)]" using A(2) t fl_tree_unique by (fastforce simp: fl_refines_def)
  then have tree: "ab_tree ?A = [(b + 176, 65360)]" by (rule demo_carved [OF b])
  have "fl_refines b 65536 a ?A" "fst (ab_allocate b 164 16 A) = Inr r" using allocate_refines [OF A _ al, of 164] a by auto
  moreover have "ab_wf b 65536 [(res_ptr r, res_actual_size r)] ?A"
    using ab_allocate_wf [OF A(1) _ al, of 164] calculation(2) by (cases "ab_allocate b 164 16 A") auto
  ultimately have "fl_refines b 65536 (claim_region a (res_ptr r) (res_actual_size r)) ?A" by (intro claim_region_refines)
  then show ?thesis using tree by (simp add: fl_refines_def)
qed

lemma demo_second_alloc:
  "\<exists>s x p s'. va_reach s [x] \<and> lb_size x = 100 \<and> va_tls s 0 \<noteq> ForeignContext \<and> va_tls s 1 = NoContext \<and>
     alloc_raw demo_slots 0 s 1 200 16 ''mesh'' = Some (p, s') \<and> p \<noteq> nullptr"
proof -
  obtain s where s: "va_reach s []" "fresh_arena s" "va_arena s = \<lparr>ar_base = 4096, ar_capacity = 16777216\<rparr>"
    "va_tls s = (\<lambda>_. NoContext)" using demo_arena by blast
  note inv = va_reach_inv [OF s(1)] note I = va_invD [OF inv]
  have sp: "shard_span s = 65536" using s(3) by (simp add: shard_span_def)
  have ok: "request_ok demo_slots 100 16" "request_ok demo_slots 200 16" by (simp_all add: request_ok_def demo_slots_def align_ok_def)
  have isz: "internal_size_of (100 + 64) = 176" "internal_size_of (200 + 64) = 272" by (simp_all add: internal_size_eq max_def)
  obtain p s' where p: "alloc_raw demo_slots 0 s 0 100 16 ''cache'' = Some (p, s')" "p \<noteq> nullptr"
    using fresh_arena_serves [OF inv s(2) ok(1), of 0 0 "''cache''"] isz sp by auto
  let ?x = "alloc_block s p 100 16"
  have reach: "va_reach s' [?x]" using va_alloc [OF s(1) ok(1) p(1)] p(2) by simp
  have post: "alloc_post s [] 100 16 p s'" "va_tls s' 0 \<noteq> ForeignContext"
    using alloc_raw_inv [OF inv, of demo_slots 100 16 0 0 "''cache''"] ok p by (auto simp: request_ok_def)
  obtain j r a where j: "j < 256" and a: "allocate (va_shards s ! j) 164 16 = Some (Inr r, a)"
    and sh: "va_shards s' = (va_shards s)[j := claim_region a (res_ptr r) (res_actual_size r)]"
    using post(1) by (auto simp: alloc_post_def)
  let ?b = "\<lambda>j. 4096 + j * 65536"
  have fr: "fl_tree (va_shards s ! i) [(?b i, 65536)]" if "i < 256" for i
    using s(2,3) sp that by (simp add: fresh_arena_def fl_refines_def ab_init_def)
  have f: "fl_inv (va_shards s ! j) []" "fl_base (va_shards s ! j) = ?b j" "fl_size (va_shards s ! j) = 65536"
    using shardedD [OF I(6), of j] j I(1) s(3) sp by (auto simp: shard_regions_def)
  have "?b j mod 16 = 0" by (intro mod_eq_0_iff_dvd [THEN iffD2] dvd_add dvd_mult) simp_all
  note tr = demo_carved_shard [OF f fr [OF j] this a]
  have "roomy s' 65360" unfolding roomy_def
  proof (intro allI impI)
    fix i :: nat assume i: "i < 256"
    show "\<exists>bs. fl_tree (va_shards s' ! i) bs \<and> (\<exists>x \<in> set bs. 65360 \<le> snd x)"
    proof (cases "i = j")
      case True
      then show ?thesis using tr sh j I(1) by (intro exI [of _ "[(?b j + 176, 65360)]"]) simp
    next
      case False
      then show ?thesis using fr [OF i] sh by (intro exI [of _ "[(?b i, 65536)]"]) simp
    qed
  qed
  from roomy_serves [OF va_reach_inv [OF reach] this ok(2), of 0 1 "''mesh''"] isz(2)
  obtain q u where "alloc_raw demo_slots 0 s' 1 200 16 ''mesh'' = Some (q, u)" "q \<noteq> nullptr" by auto
  moreover have "va_tls s' 1 = NoContext" using alloc_raw_other_tls [OF inv ok(1) p(1), of 1] s(4) by simp
  moreover have "lb_size ?x = 100" by (simp add: alloc_block_def Let_def)
  ultimately show ?thesis using reach post(2) by blast
qed

lemma demo_two_blocks:
  "\<exists>s x y. va_reach s [y, x] \<and> lb_size x = 100 \<and> lb_size y = 200 \<and> va_tls s 0 \<noteq> ForeignContext \<and> va_tls s 1 \<noteq> ForeignContext"
proof -
  obtain s x p s' where s: "va_reach s [x]" "lb_size x = 100" "va_tls s 0 \<noteq> ForeignContext"
    "alloc_raw demo_slots 0 s 1 200 16 ''mesh'' = Some (p, s')" "p \<noteq> nullptr" using demo_second_alloc by blast
  have ok: "request_ok demo_slots 200 16" by (simp add: request_ok_def demo_slots_def align_ok_def)
  have "va_reach s' [alloc_block s p 200 16, x]" using va_alloc [OF s(1) ok s(4)] s(5) by simp
  moreover have "va_tls s' 0 = va_tls s 0" using alloc_raw_other_tls [OF va_reach_inv [OF s(1)] ok s(4), of 0] by simp
  moreover have "va_tls s' 1 \<noteq> ForeignContext"
    using alloc_raw_inv [OF va_reach_inv [OF s(1)], of demo_slots 200 16 0 1 "''mesh''"] ok s(4) by (auto simp: request_ok_def)
  moreover have "lb_size (alloc_block s p 200 16) = 200" by (simp add: alloc_block_def Let_def)
  ultimately show ?thesis using s(2,3) by metis
qed

subsection \<open>Allocation and deallocation\<close>

lemma user_region:
  assumes "va_inv s H" "x \<in> set H"
  shows "lb_raw x + 60 \<le> lb_user x" "lb_user x + lb_size x \<le> lb_raw x + lb_actual x"
    "ar_base (va_arena s) \<le> lb_raw x" "lb_raw x + lb_actual x \<le> ar_base (va_arena s) + va_capacity s"
proof -
  have ok: "live_ok s x" using va_invD(8) [OF assms] .
  then show "lb_raw x + 60 \<le> lb_user x" "lb_user x + lb_size x \<le> lb_raw x + lb_actual x"
    by (auto simp: live_ok_def lb_user_def)
  note R = live_region [OF assms]
  show "ar_base (va_arena s) \<le> lb_raw x" using R(1) by linarith
  show "lb_raw x + lb_actual x \<le> ar_base (va_arena s) + va_capacity s"
    using slot_in_arena [OF R(6,2)] va_invD(3) [OF assms(1)] by (simp add: va_capacity_def)
qed

lemma user_bytes_in_block: "va_inv s H \<Longrightarrow> x \<in> set H \<Longrightarrow> user_bytes x \<subseteq> block_bytes x"
  using user_region(1,2) [of s H x] by (auto simp: user_bytes_def block_bytes_def)

lemma user_bytes_disjoint:
  assumes "va_inv s (x # H)" "y \<in> set H"
  shows "user_bytes x \<inter> user_bytes y = {}"
  using live_disjoint_regions [of s "[]" x H y] user_region(1,2) [OF assms(1), of x] user_region(1,2) [OF assms(1), of y] assms
  by (auto simp: user_bytes_def)

lemma alloc_aligned:
  assumes inv: "va_inv s H" and post: "alloc_post s H sz al p s'" and ok: "request_ok slots sz al"
    and al: "has_single_bit al" "al \<le> 16 \<or> 128 < sz + offset_to_user al"
  shows "p mod al = 0"
proof -
  note I = va_invD [OF inv]
  obtain j r a where j: "j < 256" and a: "allocate (va_shards s ! j) (sz + offset_to_user al) al = Some (Inr r, a)"
    and p: "p = res_ptr r + offset_to_user al" using post by (auto simp: alloc_post_def)
  have f: "fl_inv (va_shards s ! j) (shard_regions H j)" using shardedD(1) [OF I(6), of j] j I(1) by simp
  have sz: "sz + offset_to_user al \<le> 2 ^ 64 - 16" and lt: "al < 2 ^ 64" using ok by (auto simp: request_ok_def)
  obtain k where k: "al = 2 ^ k" using al(1) has_single_bit_iff by blast
  have "res_ptr r mod al = 0"
  proof (cases "al \<le> 16")
    case True
    then have "(2 :: nat) ^ k \<le> 2 ^ 4" unfolding k by simp
    then have "k \<le> 4" by (simp only: power_increasing_iff [of 2])
    then have "al dvd 2 ^ 4" unfolding k by (rule le_imp_power_dvd)
    moreover have "16 dvd res_ptr r" using allocate_result(3) [OF f sz _ a] al(1) by (auto simp: align_ok_def)
    ultimately show ?thesis using dvd_trans [of al 16 "res_ptr r"] by simp
  next
    case False
    then have "no_small (va_shards s ! j) (internal_size_of (sz + offset_to_user al))"
      using al(2) internal_size_bounds(3) [OF sz] by (auto simp: no_small_def)
    then show ?thesis using allocate_aligned [OF f sz al(1) a] by blast
  qed
  moreover have "offset_to_user al mod al = 0"
    using offset_to_user_bounds(2) [OF lt] has_single_bit_pos [OF al(1)] by blast
  ultimately show ?thesis unfolding p by (metis add.right_neutral mod_add_right_eq)
qed

text \<open>C2. \<open>alloc_raw\<close> returns in every reachable state and for every thread and every request whose size does not
  overflow: a null pointer, or zeroed user memory inside the arena that overlaps no live block. In either case every
  byte of the live blocks, their headers included, keeps its value in memory. The pointer has the requested alignment when
  that is a power of two and either at most 16 or the block, header included, is larger than 128 bytes; a smaller block may come
  from a segregated list, which knows no alignment.\<close>

theorem alloc_raw_safe:
  assumes "va_reach s H" "request_ok slots sz al"
  shows "\<exists>p s'. alloc_raw slots now s th sz al tag = Some (p, s') \<and>
    va_reach s' (if p = nullptr then H else alloc_block s p sz al # H) \<and>
    (\<forall>y \<in> set H. \<forall>q \<in> block_bytes y. va_data s' q = va_data s q) \<and>
    (p \<noteq> nullptr \<longrightarrow>
       ar_base (va_arena s) + 60 \<le> p \<and> p + sz \<le> ar_base (va_arena s) + va_capacity s \<and>
       (\<forall>q. p \<le> q \<and> q < p + sz \<longrightarrow> va_data s' q = 0) \<and>
       (\<forall>y \<in> set H. user_bytes y \<inter> {p ..< p + sz} = {}) \<and>
       (has_single_bit al \<and> (al \<le> 16 \<or> 128 < sz + offset_to_user al) \<longrightarrow> p mod al = 0))"
proof -
  have inv: "va_inv s H" using va_reach_inv [OF assms(1)] .
  obtain p s' where r: "alloc_raw slots now s th sz al tag = Some (p, s')" "p = nullptr \<Longrightarrow> va_data s' = va_data s"
    and post: "p \<noteq> nullptr \<Longrightarrow> alloc_post s H sz al p s'"
    using alloc_raw_inv [OF inv, of slots sz al now th tag] assms(2) by (fastforce simp: request_ok_def)
  have reach: "va_reach s' (if p = nullptr then H else alloc_block s p sz al # H)" by (rule va_alloc [OF assms r(1)])
  show ?thesis
  proof (cases "p = nullptr")
    case True
    then show ?thesis using r reach by auto
  next
    case False
    let ?x = "alloc_block s p sz al"
    have P: "va_inv s' (?x # H)" "va_arena s' = va_arena s" "offset_to_user al \<le> p" "same_bytes H s s'"
      "\<forall>q \<in> {p..<p + sz}. va_data s' q = 0"
      using post [OF False] by (auto simp: alloc_post_def)
    have x: "lb_user ?x = p" "lb_size ?x = sz" using P(3) by (simp_all add: alloc_block_def lb_user_def Let_def)
    note R = user_region [OF P(1), of ?x]
    have "user_bytes y \<inter> {p ..< p + sz} = {}" if "y \<in> set H" for y
      using user_bytes_disjoint [OF P(1) that] x by (auto simp: user_bytes_def)
    moreover have "ar_base (va_arena s) + 60 \<le> p" "p + sz \<le> ar_base (va_arena s) + va_capacity s"
      using R x P(2) by (auto simp: va_capacity_def)
    moreover note alloc_aligned [OF inv post [OF False] assms(2)]
    ultimately show ?thesis using r(1) reach P(4,5) unfolding same_bytes_def by auto
  qed
qed

theorem alloc_raw_safe_witness:
  "\<exists>s x p s'. va_reach s [x] \<and> lb_size x = 100 \<and> alloc_raw demo_slots 0 s 1 200 16 ''mesh'' = Some (p, s') \<and> p \<noteq> nullptr \<and>
     p mod 16 = 0 \<and> va_data s' p = 0 \<and> user_bytes x \<inter> {p ..< p + 200} = {} \<and>
     (\<forall>q \<in> block_bytes x. va_data s' q = va_data s q)"
proof -
  obtain s x p s' where s: "va_reach s [x]" "lb_size x = 100" "alloc_raw demo_slots 0 s 1 200 16 ''mesh'' = Some (p, s')" "p \<noteq> nullptr"
    using demo_second_alloc by blast
  have "request_ok demo_slots 200 16" by (simp add: request_ok_def demo_slots_def align_ok_def)
  from alloc_raw_safe [OF s(1) this, of 0 1 "''mesh''"] s has_single_bit_power [of 4] show ?thesis by fastforce
qed

lemma live_dealloc_reads:
  assumes inv: "va_inv s H" and x: "x \<in> set H"
  shows "va_footers s (lb_user x - 4) = Some (lb_off x)" "sub64 (lb_user x) (lb_off x) = lb_raw x"
    "header_words s (lb_raw x) = Some (lb_size x, lb_actual x, kMagicValue)" "lb_user x \<noteq> nullptr"
proof -
  note R = live_region [OF inv x] and I = va_invD [OF inv] and U = user_region [OF inv x]
  show "va_footers s (lb_user x - 4) = Some (lb_off x)" using I(8) [OF x] by (simp add: live_ok_def)
  show "sub64 (lb_user x) (lb_off x) = lb_raw x" using slot_in_arena [OF R(6,2)] I(3,5) U(2) by (simp add: lb_user_def)
  have "get_shard_idx s (lb_raw x) = lb_shard x" using R by (intro get_shard_idx_slot [OF I(3) R(6)]) linarith+
  then show "header_words s (lb_raw x) = Some (lb_size x, lb_actual x, kMagicValue)"
    using I(8) [OF x] R(6) I(1) by (auto simp: header_words_def live_ok_def)
  show "lb_user x \<noteq> nullptr" using U(1) by simp
qed

text \<open>C3. Freeing a live block returns in every reachable state, whatever size the caller passes and whichever thread it is,
  unless the thread's context pointer is left from another arena: the block leaves the live ones and every byte of
  the other live blocks keeps its value in memory, whatever nodes the release writes. A thread whose context pointer is left
  from another arena makes the call read that context, which may be gone.\<close>

theorem dealloc_raw_safe:
  assumes "va_reach s H" "x \<in> set H"
  shows "if va_tls s th = ForeignContext then dealloc_raw now s th (lb_user x) n = None
    else \<exists>s'. dealloc_raw now s th (lb_user x) n = Some s' \<and> va_reach s' (remove1 x H) \<and>
      (\<forall>y \<in> set (remove1 x H). \<forall>q \<in> block_bytes y. va_data s' q = va_data s q)"
proof (cases "va_tls s th = ForeignContext")
  case True
  then show ?thesis using live_dealloc_reads [OF va_reach_inv [OF assms(1)] assms(2)]
    by (simp add: dealloc_raw_def record_free_def)
next
  case False
  then show ?thesis
    using dealloc_raw_inv [OF va_reach_inv [OF assms(1)] assms(2) False, of now n] va_free [OF assms False]
    unfolding dealloc_post_def same_bytes_def by auto
qed

theorem dealloc_raw_safe_witness:
  "\<exists>s x y s'. va_reach s [y, x] \<and> x \<noteq> y \<and> lb_size x = 100 \<and> lb_size y = 200 \<and> dealloc_raw 5 s 0 (lb_user x) 0 = Some s' \<and>
     va_reach s' [y] \<and> va_data s' (lb_user y) = va_data s (lb_user y)"
proof -
  obtain s x y where s: "va_reach s [y, x]" "lb_size x = 100" "lb_size y = 200" "va_tls s 0 \<noteq> ForeignContext" using demo_two_blocks by blast
  have "lb_user y \<in> block_bytes y" using user_region(1,2) [OF va_reach_inv [OF s(1)], of y] s(3) by (auto simp: block_bytes_def)
  moreover have "x \<noteq> y" using s(2,3) by auto
  moreover obtain s' where "dealloc_raw 5 s 0 (lb_user x) 0 = Some s'" "va_reach s' [y]"
      "\<forall>q \<in> block_bytes y. va_data s' q = va_data s q"
    using dealloc_raw_safe [OF s(1), of x 0 5 0] s(4) calculation(2) by auto
  ultimately show ?thesis using s by blast
qed

text \<open>What a successful allocation writes.\<close>

lemma alloc_raw_writes:
  assumes "alloc_raw slots now s th sz al tag = Some (p, s')" "p \<noteq> nullptr"
  shows "\<exists>raw h buf d. p = raw + offset_to_user al \<and> va_headers s' = (va_headers s)(raw \<mapsto> h) \<and> ah_tag h = copy_tag buf tag \<and>
    va_data s' = store (store (store d raw 56 (header_byte h)) (p - 4) 4 (byte_at (offset_to_user al mod 2 ^ 32))) p sz (\<lambda>_. 0)"
proof -
  define u where "u = (if needs_context s th then init_tls_context slots s th else s)"
  have h: "va_headers u = va_headers s" by (simp add: u_def init_tls_context_frame)
  from assms obtain c where c: "va_tls u th = Context c"
    unfolding alloc_raw_def u_def [symmetric] Let_def by (auto split: tls.splits)
  let ?i = "tc_shard (va_contexts u ! c)"
  obtain res a where r: "allocate (va_shards u ! ?i) (add64 sz (offset_to_user al)) al = Some (res, a)"
    using assms(1) c unfolding alloc_raw_def u_def [symmetric] Let_def by (auto simp: bind_eq_Some_conv)
  then obtain v where v: "res = Inr v"
    using assms c unfolding alloc_raw_def u_def [symmetric] Let_def by (cases res) auto
  let ?buf = "case va_headers u (res_ptr v) of None \<Rightarrow> empty_tag | Some x \<Rightarrow> ah_tag x"
  let ?h = "\<lparr>ah_size = sz, ah_actual_size = res_actual_size v, ah_magic = kMagicValue, ah_tag = copy_tag ?buf tag\<rparr>"
  let ?d = "write_nodes (va_shards u ! ?i) a (va_data u)"
  have "p = res_ptr v + offset_to_user al" "va_headers s' = (va_headers u)(res_ptr v \<mapsto> ?h)"
    "va_data s' = store (store (store ?d (res_ptr v) 56 (header_byte ?h))
      (p - 4) 4 (byte_at (offset_to_user al mod 2 ^ 32))) p sz (\<lambda>_. 0)"
    using assms c r v unfolding alloc_raw_def u_def [symmetric] Let_def
    by (auto simp: bind_eq_Some_conv write_block_def Let_def)
  then show ?thesis by (intro exI [of _ "res_ptr v"] exI [of _ ?h] exI [of _ ?buf] exI [of _ ?d] conjI) (simp_all add: h)
qed

text \<open>
  The typed view and the byte image agree: the memory holds the bytes of the header and the footer of every live block,
  whatever the threads do and the owners write.
\<close>

definition image_ok :: "va_state \<Rightarrow> live_block \<Rightarrow> bool" where
  "image_ok s x \<longleftrightarrow> (\<exists>h. va_headers s (lb_raw x) = Some h \<and> (\<forall>k < 56. va_data s (lb_raw x + k) = header_byte h k)) \<and>
     (\<forall>k < 4. va_data s (lb_user x - 4 + k) = byte_at (lb_off x) k)"

lemma image_ok_same:
  assumes "image_ok s x" "va_headers s' (lb_raw x) = va_headers s (lb_raw x)"
    "\<And>q. lb_raw x \<le> q \<Longrightarrow> q < lb_user x \<Longrightarrow> va_data s' q = va_data s q" "lb_raw x + 60 \<le> lb_user x"
  shows "image_ok s' x"
proof -
  obtain h where h: "va_headers s (lb_raw x) = Some h" "\<forall>k < 56. va_data s (lb_raw x + k) = header_byte h k"
    "\<forall>k < 4. va_data s (lb_user x - 4 + k) = byte_at (lb_off x) k" using assms(1) by (auto simp: image_ok_def)
  have "va_data s' (lb_raw x + k) = va_data s (lb_raw x + k)" if "k < 56" for k using assms(3) [of "lb_raw x + k"] assms(4) that by simp
  moreover have "va_data s' (lb_user x - 4 + k) = va_data s (lb_user x - 4 + k)" if "k < 4" for k
    using assms(3) [of "lb_user x - 4 + k"] assms(4) that by simp
  ultimately show ?thesis using h assms(2) by (simp add: image_ok_def)
qed

lemma image_ok_block:
  assumes inv: "va_inv s0 H" "x \<in> set H" and "image_ok s x" "va_headers s' (lb_raw x) = va_headers s (lb_raw x)"
    "\<And>q. q \<in> block_bytes x \<Longrightarrow> va_data s' q = va_data s q"
  shows "image_ok s' x"
  using user_region(1,2) [OF inv] assms(5) by (intro image_ok_same [OF assms(3,4)]) (auto simp: block_bytes_def)

lemma write_apart:
  assumes inv: "va_inv s H" and x: "x \<in> set H" "q \<in> user_bytes x" and y: "y \<in> set H"
  shows "q \<notin> {lb_raw y..<lb_user y}"
proof (cases "y = x")
  case False
  have "q \<in> block_bytes x" using user_bytes_in_block [OF inv x(1)] x(2) by blast
  moreover have "y \<in> set (remove1 x H)" using False y by simp
  ultimately show ?thesis using other_block_apart [OF inv x(1)] user_region(1,2) [OF inv y] by (fastforce simp: block_bytes_def)
qed (use x(2) in \<open>auto simp: user_bytes_def\<close>)

lemma image_ok_new:
  assumes run: "alloc_raw slots now s th sz al tag = Some (p, s')" "p \<noteq> nullptr" and inv: "va_inv s' (alloc_block s p sz al # H)"
  shows "image_ok s' (alloc_block s p sz al)"
proof -
  let ?x = "alloc_block s p sz al"
  obtain raw h buf d where w: "p = raw + offset_to_user al" "va_headers s' = (va_headers s)(raw \<mapsto> h)"
    "va_data s' = store (store (store d raw 56 (header_byte h)) (p - 4) 4 (byte_at (offset_to_user al mod 2 ^ 32))) p sz (\<lambda>_. 0)"
    using alloc_raw_writes [OF run] by blast
  have x: "lb_raw ?x = raw" "lb_off ?x = offset_to_user al" "lb_user ?x = p" by (simp_all add: alloc_block_def lb_user_def Let_def w(1))
  have u: "raw + 60 \<le> p" "lb_raw ?x + lb_actual ?x \<le> ar_base (va_arena s') + lb_shard ?x * shard_span s' + shard_span s'"
    "ar_base (va_arena s') + lb_shard ?x * shard_span s' \<le> lb_raw ?x" "p \<le> lb_raw ?x + lb_actual ?x"
    using user_region(1,2) [OF inv, of ?x] live_region(1,2) [OF inv, of ?x] x by auto
  then have "offset_to_user al < 2 ^ 32" using shard_span_less [OF inv] w(1) x(1) by simp
  then show ?thesis using u(1) by (auto simp: image_ok_def x w(2,3) store_def)
qed

lemma headers_in_memory: "va_reach s H \<Longrightarrow> \<forall>x \<in> set H. image_ok s x"
proof (induction rule: va_reach.induct)
  case (va_start ps mm nilp tls0 cfg ls g gen s)
  then show ?case by simp
next
  case (va_alloc s H slots sz al now th tag p s')
  note inv = va_reach_inv [OF va_alloc(1)]
  have s': "if p = nullptr then va_inv s' H \<and> va_data s' = va_data s \<and> va_headers s' = va_headers s \<and> va_arena s' = va_arena s \<and> shard_full s sz al
     else alloc_post s H sz al p s'"
    using alloc_raw_inv [OF inv, of slots sz al now th tag] va_alloc(2,3) by (auto simp: request_ok_def)
  show ?case
  proof (cases "p = nullptr")
    case True
    then show ?thesis using s' va_alloc.IH by (simp add: image_ok_def)
  next
    case False
    let ?x = "alloc_block s p sz al"
    have post: "va_inv s' (?x # H)" "same_bytes H s s'" using s' False by (simp_all add: alloc_post_def)
    obtain raw h where h: "p = raw + offset_to_user al" "va_headers s' = (va_headers s)(raw \<mapsto> h)"
      using alloc_raw_writes [OF va_alloc(3) False] by blast
    have "lb_raw ?x = raw" by (simp add: alloc_block_def Let_def h(1))
    then have "raw \<notin> lb_raw ` set H" using va_invD(7) [OF post(1)] by simp
    then have hd: "va_headers s' (lb_raw y) = va_headers s (lb_raw y)" if "y \<in> set H" for y using that by (auto simp: h(2))
    have "image_ok s' y" if y: "y \<in> set H" for y
    proof (rule image_ok_block [OF inv y])
      show "image_ok s y" "va_headers s' (lb_raw y) = va_headers s (lb_raw y)" using va_alloc.IH hd y by auto
      show "va_data s' q = va_data s q" if "q \<in> block_bytes y" for q using post(2) y that by (simp add: same_bytes_def)
    qed
    then show ?thesis using image_ok_new [OF va_alloc(3) False post(1)] False by simp
  qed
next
  case (va_free s H x th now n s')
  note inv = va_reach_inv [OF va_free(1)]
  have "dealloc_post s H x s'" using dealloc_raw_inv [OF inv va_free(2,3), of now n] va_free(4) by auto
  then have post: "same_bytes (remove1 x H) s s'" "\<And>q. q \<noteq> lb_raw x \<Longrightarrow> va_headers s' q = va_headers s q" by (simp_all add: dealloc_post_def)
  show ?case
  proof
    fix y assume y: "y \<in> set (remove1 x H)"
    have yH: "y \<in> set H" using y set_remove1_subset by fast
    have ne: "lb_raw y \<noteq> lb_raw x"
      using other_block_apart [OF inv va_free(2) y] live_region(3) [OF inv va_free(2)] live_region(3) [OF inv yH] by linarith
    show "image_ok s' y"
    proof (rule image_ok_block [OF inv yH])
      show "image_ok s y" "va_headers s' (lb_raw y) = va_headers s (lb_raw y)" using va_free.IH yH post(2) [OF ne] by auto
      show "va_data s' q = va_data s q" if "q \<in> block_bytes y" for q using post(1) y that by (simp add: same_bytes_def)
    qed
  qed
next
  case (va_write s H x q v)
  note inv = va_reach_inv [OF va_write(1)]
  show ?case
  proof
    fix y assume y: "y \<in> set H"
    have q: "q \<notin> {lb_raw y..<lb_user y}" using write_apart [OF inv va_write(2,3) y] .
    show "image_ok (s\<lparr>va_data := (va_data s)(q := v)\<rparr>) y"
    proof (rule image_ok_same)
      show "image_ok s y" "lb_raw y + 60 \<le> lb_user y" using va_write.IH y user_region(1) [OF inv y] by auto
    qed (use q in auto)
  qed
next
  case (va_exit s H th c)
  then show ?case by (auto simp: image_ok_def thread_exit_def)
next
  case (va_batch s H dump out s')
  then show ?case using batcher_frame [OF va_invD(9) [OF va_reach_inv [OF va_batch(1)]] va_batch(2)] by (simp add: image_ok_def)
next
  case (va_log s H dump res s')
  then show ?case using log_frame [OF va_invD(9) [OF va_reach_inv [OF va_log(1)]] va_log(2)] by (simp add: image_ok_def)
qed

text \<open>Whatever the threads do, the bookkeeping of a live block stays intact: its footer leads back to
  its header, the header carries the magic number and the sizes, and its region, header included, is
  inside the arena and disjoint from the regions of all other live blocks.\<close>

lemma live_blocks_intact:
  assumes "va_reach s (us @ x # vs)"
  shows "va_footers s (lb_user x - 4) = Some (lb_off x) \<and>
    header_words s (lb_raw x) = Some (lb_size x, lb_actual x, kMagicValue) \<and>
    lb_raw x + 60 \<le> lb_user x \<and> lb_user x + lb_size x \<le> lb_raw x + lb_actual x \<and>
    ar_base (va_arena s) \<le> lb_raw x \<and> lb_raw x + lb_actual x \<le> ar_base (va_arena s) + va_capacity s \<and>
    list_all (\<lambda>y. lb_raw x + lb_actual x \<le> lb_raw y \<or> lb_raw y + lb_actual y \<le> lb_raw x) (us @ vs)"
proof -
  have inv: "va_inv s (us @ x # vs)" using va_reach_inv [OF assms] .
  have x: "x \<in> set (us @ x # vs)" by simp
  note R = live_region [OF inv x] and I = va_invD [OF inv]
  have "get_shard_idx s (lb_raw x) = lb_shard x" using R by (intro get_shard_idx_slot [OF I(3) R(6)]) linarith+
  then have "header_words s (lb_raw x) = Some (lb_size x, lb_actual x, kMagicValue)"
    using I(8) [OF x] R(6) I(1) by (auto simp: header_words_def live_ok_def)
  then show ?thesis using I(8) [OF x] user_region [OF inv x] live_disjoint_regions [OF inv]
    by (auto simp: live_ok_def list_all_iff)
qed

subsection \<open>Statistics\<close>

lemma foldl_add64:
  "n + sum_list (map f xs) < 2 ^ 64 \<Longrightarrow> foldl (\<lambda>n a. add64 n (f a)) n xs = n + sum_list (map f xs)"
  by (induction xs arbitrary: n) auto

lemma sum_shards:
  "\<forall>x \<in> set H. lb_shard x < n \<Longrightarrow> sum_list (map (\<lambda>i. bytes (shard_regions H i)) [0..<n]) = sum_list (map lb_actual H)"
proof (induction H)
  case Nil
  then show ?case by (simp add: shard_regions_def bytes_def sum_list_triv)
next
  case (Cons x H)
  have "bytes (shard_regions (x # H) i) = (if i = lb_shard x then lb_actual x else 0) + bytes (shard_regions H i)" for i
    by (simp add: shard_regions_Cons bytes_def region_of_def)
  moreover have "sum_list (map (\<lambda>i. if i = lb_shard x then lb_actual x else 0) [0..<n]) = lb_actual x"
    using Cons.prems by (simp add: sum_list_map_eq_sum_count2 sum_list_distinct_conv_sum_set sum.delta)
  ultimately show ?case using Cons by (simp add: sum_list_addf)
qed

lemma map_shards: "length ss = 256 \<Longrightarrow> map f ss = map (\<lambda>i. f (ss ! i)) [0..<256]"
  by (rule nth_equalityI) (simp_all del: upt_rec_numeral)

lemma va_inv_accounting:
  assumes inv: "va_inv s H"
  shows "va_bytes_allocated s = sum_list (map lb_actual H) \<and>
    va_bytes_allocated s + va_bytes_free s = va_capacity s"
proof -
  note I = va_invD [OF inv]
  let ?k = "shard_span s" and ?ss = "va_shards s"
  have F: "bytes_allocated (?ss ! i) = bytes (shard_regions H i)" "bytes_allocated (?ss ! i) + bytes_free (?ss ! i) = ?k"
    if "i < 256" for i
    using fl_inv_accounting [OF shardedD(1) [OF I(6), of i]] shardedD(3) [OF I(6), of i] that I(1) by (auto simp: capacity_def)
  have "map bytes_allocated ?ss = map (\<lambda>i. bytes (shard_regions H i)) [0..<256]"
    unfolding map_shards [OF I(1)] using F(1) by (intro map_cong) auto
  then have a: "sum_list (map bytes_allocated ?ss) = sum_list (map lb_actual H)"
    using sum_shards [of H 256] live_region(6) [OF inv] by simp
  have "map (\<lambda>a. bytes_allocated a + bytes_free a) ?ss = map (\<lambda>i. ?k) [0..<256]"
    unfolding map_shards [OF I(1)] using F(2) by (intro map_cong) auto
  then have "sum_list (map (\<lambda>a. bytes_allocated a + bytes_free a) ?ss) = 256 * ?k" by (simp add: sum_list_triv del: upt_rec_numeral)
  then have f: "sum_list (map bytes_allocated ?ss) + sum_list (map bytes_free ?ss) = va_capacity s"
    using I(3) by (simp add: sum_list_addf va_capacity_def)
  have lt: "va_capacity s < 2 ^ 64" using I(5) by (simp add: va_capacity_def)
  have "va_bytes_allocated s = sum_list (map bytes_allocated ?ss)" "va_bytes_free s = sum_list (map bytes_free ?ss)"
    using foldl_add64 [of 0 bytes_allocated ?ss] foldl_add64 [of 0 bytes_free ?ss] f lt
    by (auto simp: va_bytes_allocated_def va_bytes_free_def)
  then show ?thesis using a f by simp
qed

lemma arena_accounting_eq:
  assumes "va_reach s H"
  shows "va_bytes_allocated s = sum_list (map lb_actual H) \<and>
    va_bytes_allocated s + va_bytes_free s = va_capacity s"
  using va_inv_accounting [OF va_reach_inv [OF assms]] .

text \<open>The arena's statistics are exact: the bytes reported as allocated are the sizes of the live
  blocks with their headers and padding, and together with the free bytes they make up the capacity.\<close>

lemma arena_accounting:
  assumes "va_reach s H"
  shows "va_bytes_allocated s = sum_list (map lb_actual H) \<and>
    va_bytes_allocated s + va_bytes_free s = va_capacity s"
  using arena_accounting_eq [OF assms] .

subsection \<open>Construction\<close>

text \<open>C25. \<open>VisualizationArena::create\<close> either passes on the error of \<open>mmap\<close> or returns an arena of at least the
  requested size with nothing allocated, which serves any 16-byte aligned request whose block fits into
  a shard.\<close>

theorem va_create_correct:
  assumes "config_ok ps mm nilp tls0 cfg"
  shows "\<exists>r. va_create ps mm ls nilp g tls0 gen cfg = Some r \<and>
    (case r of Inl e \<Rightarrow> \<exists>n. e = errno_error n
     | Inr s \<Rightarrow> cfg_arena_size cfg \<le> va_capacity s \<and> va_bytes_allocated s = 0 \<and> va_bytes_free s = va_capacity s \<and>
         (request_ok slots sz 16 \<and> internal_size_of (sz + 64) \<le> va_capacity s div 256 \<longrightarrow>
            (\<exists>p s'. alloc_raw slots now s th sz 16 tag = Some (p, s') \<and> p \<noteq> nullptr)))"
proof -
  obtain r where r: "va_create ps mm ls nilp g tls0 gen cfg = Some r"
    "case r of Inl e \<Rightarrow> \<exists>n. e = errno_error n
     | Inr s \<Rightarrow> va_inv s [] \<and> cfg_arena_size cfg \<le> va_capacity s \<and> va_config s = cfg \<and> va_batch s = [] \<and>
         fresh_arena s \<and> mm (va_capacity s) = Inr (ar_base (va_arena s))"
    using va_create_inv [OF assms] by blast
  show ?thesis
  proof (cases r)
    case (Inl e)
    then show ?thesis using r by auto
  next
    case (Inr s)
    have "va_reach s []" using va_start [OF assms] r(1) Inr by blast
    then have "va_bytes_allocated s = 0 \<and> va_bytes_free s = va_capacity s" using arena_accounting_eq [of s "[]"] by simp
    then show ?thesis using r Inr fresh_arena_serves [of s slots sz now th tag] by (auto simp: shard_span_def va_capacity_def)
  qed
qed

theorem va_create_correct_witness:
  "\<exists>s p s'. va_create 4096 demo_mmap 64 (\<lambda>_. 64) zero_log (\<lambda>_. NoContext) 1 demo_cfg = Some (Inr s) \<and>
     alloc_raw demo_slots 0 s 0 4096 16 ''logger'' = Some (p, s') \<and> p \<noteq> nullptr"
proof -
  obtain s where s: "va_create 4096 demo_mmap 64 (\<lambda>_. 64) zero_log (\<lambda>_. NoContext) 1 demo_cfg = Some (Inr s)"
    "va_arena s = \<lparr>ar_base = 4096, ar_capacity = 16777216\<rparr>" using demo_arena by blast
  have "request_ok demo_slots 4096 16" by (simp add: request_ok_def demo_slots_def align_ok_def)
  moreover have "internal_size_of (4096 + 64) = 4160" by (simp add: internal_size_eq max_def)
  ultimately show ?thesis
    using va_create_correct [OF demo_config_ok, of 64 zero_log 1 demo_slots 4096 0 0 "''logger''"] s
    by (auto simp: va_capacity_def)
qed

subsection \<open>Double free\<close>

lemma deallocate_small_node:
  assumes "deallocate a p m = Some (Inr (), a')" "m \<le> 128" "p \<noteq> 0"
  shows "fl_mem a' p = None" "\<exists>nx. fl_next a' p = Some nx"
  using assms by (auto simp: deallocate_def push_small_def Let_def fl_consts split: if_splits)

text \<open>C26. A second free of a small block right after the first one is recognised by the cleared magic
  number and changes nothing, whichever thread issues it.\<close>

theorem double_free_ignored:
  assumes "va_reach s H" "x \<in> set H" "va_tls s th \<noteq> ForeignContext" "lb_actual x \<le> 128"
    "dealloc_raw now s th (lb_user x) n = Some s'"
  shows "dealloc_raw now' s' th' (lb_user x) n' = Some s'"
proof -
  have inv: "va_inv s H" using va_reach_inv [OF assms(1)] .
  note I = va_invD [OF inv] and R = live_region [OF inv assms(2)] and U = user_region [OF inv assms(2)]
  obtain a h where post: "va_arena s' = va_arena s" "va_footers s' = va_footers s" "va_headers s' (lb_raw x) = Some h"
    "ah_magic h = 0" "va_shards s' = (va_shards s)[lb_shard x := a]"
    and d: "deallocate (va_shards s ! lb_shard x) (lb_raw x) (lb_actual x) = Some (Inr (), a)"
    using dealloc_raw_inv [OF inv assms(2,3), of now n] assms(5) unfolding dealloc_post_def by auto
  have p0: "lb_raw x \<noteq> 0" "lb_user x \<noteq> 0" using U(1,3) I(4) by auto
  have "fl_mem a (lb_raw x) = None" "\<exists>nx. fl_next a (lb_raw x) = Some nx"
    using deallocate_small_node [OF d assms(4) p0(1)] by auto
  moreover have "get_shard_idx s (lb_raw x) = lb_shard x" using R by (intro get_shard_idx_slot [OF I(3) R(6)]) linarith+
  then have "get_shard_idx s' (lb_raw x) = lb_shard x" using get_shard_idx_arena [OF post(1)] by simp
  ultimately have "\<exists>n m. header_words s' (lb_raw x) = Some (n, m, 0)"
    using post(3-5) R(6) I(1) by (auto simp: header_words_def)
  moreover have "sub64 (lb_user x) (lb_off x) = lb_raw x"
    using slot_in_arena [OF R(6,2)] I(3,5) U(2) by (simp add: lb_user_def)
  moreover have "va_footers s' (lb_user x - 4) = Some (lb_off x)" using I(8) [OF assms(2)] post(2) by (simp add: live_ok_def)
  ultimately show ?thesis using p0(2) by (auto simp: dealloc_raw_def kMagicValue_def)
qed

lemma demo_small_block:
  "\<exists>s x. va_reach s [x] \<and> lb_actual x = 80 \<and> va_tls s 0 \<noteq> ForeignContext \<and> va_tls s 1 \<noteq> ForeignContext"
proof -
  obtain s where s: "va_reach s []" "fresh_arena s" "va_arena s = \<lparr>ar_base = 4096, ar_capacity = 16777216\<rparr>"
    "va_tls s = (\<lambda>_. NoContext)"
    using demo_arena by blast
  have ok: "request_ok demo_slots 8 16" by (simp add: request_ok_def demo_slots_def align_ok_def)
  have isz: "internal_size_of (8 + 64) = 80" by (simp add: internal_size_eq max_def)
  then obtain p s' where p: "alloc_raw demo_slots 0 s 0 8 16 ''node'' = Some (p, s')" "p \<noteq> nullptr"
    using fresh_arena_serves [OF va_reach_inv [OF s(1)] s(2) ok, of 0 0 "''node''"] s(3) by (auto simp: shard_span_def)
  have "va_tls s' 0 \<noteq> ForeignContext"
    using alloc_raw_inv [OF va_reach_inv [OF s(1)], of demo_slots 8 16 0 0 "''node''"] ok p by (auto simp: request_ok_def)
  moreover have "va_tls s' 1 \<noteq> ForeignContext" using alloc_raw_other_tls [OF va_reach_inv [OF s(1)] ok p(1), of 1] s(4) by simp
  moreover have "va_reach s' [alloc_block s p 8 16]" using va_alloc [OF s(1) ok p(1)] p(2) by simp
  moreover have "lb_actual (alloc_block s p 8 16) = 80" using isz by (simp add: alloc_block_def Let_def)
  ultimately show ?thesis by blast
qed

theorem double_free_ignored_witness:
  "\<exists>s x s'. va_reach s [x] \<and> dealloc_raw 0 s 0 (lb_user x) 8 = Some s' \<and> dealloc_raw 1 s' 0 (lb_user x) 8 = Some s'"
proof -
  obtain s x where s: "va_reach s [x]" "lb_actual x = 80" "va_tls s 0 \<noteq> ForeignContext" using demo_small_block by blast
  then obtain s' where "dealloc_raw 0 s 0 (lb_user x) 8 = Some s'"
    using dealloc_raw_inv [OF va_reach_inv [OF s(1)], of x 0 0 8] by auto
  then show ?thesis using double_free_ignored [OF s(1) _ s(3), of x 0 8 s' 1 0 8] s by auto
qed

subsection \<open>Event delivery\<close>

text \<open>A round of the batcher loses and duplicates nothing: it broadcasts the pending batch followed
  by exactly the events in the trackers of the live threads, thread by thread and in order, or
  nothing when there are none; afterwards the batch and those trackers are empty and the contexts of
  ended threads are gone.\<close>

lemma batcher_delivers:
  assumes "va_reach s H"
    "\<forall>c \<in> set (va_active s). tc_alive (va_contexts s ! c) \<longrightarrow> lt_holds (tc_tracker (va_contexts s ! c)) (ev c)"
  shows "\<exists>s'. batcher_round dump s =
      Some (if va_batch s @ collected s ev (va_active s) = [] then None
            else Some (events_payload dump (va_batch s @ collected s ev (va_active s))), s') \<and>
    va_reach s' H \<and> va_batch s' = [] \<and> va_active s' = filter (\<lambda>c. tc_alive (va_contexts s ! c)) (va_active s) \<and>
    (\<forall>c \<in> set (va_active s'). lt_holds (tc_tracker (va_contexts s' ! c)) [])"
proof -
  have ok: "ctx_ok s" using va_invD(9) [OF va_reach_inv [OF assms(1)]] .
  let ?b = "collected s ev (va_active s)"
  obtain u where u: "drained s (va_active s) ?b u"
    "batcher_round dump s = Some (if va_batch s @ ?b = [] then None else Some (events_payload dump (va_batch s @ ?b)),
      u\<lparr>va_active := filter (\<lambda>c. tc_alive (va_contexts s ! c)) (va_active s), va_batch := []\<rparr>)"
    using batcher_round_eq [OF ok, of ev dump] assms(2) by blast
  have "lt_holds (tc_tracker (va_contexts u ! c)) []"
    if "c \<in> set (va_active s)" "tc_alive (va_contexts s ! c)" for c
  proof -
    have "c < length (va_contexts s)" using ok that(1) by (auto simp: ctx_ok_def)
    then show ?thesis using u(1) that unfolding drained_def by fastforce
  qed
  then show ?thesis using u(2) va_batch [OF assms(1) u(2)] by auto
qed

end
