(* ===== verification/Block_Pool.thy ===== *)
theory Block_Pool
  imports Arena_Theorems
begin

text \<open>
  What the clients of the arena rely on. Several of them keep a list of pointers and sizes beside the
  arena (the stream buffers of the simulated server, the live allocations of the demo program);
  the locale \<open>block_pool\<close> states the contract of allocation and deallocation such a client needs, and
  proves once that the list stays in step with the live blocks. \<open>VisualizationArena\<close> provides it.
\<close>

subsection \<open>Pointers and live blocks\<close>

text \<open>The live block behind a pointer an allocation returned: none for the null pointer.\<close>

definition buffer_of :: "addr \<Rightarrow> size_t \<Rightarrow> live_block list \<Rightarrow> bool" where
  "buffer_of p n Q \<longleftrightarrow> (if p = nullptr then Q = [] else \<exists>x. Q = [x] \<and> lb_user x = p \<and> lb_size x = n)"

definition entry_of :: "live_block \<Rightarrow> addr \<times> size_t" where
  "entry_of x = (lb_user x, lb_size x)"

text \<open>
  A client that keeps the list \<open>L\<close>: its entries are the live blocks apart from those of others (\<open>M\<close>).
\<close>

definition tracks :: "('s \<Rightarrow> live_block multiset \<Rightarrow> bool) \<Rightarrow> live_block multiset \<Rightarrow> 's \<Rightarrow> (addr \<times> size_t) list \<Rightarrow> bool" where
  "tracks owns M s L \<longleftrightarrow> (\<exists>X. owns s (mset X + M) \<and> L = map entry_of X)"

text \<open>Freeing the entries of a list in order; \<open>e k\<close> is the environment of the call with \<open>k\<close> entries to go.\<close>

fun free_seq :: "('e \<Rightarrow> 's \<Rightarrow> addr \<Rightarrow> size_t \<Rightarrow> 's option) \<Rightarrow> (nat \<Rightarrow> 'e) \<Rightarrow> 's \<Rightarrow> (addr \<times> size_t) list \<Rightarrow> 's option" where
  "free_seq free e s [] = Some s"
| "free_seq free e s ((p, n) # L) = do { s \<leftarrow> free (e (length L)) s p n; free_seq free e s L }"

subsection \<open>The contract\<close>

locale block_pool =
  fixes owns :: "'s \<Rightarrow> live_block multiset \<Rightarrow> bool"
    and alloc :: "'a \<Rightarrow> 's \<Rightarrow> size_t \<Rightarrow> (addr \<times> 's) option"
    and free :: "'e \<Rightarrow> 's \<Rightarrow> addr \<Rightarrow> size_t \<Rightarrow> 's option"
    and ok :: "'a \<Rightarrow> size_t \<Rightarrow> bool"
  assumes alloc_law: "owns s M \<Longrightarrow> ok a n \<Longrightarrow>
      \<exists>p s' Q. alloc a s n = Some (p, s') \<and> buffer_of p n Q \<and> owns s' (mset Q + M)"
    and free_law: "owns s (add_mset x M) \<Longrightarrow> \<exists>s'. free e s (lb_user x) n = Some s' \<and> owns s' M"
begin

lemma free_buffer:
  assumes "owns s (mset Q + M)" "buffer_of p n Q" "p \<noteq> nullptr"
  shows "\<exists>s'. free e s p m = Some s' \<and> owns s' M"
  using free_law [of s _ M e m] assms by (auto simp: buffer_of_def)

lemma track_alloc:
  assumes "tracks owns M s L" "ok a n"
  shows "\<exists>p s'. alloc a s n = Some (p, s') \<and> tracks owns M s' (if p = nullptr then L else L @ [(p, n)])"
proof -
  obtain X where X: "owns s (mset X + M)" "L = map entry_of X" using assms(1) by (auto simp: tracks_def)
  obtain p s' Q where p: "alloc a s n = Some (p, s')" "buffer_of p n Q" "owns s' (mset Q + (mset X + M))"
    using alloc_law [OF X(1) assms(2)] by blast
  have "owns s' (mset (X @ Q) + M)" using p(3) by (simp add: ac_simps)
  moreover have "(if p = nullptr then L else L @ [(p, n)]) = map entry_of (X @ Q)"
    using p(2) X(2) by (auto simp: buffer_of_def entry_of_def)
  ultimately show ?thesis using p(1) unfolding tracks_def by blast
qed

lemma track_free:
  assumes "tracks owns M s L" "i < length L"
  shows "\<exists>s'. free e s (fst (L ! i)) n = Some s' \<and> tracks owns M s' (take i L @ drop (Suc i) L)"
proof -
  obtain X where X: "owns s (mset X + M)" "L = map entry_of X" using assms(1) by (auto simp: tracks_def)
  have i: "i < length X" using assms(2) X(2) by simp
  let ?Y = "take i X @ drop (Suc i) X"
  have "mset X = add_mset (X ! i) (mset ?Y)" using i by (metis id_take_nth_drop mset_append mset.simps(2) union_mset_add_mset_right)
  then have "owns s (add_mset (X ! i) (mset ?Y + M))" using X(1) by simp
  from free_law [OF this, of e n] obtain s' where "free e s (lb_user (X ! i)) n = Some s'" "owns s' (mset ?Y + M)" by blast
  moreover have "take i L @ drop (Suc i) L = map entry_of ?Y" "fst (L ! i) = lb_user (X ! i)"
    using X(2) i by (simp_all add: take_map drop_map entry_of_def)
  ultimately show ?thesis unfolding tracks_def by metis
qed

lemma track_free_all: "tracks owns M s L \<Longrightarrow> \<exists>s'. free_seq free e s L = Some s' \<and> tracks owns M s' []"
proof (induction L arbitrary: s)
  case (Cons b L)
  then obtain s1 where "free (e (length L)) s (fst b) (snd b) = Some s1" "tracks owns M s1 L"
    using track_free [OF Cons.prems, of 0 "e (length L)" "snd b"] by auto
  then show ?case using Cons.IH [of s1] by (cases b) auto
qed simp

lemma tracks_nil: "tracks owns M s [] \<longleftrightarrow> owns s M"
  by (simp add: tracks_def)

end

text \<open>
  A pool of limited size: live blocks have an address and there are at most \<open>limit\<close> of them, so a client that allocates
  until it is refused comes to an end.
\<close>

locale finite_pool = block_pool owns alloc free ok
  for owns :: "'s \<Rightarrow> live_block multiset \<Rightarrow> bool"
    and alloc :: "'a \<Rightarrow> 's \<Rightarrow> size_t \<Rightarrow> (addr \<times> 's) option"
    and free :: "'e \<Rightarrow> 's \<Rightarrow> addr \<Rightarrow> size_t \<Rightarrow> 's option"
    and ok :: "'a \<Rightarrow> size_t \<Rightarrow> bool" +
  fixes limit :: "'s \<Rightarrow> nat"
  assumes size_law: "owns s M \<Longrightarrow> size M \<le> limit s"
    and address_law: "owns s M \<Longrightarrow> x \<in># M \<Longrightarrow> lb_user x \<noteq> nullptr"
    and limit_law: "owns s M \<Longrightarrow> ok a n \<Longrightarrow> alloc a s n = Some (p, s') \<Longrightarrow> limit s' = limit s"
begin

lemma tracks_size: "tracks owns M s L \<Longrightarrow> length L \<le> limit s"
  using size_law by (fastforce simp: tracks_def)

lemma tracks_address: "tracks owns M s L \<Longrightarrow> (p, n) \<in> set L \<Longrightarrow> p \<noteq> nullptr"
  using address_law by (fastforce simp: tracks_def entry_of_def)

lemma tracks_limit: "tracks owns M s L \<Longrightarrow> ok a n \<Longrightarrow> alloc a s n = Some (p, s') \<Longrightarrow> limit s' = limit s"
  using limit_law by (auto simp: tracks_def)

end

subsection \<open>The arena as a pool\<close>

text \<open>The blocks \<open>M\<close> are live and thread \<open>th\<close> may call the arena.\<close>

definition serves :: "nat \<Rightarrow> va_state \<Rightarrow> live_block multiset \<Rightarrow> bool" where
  "serves th s M \<longleftrightarrow> (\<exists>H. va_reach s H \<and> mset H = M) \<and> va_tls s th \<noteq> ForeignContext"

text \<open>The environment of an allocation: tracker slots, clock reading and tag.\<close>

type_synonym alloc_env = "AllocationEvent list \<times> int \<times> string"

definition arena_alloc :: "nat \<Rightarrow> alloc_env \<Rightarrow> va_state \<Rightarrow> size_t \<Rightarrow> (addr \<times> va_state) option" where
  "arena_alloc th a s n = (case a of (slots, now, tag) \<Rightarrow> alloc_raw slots now s th n 16 tag)"

definition arena_free :: "nat \<Rightarrow> int \<Rightarrow> va_state \<Rightarrow> addr \<Rightarrow> size_t \<Rightarrow> va_state option" where
  "arena_free th now s p n = dealloc_raw now s th p n"

definition arena_req_ok :: "alloc_env \<Rightarrow> size_t \<Rightarrow> bool" where
  "arena_req_ok a n \<longleftrightarrow> request_ok (fst a) n 16"

lemma request_ok_16: "length slots = kEventSlots \<Longrightarrow> sz \<le> 2 ^ 63 \<Longrightarrow> request_ok slots sz 16"
  by (simp add: request_ok_def align_ok_def)

lemma serve_alloc:
  assumes "serves th s M" "request_ok slots sz al"
  shows "\<exists>p s' Q. alloc_raw slots now s th sz al tag = Some (p, s') \<and> buffer_of p sz Q \<and> serves th s' (mset Q + M)"
proof -
  obtain H where H: "va_reach s H" "mset H = M" using assms(1) by (auto simp: serves_def)
  obtain p s' where r: "alloc_raw slots now s th sz al tag = Some (p, s')" "va_tls s' th \<noteq> ForeignContext"
    and post: "p \<noteq> nullptr \<Longrightarrow> alloc_post s H sz al p s'"
    using alloc_raw_inv [OF va_reach_inv [OF H(1)], of slots sz al now th tag] assms(2) by (fastforce simp: request_ok_def)
  note reach = va_alloc [OF H(1) assms(2) r(1)]
  show ?thesis
  proof (cases "p = nullptr")
    case True
    then show ?thesis using r reach H(2) by (auto simp: serves_def buffer_of_def)
  next
    case False
    let ?x = "alloc_block s p sz al"
    have "lb_user ?x = p" "lb_size ?x = sz"
      using post [OF False] by (auto simp: alloc_post_def alloc_block_def lb_user_def Let_def)
    moreover have "serves th s' (mset [?x] + M)" unfolding serves_def
      using reach False H(2) r(2) by (intro conjI exI [of _ "?x # H"]) auto
    ultimately show ?thesis using r(1) False unfolding buffer_of_def by auto
  qed
qed

lemma serve_free:
  assumes "serves th s (add_mset x M)"
  shows "\<exists>s'. dealloc_raw now s th (lb_user x) n = Some s' \<and> serves th s' M"
proof -
  obtain H where H: "va_reach s H" "mset H = add_mset x M" using assms by (auto simp: serves_def)
  have x: "x \<in> set H" using H(2) by (metis union_single_eq_member set_mset_mset)
  have th: "va_tls s th \<noteq> ForeignContext" using assms by (simp add: serves_def)
  obtain s' where s': "dealloc_raw now s th (lb_user x) n = Some s'" "dealloc_post s H x s'"
    using dealloc_raw_inv [OF va_reach_inv [OF H(1)] x th, of now n] by blast
  have "mset (remove1 x H) = M" using H(2) x by simp
  then have "serves th s' M" unfolding serves_def
    using va_free [OF H(1) x th s'(1)] s'(2) th by (auto simp: dealloc_post_def)
  then show ?thesis using s'(1) by blast
qed

text \<open>A client may fill its block with anything.\<close>

lemma write_reach:
  assumes "va_reach s H" "x \<in> set H" "A \<subseteq> user_bytes x" "finite A"
  shows "va_reach (s\<lparr>va_data := (\<lambda>q. if q \<in> A then d q else va_data s q)\<rparr>) H"
  using assms(4,3)
proof (induction A rule: finite_induct)
  case empty
  then show ?case using assms(1) by simp
next
  case (insert a A)
  let ?s = "s\<lparr>va_data := (\<lambda>q. if q \<in> A then d q else va_data s q)\<rparr>"
  have "s\<lparr>va_data := (\<lambda>q. if q \<in> insert a A then d q else va_data s q)\<rparr> = ?s\<lparr>va_data := (va_data ?s)(a := d a)\<rparr>"
    by (auto simp: fun_eq_iff)
  moreover have "va_reach (?s\<lparr>va_data := (va_data ?s)(a := d a)\<rparr>) H"
    using va_write [OF _ assms(2), of ?s a "d a"] insert by blast
  ultimately show ?case by simp
qed

interpretation arena_pool: block_pool "serves th" "arena_alloc th" "arena_free th" arena_req_ok for th
proof (unfold_locales, goal_cases)
  case (1 s M a n)
  then show ?case using serve_alloc [OF 1(1)] by (cases a) (simp add: arena_alloc_def arena_req_ok_def)
next
  case (2 s x M e n)
  then show ?case using serve_free [OF 2] by (simp add: arena_free_def)
qed

lemma serves_bytes: "serves th s M \<Longrightarrow> va_bytes_allocated s = sum_mset (image_mset lb_actual M)"
  using arena_accounting_eq by (auto simp: serves_def simp flip: mset_map sum_mset_sum_list)

lemma serves_block:
  assumes "serves th s M" "x \<in># M"
  shows "0 < lb_actual x" "lb_user x \<noteq> nullptr"
proof -
  obtain H where "va_reach s H" "mset H = M" using assms(1) by (auto simp: serves_def)
  then have "live_ok s x" using va_invD(8) [OF va_reach_inv, of s H x] assms(2) by auto
  then show "0 < lb_actual x" "lb_user x \<noteq> nullptr" by (auto simp: live_ok_def lb_user_def)
qed

lemma size_le_sum_mset: "(\<And>x. x \<in># M \<Longrightarrow> 0 < (f x :: nat)) \<Longrightarrow> size M \<le> sum_mset (image_mset f M)"
proof (induction M)
  case (add x M)
  then have "size M \<le> sum_mset (image_mset f M)" "0 < f x" by auto
  then show ?case by simp
qed simp

lemma serves_size:
  assumes "serves th s M"
  shows "size M \<le> va_capacity s"
proof -
  have "size M \<le> va_bytes_allocated s"
    using size_le_sum_mset [of M lb_actual] serves_block(1) [OF assms] serves_bytes [OF assms] by simp
  also have "\<dots> \<le> va_capacity s" using assms arena_accounting_eq by (fastforce simp: serves_def)
  finally show ?thesis .
qed

lemma alloc_raw_capacity:
  assumes "serves th s M" "request_ok slots sz al" "alloc_raw slots now s th sz al tag = Some (p, s')"
  shows "va_capacity s' = va_capacity s"
proof -
  obtain H where "va_inv s H" using assms(1) va_reach_inv by (auto simp: serves_def)
  from alloc_raw_inv [OF this, of slots sz al now th tag] assms(2,3) show ?thesis
    by (auto simp: request_ok_def alloc_post_def va_capacity_def split: if_splits)
qed

interpretation arena_finite: finite_pool "serves th" "arena_alloc th" "arena_free th" arena_req_ok va_capacity for th
proof (unfold_locales, goal_cases)
  case (3 s M a n p s')
  then show ?case using alloc_raw_capacity [OF 3(1)] by (cases a) (auto simp: arena_alloc_def arena_req_ok_def)
qed (use serves_size serves_block in blast)+

end
