(* ===== verification/Arena_Concurrency.thy ===== *)
theory Arena_Concurrency
  imports Block_Pool
begin

text \<open>
  The arena under threads that interleave inside its operations. \<open>dealloc_raw\<close> takes the lock of a
  shard only for its last part; before that it reads the header, clears the magic number and records
  the event without a lock. Here these parts are separate steps, as is the registration of a context
  in \<open>alloc_raw\<close>, so other threads run between them; the part of \<open>alloc_raw\<close> under the lock of the
  thread's shard remains one step. A block belongs to the thread that frees it from its first step on.
\<close>

subsection \<open>The parts of a deallocation\<close>

text \<open>Where a thread stands in \<open>dealloc_raw\<close>, with its locals \<open>raw_ptr\<close> and \<open>actual_size\<close>.\<close>

datatype free_pc = Idle | Checked addr size_t | Marked addr size_t

definition dealloc_check :: "va_state \<Rightarrow> addr \<Rightarrow> free_pc option" where
  "dealloc_check s p =
     (if p = nullptr then Some Idle
      else do {
        offset_val \<leftarrow> va_footers s (p - 4);
        let raw_ptr = sub64 p offset_val;
        (_, actual, magic) \<leftarrow> header_words s raw_ptr;
        Some (if magic \<noteq> kMagicValue then Idle else Checked raw_ptr actual) })"

definition dealloc_mark :: "int \<Rightarrow> va_state \<Rightarrow> nat \<Rightarrow> addr \<Rightarrow> size_t \<Rightarrow> va_state option" where
  "dealloc_mark now s th raw_ptr actual =
     (let s = s\<lparr>va_headers := (va_headers s)(raw_ptr :=
                map_option (\<lambda>h. h\<lparr>ah_magic := 0\<rparr>) (va_headers s raw_ptr)),
                va_data := store (va_data s) (raw_ptr + 16) 8 (byte_at 0)\<rparr>
      in record_free now s th raw_ptr actual)"

definition dealloc_release :: "va_state \<Rightarrow> addr \<Rightarrow> size_t \<Rightarrow> va_state option" where
  "dealloc_release s raw_ptr actual =
     (let idx = get_shard_idx s raw_ptr in
      if idx \<ge> kMaxShards \<or> idx \<ge> length (va_shards s) then Some s
      else do {
        i \<leftarrow> owning_shard s idx raw_ptr;
        (_, a) \<leftarrow> deallocate (va_shards s ! i) raw_ptr actual;
        Some (s\<lparr>va_shards := (va_shards s)[i := a], va_data := write_nodes (va_shards s ! i) a (va_data s)\<rparr>) })"

lemma dealloc_raw_parts:
  "dealloc_raw now s th p n = do {
     pc \<leftarrow> dealloc_check s p;
     case pc of Checked raw m \<Rightarrow> do { s \<leftarrow> dealloc_mark now s th raw m; dealloc_release s raw m } | _ \<Rightarrow> Some s }"
  by (auto simp: dealloc_raw_def dealloc_check_def dealloc_mark_def dealloc_release_def Let_def
        split: bind_splits option.splits)

subsection \<open>Interleaved steps\<close>

primrec pc_region :: "free_pc \<Rightarrow> (addr \<times> size_t) option" where
  "pc_region Idle = None"
| "pc_region (Checked raw m) = Some (raw, m)"
| "pc_region (Marked raw m) = Some (raw, m)"

text \<open>Regions some thread is freeing, and those whose magic number is already cleared.\<close>

definition in_flight :: "(nat \<Rightarrow> free_pc) \<Rightarrow> (addr \<times> size_t) set" where
  "in_flight pc = {r. \<exists>th. pc_region (pc th) = Some r}"

definition marked :: "(nat \<Rightarrow> free_pc) \<Rightarrow> addr set" where
  "marked pc = {raw. \<exists>th m. pc th = Marked raw m}"

datatype conc_op = OpContext nat | OpAlloc nat | OpCheck nat | OpMark nat | OpRelease nat
  | OpWrite addr | OpExit nat | OpBatch | OpLog

type_synonym conc_state = "va_state \<times> live_block list \<times> (nat \<Rightarrow> free_pc)"

inductive conc_step :: "conc_op \<Rightarrow> conc_state \<Rightarrow> conc_state \<Rightarrow> bool" where
  step_context: "pc th = Idle \<Longrightarrow> needs_context s th \<Longrightarrow> length slots = kEventSlots \<Longrightarrow>
    conc_step (OpContext th) (s, K, pc) (init_tls_context slots s th, K, pc)"
| step_alloc: "pc th = Idle \<Longrightarrow> \<not> needs_context s th \<Longrightarrow> request_ok slots sz al \<Longrightarrow>
    alloc_raw slots now s th sz al tag = Some (p, s') \<Longrightarrow>
    conc_step (OpAlloc th) (s, K, pc) (s', if p = nullptr then K else alloc_block s p sz al # K, pc)"
| step_check: "pc th = Idle \<Longrightarrow> x \<in> set K \<Longrightarrow> region_of x \<notin> in_flight pc \<Longrightarrow> va_tls s th \<noteq> ForeignContext \<Longrightarrow>
    dealloc_check s (lb_user x) = Some r \<Longrightarrow> conc_step (OpCheck th) (s, K, pc) (s, K, pc(th := r))"
| step_mark: "pc th = Checked raw m \<Longrightarrow> dealloc_mark now s th raw m = Some s' \<Longrightarrow>
    conc_step (OpMark th) (s, K, pc) (s', K, pc(th := Marked raw m))"
| step_release: "pc th = Marked raw m \<Longrightarrow> dealloc_release s raw m = Some s' \<Longrightarrow>
    conc_step (OpRelease th) (s, K, pc) (s', filter (\<lambda>x. lb_raw x \<noteq> raw) K, pc(th := Idle))"
| step_write: "x \<in> set K \<Longrightarrow> region_of x \<notin> in_flight pc \<Longrightarrow> q \<in> user_bytes x \<Longrightarrow>
    conc_step (OpWrite q) (s, K, pc) (s\<lparr>va_data := (va_data s)(q := v)\<rparr>, K, pc)"
| step_exit: "pc th = Idle \<Longrightarrow> va_tls s th = Context c \<Longrightarrow> conc_step (OpExit th) (s, K, pc) (thread_exit s th c, K, pc)"
| step_batch: "batcher_round dump s = Some (out, s') \<Longrightarrow> conc_step OpBatch (s, K, pc) (s', K, pc)"
| step_log: "event_log_json dump s = Some (res, s') \<Longrightarrow> conc_step OpLog (s, K, pc) (s', K, pc)"

inductive conc_reach :: "conc_state \<Rightarrow> bool" where
  conc_start: "va_reach s K \<Longrightarrow> conc_reach (s, K, \<lambda>_. Idle)"
| conc_next: "conc_reach c \<Longrightarrow> conc_step l c c' \<Longrightarrow> conc_reach c'"

subsection \<open>The invariant\<close>

text \<open>
  With the headers \<open>f\<close> the blocks had before their deallocations started, the state is one of the
  arena in which \<open>K\<close> is live; \<open>f\<close> differs from the memory at marked blocks only.
\<close>

definition as_before :: "va_state \<Rightarrow> live_block list \<Rightarrow> (nat \<Rightarrow> free_pc) \<Rightarrow> (addr \<rightharpoonup> AllocationHeader) \<Rightarrow> bool" where
  "as_before s K pc f \<longleftrightarrow> (\<forall>p. p \<notin> marked pc \<longrightarrow> f p = va_headers s p) \<and> va_inv (s\<lparr>va_headers := f\<rparr>) K"

definition pcs_ok :: "va_state \<Rightarrow> live_block list \<Rightarrow> (nat \<Rightarrow> free_pc) \<Rightarrow> bool" where
  "pcs_ok s K pc \<longleftrightarrow> in_flight pc \<subseteq> region_of ` set K \<and>
     (\<forall>th th' r. pc_region (pc th) = Some r \<longrightarrow> pc_region (pc th') = Some r \<longrightarrow> th = th') \<and>
     (\<forall>th. pc th \<noteq> Idle \<longrightarrow> va_tls s th \<noteq> ForeignContext)"

definition conc_inv :: "conc_state \<Rightarrow> bool" where
  "conc_inv = (\<lambda>(s, K, pc). pcs_ok s K pc \<and> (\<exists>f. as_before s K pc f))"


subsection \<open>Allocation beside deallocations\<close>

text \<open>\<open>alloc_raw\<close> looks at no header but the one it overwrites.\<close>

lemma alloc_raw_headers:
  assumes run: "alloc_raw slots now s th sz al tag = Some (p, s')" and ctx: "\<not> needs_context s th"
    and g: "\<And>q. q \<notin> R \<Longrightarrow> g q = va_headers s q" and p: "p \<noteq> nullptr \<Longrightarrow> p - offset_to_user al \<notin> R" and al: "al < 2 ^ 64"
  shows "alloc_raw slots now (s\<lparr>va_headers := g\<rparr>) th sz al tag =
    Some (p, s'\<lparr>va_headers := override_on (va_headers s') g R\<rparr>)"
proof -
  have g': "override_on (va_headers s) g R = g" using g by (auto simp: override_on_def)
  have ctx': "\<not> needs_context (s\<lparr>va_headers := g\<rparr>) th" using ctx by (simp add: needs_context_def split: tls.splits)
  obtain c where c: "va_tls s th = Context c" using ctx by (auto simp: needs_context_def split: tls.splits)
  let ?i = "tc_shard (va_contexts s ! c)" and ?off = "offset_to_user al"
  obtain res a where a: "allocate (va_shards s ! ?i) (add64 sz ?off) al = Some (res, a)"
    using run ctx c by (cases "allocate (va_shards s ! ?i) (add64 sz ?off) al") (auto simp: alloc_raw_def Let_def)
  show ?thesis
  proof (cases res)
    case (Inl e)
    then show ?thesis using run ctx ctx' c a g' by (auto simp: alloc_raw_def Let_def)
  next
    case (Inr r)
    have pr: "p = res_ptr r + ?off" using run ctx c a Inr by (auto simp: alloc_raw_def bind_eq_Some_conv Let_def)
    have raw: "res_ptr r \<notin> R" using p offset_to_user_bounds(1) [OF al] by (simp add: pr)
    then have old: "g (res_ptr r) = va_headers s (res_ptr r)" by (rule g)
    have ov: "override_on ((va_headers s)(res_ptr r \<mapsto> h)) g R = g(res_ptr r \<mapsto> h)" for h
      using g raw by (auto simp: override_on_def fun_eq_iff)
    have wr: "write_block (s\<lparr>va_headers := g, va_data := d, va_shards := y\<rparr>) (res_ptr r) ?off sz m tag =
        (write_block (s\<lparr>va_data := d, va_shards := y\<rparr>) (res_ptr r) ?off sz m tag)
          \<lparr>va_headers := override_on (va_headers (write_block (s\<lparr>va_data := d, va_shards := y\<rparr>) (res_ptr r) ?off sz m tag)) g R\<rparr>" for y m d
      using old ov by (cases s) (simp add: write_block_def Let_def cong del: if_weak_cong)
    show ?thesis using run ctx ctx' c a Inr wr
      by (auto simp: alloc_raw_def bind_eq_Some_conv Let_def check_shard_def)
  qed
qed


subsection \<open>Steps that leave shards, headers and footers alone\<close>

lemma ctx_ok_headers [simp]: "ctx_ok (s\<lparr>va_headers := f\<rparr>) = ctx_ok s"
  by (simp add: ctx_ok_def)

lemma conc_ctx_ok: "conc_inv (s, K, pc) \<Longrightarrow> ctx_ok s"
  by (auto simp: conc_inv_def as_before_def dest: va_invD(9))

lemma conc_frame:
  assumes "conc_inv (s, K, pc)" "va_arena s' = va_arena s" "va_shards s' = va_shards s" "va_headers s' = va_headers s"
    "va_footers s' = va_footers s" "ctx_ok s'" "\<And>th. pc th \<noteq> Idle \<Longrightarrow> va_tls s' th = va_tls s th"
  shows "conc_inv (s', K, pc)"
proof -
  obtain f where f: "pcs_ok s K pc" "as_before s K pc f" using assms(1) by (auto simp: conc_inv_def)
  then have inv: "va_inv (s\<lparr>va_headers := f\<rparr>) K" by (simp add: as_before_def)
  have "va_inv (s'\<lparr>va_headers := f\<rparr>) K" by (rule va_inv_frame [OF inv]) (simp_all add: assms(2-6))
  then have "as_before s' K pc f" using f(2) unfolding as_before_def assms(4) by blast
  moreover have "pcs_ok s' K pc" using f(1) assms(7) by (auto simp: pcs_ok_def)
  ultimately show ?thesis by (auto simp: conc_inv_def)
qed

lemma conc_context:
  assumes "conc_inv (s, K, pc)" "pc th = Idle" "length slots = kEventSlots"
  shows "conc_inv (init_tls_context slots s th, K, pc)"
proof -
  obtain f where f: "as_before s K pc f" using assms(1) by (auto simp: conc_inv_def)
  note U = init_tls_context_ok [of "s\<lparr>va_headers := f\<rparr>" K slots th]
  have inv: "va_inv (s\<lparr>va_headers := f\<rparr>) K" using f by (simp add: as_before_def)
  have "ctx_ok (init_tls_context slots s th)" using va_invD(9) [OF U(1) [OF inv assms(3)]] by (simp add: init_tls_context_frame)
  moreover have "va_tls (init_tls_context slots s th) t = va_tls s t" if "pc t \<noteq> Idle" for t
    using init_tls_context_frame(3) assms(2) that by metis
  ultimately show ?thesis
    using U(3,5) [OF inv assms(3)] by (intro conc_frame [OF assms(1)]) (simp_all add: init_tls_context_frame)
qed


subsection \<open>The steps of an allocation and a deallocation\<close>

lemma in_flightI: "pc_region (pc th) = Some r \<Longrightarrow> r \<in> in_flight pc"
  by (auto simp: in_flight_def)

lemma marked_in_flight:
  assumes "raw \<in> marked pc"
  shows "\<exists>m. (raw, m) \<in> in_flight pc"
proof -
  obtain th m where "pc th = Marked raw m" using assms by (auto simp: marked_def)
  then show ?thesis using in_flightI [of pc th "(raw, m)"] by auto
qed

lemma marked_raw:
  assumes "pcs_ok s K pc"
  shows "marked pc \<subseteq> lb_raw ` set K"
proof
  fix raw assume "raw \<in> marked pc"
  then obtain m where "(raw, m) \<in> region_of ` set K" using marked_in_flight assms by (fastforce simp: pcs_ok_def)
  then show "raw \<in> lb_raw ` set K" by (auto simp: region_of_def)
qed

lemma in_flight_upd:
  assumes "pc th = Idle"
  shows "in_flight (pc(th := r)) = in_flight pc \<union> set_option (pc_region r)"
proof -
  have "(\<exists>t. pc_region ((pc(th := r)) t) = Some y) \<longleftrightarrow> (\<exists>t. pc_region (pc t) = Some y) \<or> pc_region r = Some y" for y
    using assms by (metis fun_upd_apply option.distinct(1) pc_region.simps(1))
  then show ?thesis by (auto simp: in_flight_def)
qed

lemma conc_alloc:
  assumes inv: "conc_inv (s, K, pc)" and ctx: "\<not> needs_context s th" and ok: "request_ok slots sz al"
  shows "\<exists>p s'. alloc_raw slots now s th sz al tag = Some (p, s') \<and>
    conc_inv (s', if p = nullptr then K else alloc_block s p sz al # K, pc) \<and> va_tls s' = va_tls s \<and>
    same_bytes K s s'"
proof -
  obtain f where f: "pcs_ok s K pc" "as_before s K pc f" using inv by (auto simp: conc_inv_def)
  let ?s = "s\<lparr>va_headers := f\<rparr>"
  have I: "va_inv ?s K" and out: "\<And>q. q \<notin> marked pc \<Longrightarrow> va_headers s q = f q" using f(2) by (auto simp: as_before_def)
  have ctx': "\<not> needs_context ?s th" using ctx by (simp add: needs_context_def split: tls.splits)
  obtain c where c: "va_tls ?s th = Context c" using own_context [OF I ctx'] by blast
  have r: "sz + offset_to_user al \<le> 2 ^ 64 - 16" "align_ok al" "al < 2 ^ 64" using ok by (auto simp: request_ok_def)
  obtain p u where u: "alloc_raw slots now ?s th sz al tag = Some (p, u)" "va_tls u = va_tls s"
    "if p = nullptr then u = ?s \<and> shard_full ?s sz al else alloc_post ?s K sz al p u"
    using alloc_raw_context [OF I c ctx' r, of slots now tag] by auto
  let ?x = "alloc_block s p sz al"
  have x: "alloc_block ?s p sz al = ?x" by (simp add: alloc_block_def)
  let ?K = "if p = nullptr then K else ?x # K"
  define s' where "s' = u\<lparr>va_headers := override_on (va_headers u) (va_headers s) (marked pc)\<rparr>"
  have uK: "va_inv u ?K" using u(3) I by (auto simp: alloc_post_def x split: if_splits)
  have "p - offset_to_user al \<notin> marked pc" if "p \<noteq> nullptr"
  proof -
    have "lb_raw ?x \<notin> lb_raw ` set K" using va_invD(7) [OF uK] that by auto
    then show ?thesis using marked_raw [OF f(1)] by (auto simp: alloc_block_def Let_def)
  qed
  then have run: "alloc_raw slots now s th sz al tag = Some (p, s')"
    using alloc_raw_headers [OF u(1) ctx', of "marked pc" "va_headers s"] out r(3) by (simp add: s'_def)
  have "as_before s' ?K pc (va_headers u)" using uK by (simp add: as_before_def s'_def override_on_def)
  moreover have "pcs_ok s' ?K pc" using f(1) u(2) by (auto simp: pcs_ok_def s'_def)
  moreover have "same_bytes K s s'"
    using u(3) by (cases "p = nullptr") (simp_all add: alloc_post_def same_bytes_def s'_def)
  moreover have "va_tls s' = va_tls s" using u(2) by (simp add: s'_def)
  ultimately show ?thesis using run unfolding conc_inv_def by blast
qed

lemma conc_check:
  assumes inv: "conc_inv (s, K, pc)" and x: "x \<in> set K" "region_of x \<notin> in_flight pc"
  shows "dealloc_check s (lb_user x) = Some (Checked (lb_raw x) (lb_actual x))"
proof -
  obtain f where f: "pcs_ok s K pc" "as_before s K pc f" using inv by (auto simp: conc_inv_def)
  let ?s = "s\<lparr>va_headers := f\<rparr>" and ?p = "lb_raw x" and ?m = "lb_actual x" and ?i = "lb_shard x"
  have I: "va_inv ?s K" using f(2) by (simp add: as_before_def)
  note R = live_region [OF I x(1)] and U = user_region [OF I x(1)]
  have dist: "y = x" if "y \<in> set K" "lb_raw y = ?p" for y
    using va_invD(7) [OF I] x(1) that by (auto simp: distinct_map inj_on_def)
  have "?p \<notin> marked pc"
  proof
    assume "?p \<in> marked pc"
    then obtain m where "(?p, m) \<in> in_flight pc" using marked_in_flight by blast
    moreover from this have "(?p, m) \<in> region_of ` set K" using f(1) by (auto simp: pcs_ok_def)
    ultimately show False using dist x(2) by (auto simp: region_of_def)
  qed
  then have h: "f ?p = va_headers s ?p" using f(2) by (auto simp: as_before_def)
  have ok: "live_ok ?s x" using va_invD(8) [OF I x(1)] .
  have raw: "sub64 (lb_user x) (lb_off x) = ?p"
    using ok U(4) va_invD(5) [OF I] by (simp add: live_ok_def lb_user_def va_capacity_def)
  have "get_shard_idx ?s ?p = ?i" using R by (intro get_shard_idx_slot [OF va_invD(3) [OF I] R(6)]) linarith+
  then have "header_words s ?p = Some (lb_size x, ?m, kMagicValue)"
    using ok R(6) va_invD(1) [OF I] h by (auto simp: header_words_def live_ok_def Let_def)
  moreover have "lb_user x \<noteq> 0" "va_footers s (lb_user x - 4) = Some (lb_off x)"
    using ok by (auto simp: live_ok_def lb_user_def)
  ultimately show ?thesis using raw by (simp add: dealloc_check_def)
qed


lemma marked_mark:
  assumes "pc th = Checked raw m"
  shows "marked (pc(th := Marked raw m)) = insert raw (marked pc)"
proof -
  have "(\<exists>t n. (pc(th := Marked raw m)) t = Marked q n) \<longleftrightarrow> q = raw \<or> (\<exists>t n. pc t = Marked q n)" for q
    using assms by (metis free_pc.distinct(5) free_pc.inject(2) fun_upd_apply)
  then show ?thesis by (auto simp: marked_def)
qed

lemma marked_release:
  assumes "pc th = Marked raw m" "q \<notin> marked (pc(th := Idle))" "q \<noteq> raw"
  shows "q \<notin> marked pc"
proof
  assume "q \<in> marked pc"
  then obtain t n where t: "pc t = Marked q n" by (auto simp: marked_def)
  then have "(pc(th := Idle)) t = Marked q n" using assms(1,3) by auto
  then show False using assms(2) unfolding marked_def by blast
qed

text \<open>The magic number of a block lies outside all user bytes.\<close>

lemma magic_apart:
  assumes inv: "va_inv s K" and x: "x \<in> set K" and y: "y \<in> set K" "q \<in> user_bytes y"
  shows "q \<notin> {lb_raw x + 16..<lb_raw x + 16 + 8}"
proof (cases "y = x")
  case True
  then show ?thesis using user_region(1) [OF inv x] y(2) by (auto simp: user_bytes_def)
next
  case False
  have "q \<in> block_bytes y" using user_bytes_in_block [OF inv y(1)] y(2) by blast
  moreover have "y \<in> set (remove1 x K)" using False y(1) by simp
  ultimately show ?thesis using other_block_apart [OF inv x] user_region(1,2) [OF inv x] by (fastforce simp: block_bytes_def)
qed

text \<open>The state after the magic number at \<open>raw\<close> is cleared.\<close>

definition cleared :: "va_state \<Rightarrow> addr \<Rightarrow> va_state" where
  "cleared s raw = s\<lparr>va_headers := (va_headers s)(raw := map_option (\<lambda>h. h\<lparr>ah_magic := 0\<rparr>) (va_headers s raw)),
     va_data := store (va_data s) (raw + 16) 8 (byte_at 0)\<rparr>"

lemma dealloc_mark_frame:
  assumes "ctx_ok s" "va_tls s th \<noteq> ForeignContext"
  shows "\<exists>cs. dealloc_mark now s th raw m = Some ((cleared s raw)\<lparr>va_contexts := cs\<rparr>) \<and> ctx_ok (s\<lparr>va_contexts := cs\<rparr>)"
  using record_free_ok [of "cleared s raw" th now raw m] assms
  by (auto simp: dealloc_mark_def ctx_ok_def cleared_def)

lemma conc_mark:
  assumes inv: "conc_inv (s, K, pc)" and pc: "pc th = Checked raw m"
  shows "\<exists>s'. dealloc_mark now s th raw m = Some s' \<and> conc_inv (s', K, pc(th := Marked raw m)) \<and>
    (\<forall>y \<in> set K. \<forall>q \<in> user_bytes y. va_data s' q = va_data s q)"
proof -
  obtain f where f: "pcs_ok s K pc" "as_before s K pc f" using inv by (auto simp: conc_inv_def)
  let ?pc = "pc(th := Marked raw m)"
  have I: "va_inv (s\<lparr>va_headers := f\<rparr>) K" using f(2) by (simp add: as_before_def)
  have tls: "va_tls s th \<noteq> ForeignContext" using f(1) pc unfolding pcs_ok_def by (metis free_pc.distinct(1))
  obtain cs where cs: "dealloc_mark now s th raw m = Some ((cleared s raw)\<lparr>va_contexts := cs\<rparr>)" "ctx_ok (s\<lparr>va_contexts := cs\<rparr>)"
    using dealloc_mark_frame [OF conc_ctx_ok [OF inv] tls, of now raw m] by blast
  define s' where "s' = (cleared s raw)\<lparr>va_contexts := cs\<rparr>"
  have "(raw, m) \<in> in_flight pc" using pc by (intro in_flightI [of _ th]) simp
  then obtain x where x: "x \<in> set K" "raw = lb_raw x" using f(1) by (auto simp: pcs_ok_def region_of_def)
  have bytes: "\<forall>y \<in> set K. \<forall>q \<in> user_bytes y. va_data s' q = va_data s q"
    using magic_apart [OF I x(1)] by (simp add: s'_def cleared_def x(2))
  have "va_inv (s'\<lparr>va_headers := f\<rparr>) K" using cs(2) by (intro va_inv_frame [OF I]) (simp_all add: s'_def cleared_def ctx_ok_def)
  moreover have "f q = va_headers s' q" if q: "q \<notin> marked ?pc" for q
    using f(2) q by (simp add: marked_mark [of pc th raw m, OF pc] as_before_def s'_def cleared_def)
  ultimately have "as_before s' K ?pc f" by (simp add: as_before_def)
  moreover have reg: "pc_region (?pc t) = pc_region (pc t)" for t using pc by simp
  then have "in_flight ?pc = in_flight pc" unfolding in_flight_def by simp
  then have "pcs_ok s' K ?pc" using f(1) tls unfolding pcs_ok_def reg by (simp add: s'_def cleared_def)
  ultimately show ?thesis using cs(1) bytes unfolding conc_inv_def s'_def by blast
qed

text \<open>The shard lookup finds the shard of a region.\<close>

lemma dealloc_release_at:
  assumes "va_inv s0 H" "x \<in> set H" "va_arena s = va_arena s0" "length (va_shards s) = 256"
    "contains (va_shards s ! lb_shard x) (lb_raw x)"
    "deallocate (va_shards s ! lb_shard x) (lb_raw x) m = Some (Inr (), a)"
  shows "dealloc_release s (lb_raw x) m = Some (s\<lparr>va_shards := (va_shards s)[lb_shard x := a],
     va_data := write_nodes (va_shards s ! lb_shard x) a (va_data s)\<rparr>)"
proof -
  note R = live_region [OF assms(1,2)]
  have "get_shard_idx s0 (lb_raw x) = lb_shard x" using R by (intro get_shard_idx_slot [OF va_invD(3) [OF assms(1)] R(6)]) linarith+
  then have "get_shard_idx s (lb_raw x) = lb_shard x" using get_shard_idx_arena [OF assms(3)] by simp
  then show ?thesis using assms(4-6) R(6) by (simp add: dealloc_release_def kMaxShards_def owning_shard_def Let_def)
qed

lemma live_contained:
  assumes "va_inv s H" "x \<in> set H"
  shows "contains (va_shards s ! lb_shard x) (lb_raw x)"
  using contains_slot [OF va_invD(6) [OF assms(1)], of "lb_shard x" "lb_raw x"] live_region [OF assms] va_invD(1) [OF assms(1)] by simp

lemma remove1_raw:
  assumes "distinct (map lb_raw K)" "x \<in> set K"
  shows "filter (\<lambda>y. lb_raw y \<noteq> lb_raw x) K = remove1 x K"
proof -
  have "filter (\<lambda>y. lb_raw y \<noteq> lb_raw x) K = filter (\<lambda>y. y \<noteq> x) K"
    using assms by (intro filter_cong) (auto simp: distinct_map inj_on_def)
  also have "\<dots> = remove1 x K" using assms by (simp add: distinct_map distinct_remove1_removeAll removeAll_filter_not_eq eq_commute)
  finally show ?thesis .
qed

lemma conc_release:
  assumes inv: "conc_inv (s, K, pc)" and pc: "pc th = Marked raw m"
  shows "\<exists>s'. dealloc_release s raw m = Some s' \<and>
    conc_inv (s', filter (\<lambda>x. lb_raw x \<noteq> raw) K, pc(th := Idle)) \<and> same_bytes (filter (\<lambda>x. lb_raw x \<noteq> raw) K) s s'"
proof -
  obtain f where f: "pcs_ok s K pc" "as_before s K pc f" using inv by (auto simp: conc_inv_def)
  let ?s = "s\<lparr>va_headers := f\<rparr>" and ?pc = "pc(th := Idle)"
  have I: "va_inv ?s K" using f(2) by (simp add: as_before_def)
  have fl: "(raw, m) \<in> in_flight pc" using pc by (intro in_flightI [of _ th]) simp
  then obtain x where x: "x \<in> set K" "raw = lb_raw x" "m = lb_actual x" using f(1) by (auto simp: pcs_ok_def region_of_def)
  let ?i = "lb_shard x" and ?g = "f(raw := va_headers s raw)"
  note R = live_region [OF I x(1)]
  obtain a where a: "deallocate (va_shards s ! ?i) raw m = Some (Inr (), a)"
    "va_inv (?s\<lparr>va_shards := (va_shards s)[?i := a], va_headers := ?g\<rparr>) (remove1 x K)"
    "\<And>y q d. y \<in> set (remove1 x K) \<Longrightarrow> q \<in> block_bytes y \<Longrightarrow> write_nodes (va_shards s ! ?i) a d q = d q"
    using free_region_inv [OF I x(1)] x(2,3) by fastforce
  define s' where "s' = s\<lparr>va_shards := (va_shards s)[?i := a], va_data := write_nodes (va_shards s ! ?i) a (va_data s)\<rparr>"
  have run: "dealloc_release s raw m = Some s'"
    using dealloc_release_at [OF I x(1), of s m a] live_contained [OF I x(1)] va_invD(1) [OF I] a(1) x(2) by (simp add: s'_def)
  have K: "filter (\<lambda>x. lb_raw x \<noteq> raw) K = remove1 x K" using remove1_raw [OF va_invD(7) [OF I] x(1)] x(2) by simp
  have uniq: "pc_region (?pc t) = Some r \<Longrightarrow> pc_region (pc t) = Some r \<and> r \<noteq> (raw, m)" for t r
    using f(1) pc unfolding pcs_ok_def by (metis fun_upd_apply option.distinct(1) pc_region.simps(1,3))
  have "?g q = va_headers s' q" if q: "q \<notin> marked ?pc" for q
  proof (cases "q = raw")
    case False
    then have "q \<notin> marked pc" using marked_release [of pc th raw m] pc q by blast
    then show ?thesis using f(2) False by (simp add: as_before_def s'_def)
  qed (simp add: s'_def)
  moreover have "va_inv (s'\<lparr>va_headers := ?g\<rparr>) (remove1 x K)"
    using va_invD(9) [OF a(2)] by (intro va_inv_frame [OF a(2)]) (simp_all add: s'_def ctx_ok_def)
  ultimately have ab: "as_before s' (remove1 x K) ?pc ?g" unfolding as_before_def by blast
  have "in_flight ?pc \<subseteq> region_of ` set (remove1 x K)"
  proof
    fix r assume "r \<in> in_flight ?pc"
    then obtain t where "pc_region (?pc t) = Some r" unfolding in_flight_def by blast
    then have "r \<in> in_flight pc" "r \<noteq> region_of x" using uniq [of t r] in_flightI [of pc t r] x(2,3) by (simp_all add: region_of_def)
    then obtain y where "y \<in> set K" "y \<noteq> x" "r = region_of y" using f(1) unfolding pcs_ok_def by blast
    then show "r \<in> region_of ` set (remove1 x K)" by simp
  qed
  moreover have "t = t'" if "pc_region (?pc t) = Some r" "pc_region (?pc t') = Some r" for t t' r
    using uniq [OF that(1)] uniq [OF that(2)] f(1) unfolding pcs_ok_def by blast
  moreover have "va_tls s' t \<noteq> ForeignContext" if "?pc t \<noteq> Idle" for t
    using f(1) that by (simp add: pcs_ok_def s'_def split: if_splits)
  ultimately have "pcs_ok s' (remove1 x K) ?pc" unfolding pcs_ok_def by blast
  moreover have "same_bytes (remove1 x K) s s'" using a(3) by (simp add: same_bytes_def s'_def)
  ultimately show ?thesis using run ab unfolding K conc_inv_def by blast
qed


subsection \<open>Every interleaving\<close>

lemma conc_start_inv: "va_inv s K \<Longrightarrow> conc_inv (s, K, \<lambda>_. Idle)"
  by (auto simp: conc_inv_def pcs_ok_def as_before_def in_flight_def intro!: exI [of _ "va_headers s"])

lemma conc_checked:
  assumes inv: "conc_inv (s, K, pc)" and pc: "pc th = Idle" and x: "x \<in> set K" "region_of x \<notin> in_flight pc"
    and tls: "va_tls s th \<noteq> ForeignContext"
  shows "conc_inv (s, K, pc(th := Checked (lb_raw x) (lb_actual x)))"
proof -
  let ?r = "Checked (lb_raw x) (lb_actual x)" and ?pc = "pc(th := Checked (lb_raw x) (lb_actual x))"
  obtain f where f: "pcs_ok s K pc" "as_before s K pc f" using inv by (auto simp: conc_inv_def)
  have reg: "pc_region ?r = Some (region_of x)" by (simp add: region_of_def)
  have "marked ?pc = marked pc" using pc unfolding marked_def by (metis free_pc.distinct(3,5) fun_upd_apply)
  then have ab: "as_before s K ?pc f" using f(2) by (simp add: as_before_def)
  have "in_flight ?pc \<subseteq> region_of ` set K"
    unfolding in_flight_upd [of pc th, OF pc] reg using f(1) x(1) by (auto simp: pcs_ok_def)
  moreover have "t = t'" if "pc_region (?pc t) = Some r" "pc_region (?pc t') = Some r" for t t' r
    using that f(1) x(2) reg in_flightI [of pc] unfolding pcs_ok_def by (metis fun_upd_apply option.inject)
  ultimately have "pcs_ok s K ?pc" using f(1) tls unfolding pcs_ok_def by (metis fun_upd_apply)
  with ab show ?thesis by (auto simp: conc_inv_def)
qed

lemma conc_inv_step:
  assumes step: "conc_step l c c'" and inv: "conc_inv c"
  shows "conc_inv c'"
  using step inv
proof (induction rule: conc_step.induct)
  case (step_context pc th s slots K)
  then show ?case using conc_context by blast
next
  case (step_alloc pc th s slots sz al now tag p s' K)
  then show ?case using conc_alloc [OF step_alloc(5,2,3), of now tag] by auto
next
  case (step_check pc th x K s r)
  then show ?case using conc_checked conc_check by fastforce
next
  case (step_mark pc th raw m now s s' K)
  then show ?case using conc_mark [OF step_mark(3,1), of now] by auto
next
  case (step_release pc th raw m s s' K)
  then show ?case using conc_release [OF step_release(3,1)] by auto
next
  case (step_write x K pc q s v)
  then show ?case by (intro conc_frame [OF step_write(4)]) (simp_all add: conc_ctx_ok [OF step_write(4), unfolded ctx_ok_def] ctx_ok_def)
next
  case (step_exit pc th s c K)
  then show ?case using exit_frame [OF conc_ctx_ok [OF step_exit(3)]]
    by (intro conc_frame [OF step_exit(3)]) (auto simp: thread_exit_def)
next
  case (step_batch dump s out s' K pc)
  then show ?case using batcher_frame [OF conc_ctx_ok [OF step_batch(2)] step_batch(1)] by (intro conc_frame [OF step_batch(2)]) simp_all
next
  case (step_log dump s res s' K pc)
  then show ?case using log_frame [OF conc_ctx_ok [OF step_log(2)] step_log(1)] by (intro conc_frame [OF step_log(2)]) simp_all
qed

lemma conc_reach_inv: "conc_reach c \<Longrightarrow> conc_inv c"
  by (induction rule: conc_reach.induct) (use conc_start_inv va_reach_inv conc_inv_step in blast)+


text \<open>When no deallocation is under way the state satisfies the invariant of whole operations.\<close>

lemma quiescent_inv:
  assumes "conc_reach (s, K, \<lambda>_. Idle)"
  shows "va_inv s K"
proof -
  obtain f where f: "as_before s K (\<lambda>_. Idle) f" using conc_reach_inv [OF assms] by (auto simp: conc_inv_def)
  then have "f = va_headers s" by (intro ext) (simp add: as_before_def marked_def)
  then show ?thesis using f by (simp add: as_before_def)
qed

text \<open>C5. Safety under every interleaving of the parts of allocations and deallocations: blocks that are
  live or being freed never overlap, header and footer of every block that is not being freed stay intact, and the bytes
  reported as allocated are those of both. The clients pass a block to \<open>dealloc_raw\<close> once: \<open>step_check\<close> starts no second
  deallocation of a block while one is under way, which the code does not prevent.\<close>

theorem interleaved_blocks_intact:
  assumes "conc_reach (s, us @ x # vs, pc)"
  shows "list_all (\<lambda>y. lb_raw x + lb_actual x \<le> lb_raw y \<or> lb_raw y + lb_actual y \<le> lb_raw x) (us @ vs) \<and>
    (region_of x \<notin> in_flight pc \<longrightarrow> dealloc_check s (lb_user x) = Some (Checked (lb_raw x) (lb_actual x))) \<and>
    in_flight pc \<subseteq> region_of ` set (us @ x # vs) \<and>
    va_bytes_allocated s = sum_list (map lb_actual (us @ x # vs)) \<and>
    va_bytes_allocated s + va_bytes_free s = va_capacity s"
proof -
  have inv: "conc_inv (s, us @ x # vs, pc)" using conc_reach_inv [OF assms] .
  then obtain f where f: "pcs_ok s (us @ x # vs) pc" "va_inv (s\<lparr>va_headers := f\<rparr>) (us @ x # vs)"
    by (auto simp: conc_inv_def as_before_def)
  have "va_bytes_allocated (s\<lparr>va_headers := f\<rparr>) = va_bytes_allocated s" "va_bytes_free (s\<lparr>va_headers := f\<rparr>) = va_bytes_free s"
    "va_capacity (s\<lparr>va_headers := f\<rparr>) = va_capacity s"
    by (simp_all add: va_bytes_allocated_def va_bytes_free_def va_capacity_def)
  moreover have "in_flight pc \<subseteq> region_of ` set (us @ x # vs)" using f(1) unfolding pcs_ok_def by blast
  ultimately show ?thesis
    using live_disjoint_regions [OF f(2)] va_inv_accounting [OF f(2)] conc_check [OF inv, of x] by (simp add: list_all_iff)
qed

text \<open>C6. Progress under every interleaving: whatever the other threads are in the middle of, no part of an
  operation aborts or reads bytes that are not there. A thread with a context gets an answer to a request,
  every block nobody is freeing passes the check, a thread that has passed it clears the magic
  number, and one that has done so gives the region back.\<close>

theorem interleaved_progress:
  assumes "conc_reach (s, K, pc)"
  shows "(pc th = Idle \<and> \<not> needs_context s th \<and> request_ok slots sz al \<longrightarrow>
      (\<exists>p s'. alloc_raw slots now s th sz al tag = Some (p, s') \<and>
         conc_reach (s', if p = nullptr then K else alloc_block s p sz al # K, pc))) \<and>
    (pc th = Idle \<and> x \<in> set K \<and> region_of x \<notin> in_flight pc \<and> va_tls s th \<noteq> ForeignContext \<longrightarrow>
      conc_reach (s, K, pc(th := Checked (lb_raw x) (lb_actual x)))) \<and>
    (pc th = Checked raw m \<longrightarrow>
      (\<exists>s'. dealloc_mark now s th raw m = Some s' \<and> conc_reach (s', K, pc(th := Marked raw m)))) \<and>
    (pc th = Marked raw m \<longrightarrow>
      (\<exists>s'. dealloc_release s raw m = Some s' \<and> conc_reach (s', filter (\<lambda>x. lb_raw x \<noteq> raw) K, pc(th := Idle))))"
proof (intro conjI impI)
  have inv: "conc_inv (s, K, pc)" using conc_reach_inv [OF assms] .
  note next_step = conc_next [OF assms]
  show "\<exists>p s'. alloc_raw slots now s th sz al tag = Some (p, s') \<and>
      conc_reach (s', if p = nullptr then K else alloc_block s p sz al # K, pc)"
    if "pc th = Idle \<and> \<not> needs_context s th \<and> request_ok slots sz al"
    using conc_alloc [OF inv, of th slots sz al now tag] next_step [OF step_alloc [of pc th s slots sz al now tag]] that by blast
  show "conc_reach (s, K, pc(th := Checked (lb_raw x) (lb_actual x)))"
    if "pc th = Idle \<and> x \<in> set K \<and> region_of x \<notin> in_flight pc \<and> va_tls s th \<noteq> ForeignContext"
    using next_step [OF step_check [of pc th x K s]] conc_check [OF inv, of x] that by blast
  show "\<exists>s'. dealloc_mark now s th raw m = Some s' \<and> conc_reach (s', K, pc(th := Marked raw m))" if "pc th = Checked raw m"
    using conc_mark [OF inv that, of now] next_step [OF step_mark [of pc th raw m now s]] that by blast
  show "\<exists>s'. dealloc_release s raw m = Some s' \<and> conc_reach (s', filter (\<lambda>x. lb_raw x \<noteq> raw) K, pc(th := Idle))"
    if "pc th = Marked raw m"
    using conc_release [OF inv that] next_step [OF step_release [of pc th raw m s]] that by blast
qed

text \<open>C27. No part of an operation writes into the user data of a block that stays live or in the hands of the thread that frees it:
  neither the nodes the allocator puts into the memory around it, nor the headers, footers and zeroed bytes of new blocks, nor
  the cleared magic numbers fall on a byte of it. The only step that changes such a byte is a write of its owner.\<close>

theorem interleaved_data_kept:
  assumes "conc_reach (s, K, pc)" "conc_step l (s, K, pc) (s', K', pc')" "x \<in> set K" "x \<in> set K'" "q \<in> user_bytes x" "l \<noteq> OpWrite q"
  shows "va_data s' q = va_data s q"
proof -
  have inv: "conc_inv (s, K, pc)" using conc_reach_inv [OF assms(1)] .
  then obtain f where "va_inv (s\<lparr>va_headers := f\<rparr>) K" by (auto simp: conc_inv_def as_before_def)
  then have q: "q \<in> block_bytes x" using user_bytes_in_block assms(3,5) by blast
  show ?thesis
    using assms(2)
  proof (cases rule: conc_step.cases)
    case (step_alloc th slots sz al now tag p)
    then show ?thesis using conc_alloc [OF inv, of th slots sz al now tag] assms(3) q by (auto simp: same_bytes_def)
  next
    case (step_mark th raw m now)
    then show ?thesis using conc_mark [OF inv, of th raw m now] assms(3,5) by auto
  next
    case (step_release th raw m)
    then show ?thesis using conc_release [OF inv, of th raw m] assms(4) q by (auto simp: same_bytes_def)
  next
    case (step_batch dump out)
    then show ?thesis using batcher_frame(6) [OF conc_ctx_ok [OF inv]] by auto
  next
    case (step_log dump res)
    then show ?thesis using log_frame(6) [OF conc_ctx_ok [OF inv]] by auto
  qed (use assms(6) in \<open>auto simp: init_tls_context_def thread_exit_def Let_def\<close>)
qed


subsection \<open>Witnesses\<close>

text \<open>One thread has passed the check on a block of 100 bytes, the other threads are idle.\<close>

definition one_freeing :: "live_block \<Rightarrow> nat \<Rightarrow> free_pc" where
  "one_freeing x = (\<lambda>_. Idle)(0 := Checked (lb_raw x) (lb_actual x))"

lemma demo_freeing:
  "\<exists>s x. conc_reach (s, [x], one_freeing x) \<and> conc_reach (s, [x], \<lambda>_. Idle) \<and> lb_size x = 100 \<and> lb_actual x = 176"
proof -
  obtain s p where s: "va_reach s [alloc_block s p 100 16]" "va_tls s 0 \<noteq> ForeignContext" using demo_block by blast
  let ?x = "alloc_block s p 100 16"
  have c: "conc_reach (s, [?x], \<lambda>_. Idle)" using conc_start [OF s(1)] .
  have fl: "region_of ?x \<notin> in_flight (\<lambda>_. Idle)" by (simp add: in_flight_def)
  have chk: "dealloc_check s (lb_user ?x) = Some (Checked (lb_raw ?x) (lb_actual ?x))"
    using conc_check [OF conc_reach_inv [OF c] _ fl] by simp
  have "conc_step (OpCheck 0) (s, [?x], \<lambda>_. Idle) (s, [?x], (\<lambda>_. Idle)(0 := Checked (lb_raw ?x) (lb_actual ?x)))"
    using s(2) fl chk by (intro step_check) simp_all
  then have "conc_reach (s, [?x], one_freeing ?x)" using conc_next [OF c] by (simp add: one_freeing_def)
  moreover have "lb_size ?x = 100" "lb_actual ?x = 176" by (simp_all add: alloc_block_def Let_def internal_size_eq max_def)
  ultimately show ?thesis using c by blast
qed

theorem interleaved_blocks_intact_witness:
  "\<exists>s x. conc_reach (s, [x], one_freeing x) \<and> va_bytes_allocated s = 176 \<and> in_flight (one_freeing x) = {region_of x}"
proof -
  obtain s x where s: "conc_reach (s, [] @ x # [], one_freeing x)" "lb_actual x = 176" using demo_freeing by auto
  have "in_flight (one_freeing x) = {region_of x}"
    using in_flight_upd [of "\<lambda>_. Idle" 0] by (simp add: one_freeing_def region_of_def in_flight_def)
  then show ?thesis using interleaved_blocks_intact [OF s(1)] s by auto
qed

theorem interleaved_progress_witness:
  "\<exists>s x s'. conc_reach (s, [x], one_freeing x) \<and> dealloc_mark 7 s 0 (lb_raw x) (lb_actual x) = Some s' \<and>
     conc_reach (s', [x], (one_freeing x)(0 := Marked (lb_raw x) (lb_actual x)))"
proof -
  obtain s x where s: "conc_reach (s, [x], one_freeing x)" using demo_freeing by blast
  have "one_freeing x 0 = Checked (lb_raw x) (lb_actual x)" by (simp add: one_freeing_def)
  then show ?thesis using interleaved_progress [OF s, of 0 _ _ _ 7 _ x "lb_raw x" "lb_actual x"] s by blast
qed

text \<open>Two live blocks; the second one holds a 7 and the first one is about to be given back.\<close>

lemma demo_release:
  "\<exists>s x y pc s'. conc_reach (s, [y, x], pc) \<and> conc_step (OpRelease 0) (s, [y, x], pc) (s', [y], pc(0 := Idle)) \<and>
     lb_user y \<in> user_bytes y \<and> va_data s (lb_user y) = 7"
proof -
  obtain s0 x y where s0: "va_reach s0 [y, x]" "lb_size x = 100" "lb_size y = 200" "va_tls s0 0 \<noteq> ForeignContext" using demo_two_blocks by blast
  define s where "s = s0\<lparr>va_data := (va_data s0)(lb_user y := 7)\<rparr>"
  let ?K = "[y, x]" and ?c = "(\<lambda>_. Idle)(0 := Checked (lb_raw x) (lb_actual x))"
  have y: "lb_user y \<in> user_bytes y" using s0(3) by (simp add: user_bytes_def)
  then have s: "va_reach s ?K" using va_write [OF s0(1), of y] by (simp add: s_def)
  note c0 = conc_start [OF s]
  have fl: "region_of x \<notin> in_flight (\<lambda>_. Idle)" by (simp add: in_flight_def)
  have chk: "dealloc_check s (lb_user x) = Some (Checked (lb_raw x) (lb_actual x))"
    using conc_check [OF conc_reach_inv [OF c0] _ fl] by simp
  have "conc_step (OpCheck 0) (s, ?K, \<lambda>_. Idle) (s, ?K, ?c)" using s0(4) fl chk by (intro step_check) (simp_all add: s_def)
  then have c1: "conc_reach (s, ?K, ?c)" by (rule conc_next [OF c0])
  have pc: "?c 0 = Checked (lb_raw x) (lb_actual x)" by simp
  obtain s1 where s1: "dealloc_mark 0 s 0 (lb_raw x) (lb_actual x) = Some s1" "va_data s1 (lb_user y) = va_data s (lb_user y)"
    using conc_mark [OF conc_reach_inv [OF c1] pc, of 0] y by auto
  let ?m = "?c(0 := Marked (lb_raw x) (lb_actual x))"
  have c2: "conc_reach (s1, ?K, ?m)" by (rule conc_next [OF c1 step_mark [of ?c, OF pc s1(1)]])
  have pm: "?m 0 = Marked (lb_raw x) (lb_actual x)" by simp
  obtain s2 where s2: "dealloc_release s1 (lb_raw x) (lb_actual x) = Some s2" using conc_release [OF conc_reach_inv [OF c2] pm] by blast
  have "lb_raw y \<noteq> lb_raw x" using va_invD(7) [OF va_reach_inv [OF s]] by auto
  then have "conc_step (OpRelease 0) (s1, ?K, ?m) (s2, [y], ?m(0 := Idle))" using step_release [of ?m 0 "lb_raw x" "lb_actual x" s1 s2 ?K, OF pm s2] by simp
  then show ?thesis using c2 y s1(2) by (intro exI [of _ s1] exI [of _ x] exI [of _ y] exI [of _ ?m] exI [of _ s2]) (simp add: s_def)
qed

theorem interleaved_data_kept_witness:
  "\<exists>s x y pc s'. conc_reach (s, [y, x], pc) \<and> conc_step (OpRelease 0) (s, [y, x], pc) (s', [y], pc(0 := Idle)) \<and>
     va_data s' (lb_user y) = 7"
proof -
  obtain s x y pc s' where s: "conc_reach (s, [y, x], pc)" "conc_step (OpRelease 0) (s, [y, x], pc) (s', [y], pc(0 := Idle))"
    "lb_user y \<in> user_bytes y" "va_data s (lb_user y) = 7" using demo_release by blast
  then show ?thesis using interleaved_data_kept [OF s(1,2), of y "lb_user y"] by force
qed

subsection \<open>Two threads free the same block\<close>

lemma deallocate_small_eq:
  assumes "m \<le> 128" "p \<noteq> 0"
  shows "deallocate a p m =
    (if p < fl_base a \<or> p \<ge> fl_base a + fl_size a then Some (Inl BadPointer, a)
     else do {
       assert_opt (\<not> (m > fl_base a + fl_size a - p \<or> m < 16));
       if p mod 16 \<noteq> 0 then Some (Inl InvalidAlignment, a)
       else do {
         b \<leftarrow> push_small a (if m div 16 - 1 \<ge> 8 then 7 else m div 16 - 1) p;
         Some (Inr (), b\<lparr>fl_allocated := sub64 (fl_allocated b) m, fl_blocks := add64 (fl_blocks b) 1\<rparr>) } })"
  using assms by (simp add: deallocate_def kMaxSmallBlockSize_def kSmallBlockQuantum_def kNumSmallClasses_def)

lemma deallocate_small_twice:
  assumes run: "deallocate a p m = Some (Inr (), a')" and m: "m \<le> 128" "p \<noteq> 0"
  shows "fl_base a' = fl_base a" "fl_size a' = fl_size a"
    "\<exists>a'' i. deallocate a' p m = Some (Inr (), a'') \<and> fl_next a'' p = Some p \<and> fl_lists a'' ! i = p"
proof -
  define i where "i = (if m div 16 - 1 \<ge> 8 then 7 else m div 16 - 1)"
  have c: "\<not> (p < fl_base a \<or> p \<ge> fl_base a + fl_size a)" "p mod 16 = 0" "\<not> (m > fl_base a + fl_size a - p \<or> m < 16)"
      "i < length (fl_lists a)"
    and a': "a' = a\<lparr>fl_mem := (fl_mem a)(p := None), fl_next := (fl_next a)(p \<mapsto> fl_lists a ! i), fl_lists := (fl_lists a)[i := p],
       fl_allocated := sub64 (fl_allocated a) m, fl_blocks := add64 (fl_blocks a) 1\<rparr>"
    using run unfolding deallocate_small_eq [OF m] i_def [symmetric]
    by (auto simp: push_small_def bind_eq_Some_conv split: if_splits)
  then show "fl_base a' = fl_base a" "fl_size a' = fl_size a" by simp_all
  show "\<exists>a'' i. deallocate a' p m = Some (Inr (), a'') \<and> fl_next a'' p = Some p \<and> fl_lists a'' ! i = p"
    using c unfolding deallocate_small_eq [OF m] i_def [symmetric]
    by (auto simp: push_small_def a' intro!: exI [of _ i])
qed

text \<open>C28. The check of the magic number and its clearing are two steps outside the lock: two threads
  that free the same small block at the same time may both pass the check, and then both give it back.
  Nothing is reported; the block is in its free list twice, as a node whose next node is itself.\<close>

theorem concurrent_double_free_corrupts:
  assumes "va_reach s H" "x \<in> set H" "lb_actual x \<le> 128" "va_tls s th \<noteq> ForeignContext" "va_tls s th' \<noteq> ForeignContext"
  shows "\<exists>s1 s2 s3 s4 i. dealloc_check s (lb_user x) = Some (Checked (lb_raw x) (lb_actual x)) \<and>
    dealloc_mark now s th (lb_raw x) (lb_actual x) = Some s1 \<and> dealloc_mark now' s1 th' (lb_raw x) (lb_actual x) = Some s2 \<and>
    dealloc_release s2 (lb_raw x) (lb_actual x) = Some s3 \<and> dealloc_release s3 (lb_raw x) (lb_actual x) = Some s4 \<and>
    fl_lists (va_shards s4 ! lb_shard x) ! i = lb_raw x \<and> fl_next (va_shards s4 ! lb_shard x) (lb_raw x) = Some (lb_raw x)"
proof -
  have inv: "va_inv s H" using va_reach_inv [OF assms(1)] .
  let ?p = "lb_raw x" and ?m = "lb_actual x" and ?i = "lb_shard x"
  have c0: "conc_inv (s, H, \<lambda>_. Idle)" using conc_start_inv [OF inv] .
  have chk: "dealloc_check s (lb_user x) = Some (Checked ?p ?m)"
    using conc_check [OF c0 assms(2)] by (simp add: in_flight_def)
  obtain s1 where s1: "dealloc_mark now s th ?p ?m = Some s1" "ctx_ok s1" "va_tls s1 = va_tls s"
    "va_shards s1 = va_shards s" "va_arena s1 = va_arena s"
    using dealloc_mark_frame [OF va_invD(9) [OF inv] assms(4), of now ?p ?m] by (auto simp: ctx_ok_def cleared_def)
  obtain s2 where s2: "dealloc_mark now' s1 th' ?p ?m = Some s2" "va_shards s2 = va_shards s" "va_arena s2 = va_arena s"
    using dealloc_mark_frame [OF s1(2), of th' now' ?p ?m] s1(3-5) assms(5) by (auto simp: cleared_def)
  obtain a where a: "deallocate (va_shards s ! ?i) ?p ?m = Some (Inr (), a)" using free_region_inv [OF inv assms(2)] by blast
  have p0: "?p \<noteq> 0" using user_region(3) [OF inv assms(2)] va_invD(4) [OF inv] by simp
  note twice = deallocate_small_twice [OF a assms(3) p0]
  obtain a2 i where a2: "deallocate a ?p ?m = Some (Inr (), a2)" "fl_next a2 ?p = Some ?p" "fl_lists a2 ! i = ?p"
    using twice(3) by blast
  have len: "length (va_shards s) = 256" "?i < 256" using va_invD(1) [OF inv] live_region(6) [OF inv assms(2)] .
  have ct: "contains (va_shards s ! ?i) ?p" using live_contained [OF inv assms(2)] .
  define s3 where "s3 = s2\<lparr>va_shards := (va_shards s)[?i := a], va_data := write_nodes (va_shards s ! ?i) a (va_data s2)\<rparr>"
  have "dealloc_release s2 ?p ?m = Some s3"
    using dealloc_release_at [OF inv assms(2) s2(3), of ?m a] len ct a by (simp add: s2(2) s3_def)
  moreover have "dealloc_release s3 ?p ?m = Some (s3\<lparr>va_shards := (va_shards s3)[?i := a2],
      va_data := write_nodes (va_shards s3 ! ?i) a2 (va_data s3)\<rparr>)"
    using ct twice(1,2) len a2(1) by (intro dealloc_release_at [OF inv assms(2)]) (simp_all add: s3_def s2 contains_def)
  ultimately show ?thesis using chk s1(1) s2(1) a2 len by (auto simp: s3_def)
qed

theorem concurrent_double_free_corrupts_witness:
  "\<exists>s x s1 s2 s3 s4. va_reach s [x] \<and> dealloc_mark 0 s 0 (lb_raw x) (lb_actual x) = Some s1 \<and>
     dealloc_mark 1 s1 1 (lb_raw x) (lb_actual x) = Some s2 \<and>
     dealloc_release s2 (lb_raw x) (lb_actual x) = Some s3 \<and> dealloc_release s3 (lb_raw x) (lb_actual x) = Some s4 \<and>
     fl_next (va_shards s4 ! lb_shard x) (lb_raw x) = Some (lb_raw x)"
proof -
  obtain s x where s: "va_reach s [x]" "lb_actual x = 80" "va_tls s 0 \<noteq> ForeignContext" "va_tls s 1 \<noteq> ForeignContext"
    using demo_small_block by blast
  then show ?thesis using concurrent_double_free_corrupts [OF s(1) _ _ s(3,4), of x 0 1] by force
qed

end
