(* ===== verification/Arena_Benchmarks.thy ===== *)
theory Arena_Benchmarks
  imports Block_Pool
begin

text \<open>
  The benchmarks of the arena and of the serialisation (\<open>src/bench/bench_throughput.cpp\<close>,
  \<open>bench_contention.cpp\<close>, \<open>bench_multithreaded.cpp\<close>, \<open>bench_serialization.cpp\<close>). The number of iterations is an
  argument; for the benchmarks that run on several threads a schedule says which thread takes the next
  step, an allocation or a deallocation. Clock readings and the initial slots of trackers are arguments.
\<close>

subsection \<open>Throughput\<close>

definition bench_config :: "size_t \<Rightarrow> size_t \<Rightarrow> ArenaConfig" where
  "bench_config n k = \<lparr>cfg_arena_size = n, cfg_cache_line_size = 0, cfg_enable_server = False, cfg_port = 8080,
     cfg_web_root = ''web'', cfg_sampling = k\<rparr>"

text \<open>\<open>create(...).value()\<close>, which throws on an error.\<close>

definition bench_arena ::
    "size_t \<Rightarrow> (size_t \<Rightarrow> nat + addr) \<Rightarrow> int \<Rightarrow> (nat \<Rightarrow> addr) \<Rightarrow> AllocLog \<Rightarrow> (nat \<Rightarrow> tls) \<Rightarrow> size_t \<Rightarrow> ArenaConfig \<Rightarrow> va_state option" where
  "bench_arena ps mm ls nilp g tls0 gen cfg = do {
     r \<leftarrow> va_create ps mm ls nilp g tls0 gen cfg;
     case r of Inl _ \<Rightarrow> None | Inr s \<Rightarrow> Some s }"

definition bench_alloc :: "nat \<Rightarrow> AllocationEvent list \<times> int \<Rightarrow> va_state \<Rightarrow> size_t \<Rightarrow> (addr \<times> va_state) option" where
  "bench_alloc th e s n = alloc_raw (fst e) (snd e) s th n 8 ''test''"

fun alloc_many :: "nat \<Rightarrow> (nat \<Rightarrow> AllocationEvent list \<times> int) \<Rightarrow> nat \<Rightarrow> va_state \<Rightarrow> (addr \<times> size_t) list \<Rightarrow> ((addr \<times> size_t) list \<times> va_state) option" where
  "alloc_many th e 0 s ptrs = Some (ptrs, s)"
| "alloc_many th e (Suc k) s ptrs = do {
     (p, s) \<leftarrow> bench_alloc th (e k) s 64;
     alloc_many th e k s (if p \<noteq> nullptr then ptrs @ [(p, 64)] else ptrs) }"

text \<open>The environments \<open>e\<close> of the allocations and \<open>t\<close> of the deallocations depend on the iteration.\<close>

fun VisualizationArena_iters :: "nat \<Rightarrow> (nat \<Rightarrow> nat \<Rightarrow> AllocationEvent list \<times> int) \<Rightarrow> (nat \<Rightarrow> nat \<Rightarrow> int) \<Rightarrow> nat \<Rightarrow> va_state \<Rightarrow> va_state option" where
  "VisualizationArena_iters th e t 0 s = Some s"
| "VisualizationArena_iters th e t (Suc n) s = do {
     (ptrs, s) \<leftarrow> alloc_many th (e n) 100 s [];
     s \<leftarrow> free_seq (arena_free th) (t n) s ptrs;
     VisualizationArena_iters th e t n s }"

definition BM_VisualizationArena_NoServer where
  "BM_VisualizationArena_NoServer ps mm ls nilp g tls0 gen th e t n = do {
     va \<leftarrow> bench_arena ps mm ls nilp g tls0 gen (bench_config (64 * 1024 * 1024) 1);
     VisualizationArena_iters th e t n va }"

definition BM_VisualizationArena_Sampled where
  "BM_VisualizationArena_Sampled ps mm ls nilp g tls0 gen th e t n = do {
     va \<leftarrow> bench_arena ps mm ls nilp g tls0 gen (bench_config (64 * 1024 * 1024) 1000);
     VisualizationArena_iters th e t n va }"

subsection \<open>Several threads\<close>

text \<open>
  The shared arena, the pointer \<open>p\<close> each thread holds between the two halves of its loop body (null at the
  top of the loop) and which threads have left the loop with \<open>SkipWithError("OOM")\<close>.
\<close>

record bench_threads =
  bt_arena :: va_state
  bt_ptr :: "nat \<Rightarrow> addr"
  bt_skipped :: "nat \<Rightarrow> bool"

definition Contention_step :: "bench_threads \<Rightarrow> nat \<times> AllocationEvent list \<times> int \<Rightarrow> bench_threads option" where
  "Contention_step w x = (case x of (th, slots, now) \<Rightarrow>
     if bt_skipped w th then Some w
     else if bt_ptr w th = nullptr then do {
       (p, s) \<leftarrow> alloc_raw slots now (bt_arena w) th 64 8 ''bench'';
       if p \<noteq> nullptr then Some (w\<lparr>bt_arena := s, bt_ptr := (bt_ptr w)(th := p)\<rparr>)
       else Some (w\<lparr>bt_arena := s, bt_skipped := (bt_skipped w)(th := True)\<rparr>) }
     else do {
       s \<leftarrow> dealloc_raw now (bt_arena w) th (bt_ptr w th) 64;
       Some (w\<lparr>bt_arena := s, bt_ptr := (bt_ptr w)(th := nullptr)\<rparr>) })"

text \<open>\<open>BM_MultiThreaded_Visualization\<close> goes on when an allocation fails.\<close>

definition MultiThreaded_step :: "bench_threads \<Rightarrow> nat \<times> AllocationEvent list \<times> int \<Rightarrow> bench_threads option" where
  "MultiThreaded_step w x = (case x of (th, slots, now) \<Rightarrow>
     if bt_ptr w th = nullptr then do {
       (p, s) \<leftarrow> alloc_raw slots now (bt_arena w) th 64 8 ''test'';
       Some (w\<lparr>bt_arena := s, bt_ptr := (bt_ptr w)(th := p)\<rparr>) }
     else do {
       s \<leftarrow> dealloc_raw now (bt_arena w) th (bt_ptr w th) 64;
       Some (w\<lparr>bt_arena := s, bt_ptr := (bt_ptr w)(th := nullptr)\<rparr>) })"

fun bench_schedule :: "(bench_threads \<Rightarrow> 'x \<Rightarrow> bench_threads option) \<Rightarrow> bench_threads \<Rightarrow> 'x list \<Rightarrow> bench_threads option" where
  "bench_schedule step w [] = Some w"
| "bench_schedule step w (x # xs) = do { w \<leftarrow> step w x; bench_schedule step w xs }"

definition bench_start :: "va_state \<Rightarrow> bench_threads" where
  "bench_start va = \<lparr>bt_arena = va, bt_ptr = (\<lambda>_. nullptr), bt_skipped = (\<lambda>_. False)\<rparr>"

definition BM_Contention_Allocation where
  "BM_Contention_Allocation ps mm ls nilp g tls0 gen sched = do {
     va \<leftarrow> bench_arena ps mm ls nilp g tls0 gen (bench_config (256 * 1024 * 1024) 1);
     bench_schedule Contention_step (bench_start va) sched }"

definition BM_MultiThreaded_Visualization where
  "BM_MultiThreaded_Visualization ps mm ls nilp g tls0 gen sched = do {
     va \<leftarrow> bench_arena ps mm ls nilp g tls0 gen (bench_config (1024 * 1024 * 1024) 1);
     bench_schedule MultiThreaded_step (bench_start va) sched }"

subsection \<open>Serialisation\<close>

definition single_event :: "int \<Rightarrow> AllocationEvent" where
  "single_event now = \<lparr>ev_type = Allocate,
     ev_block = (set_tag \<lparr>bm_offset = 1024, bm_size = 64, bm_alignment = 16, bm_actual_size = 96, bm_tag = empty_tag,
        bm_timestamp = 0\<rparr> ''test_tag'')\<lparr>bm_timestamp := now\<rparr>,
     ev_event_id = 12345, ev_total_allocated = 1024 * 1024, ev_total_free = 1024 * 1024,
     ev_fragmentation_pct = 5, ev_free_block_count = 100\<rparr>"

text \<open>The strings of the iterations.\<close>

definition BM_Serialization_SingleEvent :: "(json \<Rightarrow> string) \<Rightarrow> int \<Rightarrow> nat \<Rightarrow> string list" where
  "BM_Serialization_SingleEvent dump now n = map (\<lambda>_. dump (event_to_json (single_event now))) [0..<n]"

text \<open>The members the benchmark does not set (\<open>al\<close>, \<open>act\<close>, \<open>tot\<close>) are uninitialised, hence arguments.\<close>

definition batch_event :: "(nat \<Rightarrow> size_t) \<Rightarrow> (nat \<Rightarrow> size_t) \<Rightarrow> (nat \<Rightarrow> size_t \<times> size_t \<times> size_t \<times> size_t) \<Rightarrow> nat \<Rightarrow> AllocationEvent" where
  "batch_event al act tot i = (case tot i of (ta, tf, fp, fb) \<Rightarrow>
     \<lparr>ev_type = Allocate,
      ev_block = set_tag \<lparr>bm_offset = mul64 i 128, bm_size = 64, bm_alignment = al i, bm_actual_size = act i,
         bm_tag = empty_tag, bm_timestamp = 0\<rparr> ''bench'',
      ev_event_id = i, ev_total_allocated = ta, ev_total_free = tf, ev_fragmentation_pct = fp, ev_free_block_count = fb\<rparr>)"

text \<open>The loop over a string stream, with its test in unsigned arithmetic.\<close>

definition batch_text :: "(json \<Rightarrow> string) \<Rightarrow> AllocationEvent list \<Rightarrow> string" where
  "batch_text dump events =
     foldl (\<lambda>ss i. (ss @ dump (event_to_json (events ! i))) @ (if i < sub64 (length events) 1 then '','' else []))
       ''['' [0..<length events] @ '']''"

definition BM_Serialization_Batch ::
    "(json \<Rightarrow> string) \<Rightarrow> (nat \<Rightarrow> size_t) \<Rightarrow> (nat \<Rightarrow> size_t) \<Rightarrow> (nat \<Rightarrow> size_t \<times> size_t \<times> size_t \<times> size_t) \<Rightarrow> size_t \<Rightarrow> nat \<Rightarrow> string list" where
  "BM_Serialization_Batch dump al act tot batch_size n =
     (let events = map (batch_event al act tot) [0..<batch_size] in map (\<lambda>_. batch_text dump events) [0..<n])"

lemma foldl_append: "foldl (\<lambda>ss i. ss @ h i) a xs = a @ concat (map h xs)"
  by (induction xs arbitrary: a) simp_all

text \<open>The benchmark builds the very text the batcher broadcasts.\<close>

lemma batch_text_payload:
  assumes "length events < 2 ^ 64"
  shows "batch_text dump events = events_payload dump events"
proof (cases "events = []")
  case False
  then have "sub64 (length events) 1 = length events - 1" using assms by (cases events) simp_all
  then show ?thesis by (simp add: batch_text_def events_payload_def foldl_append)
qed (simp add: batch_text_def events_payload_def)


subsection \<open>One thread\<close>

definition bench_req_ok :: "AllocationEvent list \<times> int \<Rightarrow> size_t \<Rightarrow> bool" where
  "bench_req_ok e n \<longleftrightarrow> request_ok (fst e) n 8"

interpretation bench_pool: block_pool "serves th" "bench_alloc th" "arena_free th" bench_req_ok for th
proof (unfold_locales, goal_cases)
  case (1 s M a n)
  then show ?case using serve_alloc [OF 1(1)] by (simp add: bench_alloc_def bench_req_ok_def)
next
  case (2 s x M e n)
  then show ?case by (rule arena_pool.free_law)
qed

lemma request_ok_8: "length slots = kEventSlots \<Longrightarrow> request_ok slots 64 8"
  by (simp add: request_ok_def align_ok_def offset_to_user_def base_overhead_def)

lemma alloc_many_tracks:
  assumes "tracks (serves th) M s ptrs" "\<And>k. length (fst (e k)) = kEventSlots"
  shows "\<exists>ptrs' s'. alloc_many th e k s ptrs = Some (ptrs', s') \<and> tracks (serves th) M s' ptrs'"
  using assms(1)
proof (induction k arbitrary: s ptrs)
  case (Suc k)
  have "bench_req_ok (e k) 64" using request_ok_8 assms(2) by (simp add: bench_req_ok_def)
  from bench_pool.track_alloc [OF Suc.prems this] obtain p s1 where
    "bench_alloc th (e k) s 64 = Some (p, s1)" "tracks (serves th) M s1 (if p = nullptr then ptrs else ptrs @ [(p, 64)])" by blast
  then show ?case using Suc.IH [of s1 "if p = nullptr then ptrs else ptrs @ [(p, 64)]"] by (cases "p = nullptr") auto
qed auto

lemma VisualizationArena_iters_serves:
  assumes "serves th s M" "\<And>n k. length (fst (e n k)) = kEventSlots"
  shows "\<exists>s'. VisualizationArena_iters th e t n s = Some s' \<and> serves th s' M"
  using assms(1)
proof (induction n arbitrary: s)
  case (Suc n)
  obtain ptrs s1 where p: "alloc_many th (e n) 100 s [] = Some (ptrs, s1)" "tracks (serves th) M s1 ptrs"
    using alloc_many_tracks [of th M s "[]" "e n" 100] Suc.prems assms(2) by (auto simp: bench_pool.tracks_nil)
  obtain s2 where "free_seq (arena_free th) (t n) s1 ptrs = Some s2" "serves th s2 M"
    using bench_pool.track_free_all [OF p(2), of "t n"] by (auto simp: bench_pool.tracks_nil)
  then show ?case using p(1) Suc.IH [of s2] by auto
qed auto

text \<open>The arena of a benchmark exists unless \<open>mmap\<close> fails.\<close>

lemma va_create_tls:
  assumes "va_create ps mm ls nilp g tls0 gen cfg = Some (Inr s)"
  shows "va_tls s = tls0"
  using assms by (auto simp: va_create_def Let_def bind_eq_Some_conv split: sum.splits)

lemma bench_arena_ok:
  assumes "config_ok ps mm nilp tls0 cfg" "bench_arena ps mm ls nilp g tls0 gen cfg = Some s"
  shows "va_reach s []" "va_tls s = tls0"
proof -
  have "va_create ps mm ls nilp g tls0 gen cfg = Some (Inr s)"
    using assms(2) by (cases "va_create ps mm ls nilp g tls0 gen cfg") (auto simp: bench_arena_def split: sum.splits)
  then show "va_reach s []" "va_tls s = tls0" using va_start [OF assms(1)] va_create_tls by auto
qed

subsection \<open>Schedules of several threads\<close>

text \<open>Thread \<open>th\<close> in \<open>ths\<close> holds the block \<open>blk th\<close>; the other threads hold nothing.\<close>

definition threads_inv :: "bench_threads \<Rightarrow> nat list \<Rightarrow> (nat \<Rightarrow> live_block) \<Rightarrow> bool" where
  "threads_inv w ths blk \<longleftrightarrow> va_reach (bt_arena w) (map blk ths) \<and> distinct ths \<and> (\<forall>th. th \<in> set ths \<longleftrightarrow> bt_ptr w th \<noteq> nullptr) \<and>
     (\<forall>th \<in> set ths. bt_ptr w th = lb_user (blk th) \<and> lb_size (blk th) = 64 \<and> lb_actual (blk th) = 128) \<and> (\<forall>th. va_tls (bt_arena w) th \<noteq> ForeignContext)"

lemma threads_invI:
  assumes "va_reach (bt_arena w) (map blk ths)" "distinct ths" "\<And>th. th \<in> set ths \<longleftrightarrow> bt_ptr w th \<noteq> nullptr"
    "\<And>th. th \<in> set ths \<Longrightarrow> bt_ptr w th = lb_user (blk th) \<and> lb_size (blk th) = 64 \<and> lb_actual (blk th) = 128"
    "\<And>th. va_tls (bt_arena w) th \<noteq> ForeignContext"
  shows "threads_inv w ths blk"
  unfolding threads_inv_def using assms by blast

lemma threads_invD:
  assumes "threads_inv w ths blk"
  shows "va_reach (bt_arena w) (map blk ths)" "distinct ths" "th \<in> set ths \<longleftrightarrow> bt_ptr w th \<noteq> nullptr"
    "th \<in> set ths \<Longrightarrow> bt_ptr w th = lb_user (blk th) \<and> lb_size (blk th) = 64 \<and> lb_actual (blk th) = 128"
    "va_tls (bt_arena w) th \<noteq> ForeignContext"
  using assms unfolding threads_inv_def by blast+

lemma threads_start:
  assumes "va_reach s []" "\<And>th. va_tls s th \<noteq> ForeignContext"
  shows "threads_inv (bench_start s) [] blk"
  using assms by (intro threads_invI) (simp_all add: bench_start_def)

lemma threads_alloc:
  assumes inv: "threads_inv w ths blk" and th: "bt_ptr w th = nullptr" and slots: "length slots = kEventSlots"
  shows "\<exists>p s. alloc_raw slots now (bt_arena w) th 64 8 tag = Some (p, s) \<and>
    (if p = nullptr then threads_inv (w\<lparr>bt_arena := s\<rparr>) ths blk
     else \<exists>x. threads_inv (w\<lparr>bt_arena := s, bt_ptr := (bt_ptr w)(th := p)\<rparr>) (th # ths) (blk(th := x)))"
proof -
  let ?a = "bt_arena w"
  note I = threads_invD [OF inv]
  have ok: "request_ok slots 64 8" using request_ok_8 [OF slots] .
  have vi: "va_inv ?a (map blk ths)" using va_reach_inv [OF I(1)] .
  obtain p s where r: "alloc_raw slots now ?a th 64 8 tag = Some (p, s)" "va_tls s th \<noteq> ForeignContext"
    and post: "p \<noteq> nullptr \<Longrightarrow> alloc_post ?a (map blk ths) 64 8 p s"
    using alloc_raw_inv [OF vi, of slots 64 8 now th tag] ok by (fastforce simp: request_ok_def)
  have tls: "va_tls s t \<noteq> ForeignContext" for t
    using r(2) alloc_raw_other_tls [OF vi ok r(1), of t] I(5) [of t] by (cases "t = th") simp_all
  note reach = va_alloc [OF I(1) ok r(1)]
  show ?thesis
  proof (cases "p = nullptr")
    case True
    then have "threads_inv (w\<lparr>bt_arena := s\<rparr>) ths blk" using reach I(2-4) tls by (intro threads_invI) simp_all
    then show ?thesis using r(1) True by simp
  next
    case False
    let ?x = "alloc_block ?a p 64 8"
    have size: "lb_size ?x = 64" "lb_actual ?x = 128"
      by (simp_all add: alloc_block_def Let_def offset_to_user_def base_overhead_def internal_size_eq max_def)
    have user: "lb_user ?x = p" using post [OF False] by (auto simp: alloc_post_def alloc_block_def lb_user_def Let_def)
    have new: "th \<notin> set ths" using th I(3) by simp
    then have map: "map (blk(th := ?x)) (th # ths) = ?x # map blk ths" by simp
    have "threads_inv (w\<lparr>bt_arena := s, bt_ptr := (bt_ptr w)(th := p)\<rparr>) (th # ths) (blk(th := ?x))"
    proof (rule threads_invI)
      show "va_reach (bt_arena (w\<lparr>bt_arena := s, bt_ptr := (bt_ptr w)(th := p)\<rparr>)) (map (blk(th := ?x)) (th # ths))"
        unfolding map using reach False by simp
    qed (use new I(2-4) user size False tls in auto)
    then show ?thesis using r(1) False by auto
  qed
qed

lemma threads_free:
  assumes inv: "threads_inv w ths blk" and th: "bt_ptr w th \<noteq> nullptr"
  shows "\<exists>s. dealloc_raw now (bt_arena w) th (bt_ptr w th) n = Some s \<and>
    threads_inv (w\<lparr>bt_arena := s, bt_ptr := (bt_ptr w)(th := nullptr)\<rparr>) (remove1 th ths) blk"
proof -
  let ?a = "bt_arena w"
  note I = threads_invD [OF inv]
  have t: "th \<in> set ths" "bt_ptr w th = lb_user (blk th)" using th I(3,4) [of th] by auto
  have vi: "va_inv ?a (map blk ths)" using va_reach_inv [OF I(1)] .
  have x: "blk th \<in> set (map blk ths)" using t(1) by simp
  obtain s where s: "dealloc_raw now ?a th (lb_user (blk th)) n = Some s" "dealloc_post ?a (map blk ths) (blk th) s"
    using dealloc_raw_inv [OF vi x I(5), of now th n] by blast
  have "distinct (map blk ths)" using va_invD(7) [OF vi] unfolding distinct_map [of lb_raw "map blk ths"] by blast
  then have "map blk (remove1 th ths) = remove1 (blk th) (map blk ths)" using map_remove1_inj [OF _ t(1)] by blast
  then have "va_reach s (map blk (remove1 th ths))" using va_free [OF I(1) x I(5) s(1)] by simp
  moreover have "va_tls s = va_tls ?a" using s(2) by (simp add: dealloc_post_def)
  ultimately have "threads_inv (w\<lparr>bt_arena := s, bt_ptr := (bt_ptr w)(th := nullptr)\<rparr>) (remove1 th ths) blk"
    using I(2-5) by (intro threads_invI) auto
  then show ?thesis using s(1) t(2) by auto
qed

lemma threads_inv_frame:
  assumes "threads_inv w ths blk" "bt_arena w' = bt_arena w" "bt_ptr w' = bt_ptr w"
  shows "threads_inv w' ths blk"
  using assms(1) unfolding threads_inv_def assms(2,3) .

lemma Contention_step_inv:
  assumes inv: "threads_inv w ths blk" and slots: "length slots = kEventSlots"
  shows "\<exists>w' ths' blk'. Contention_step w (th, slots, now) = Some w' \<and> threads_inv w' ths' blk'"
proof (cases "bt_skipped w th")
  case True
  then show ?thesis using inv by (auto simp: Contention_step_def)
next
  case run: False
  show ?thesis
  proof (cases "bt_ptr w th = nullptr")
    case False
    obtain s where "dealloc_raw now (bt_arena w) th (bt_ptr w th) 64 = Some s"
      "threads_inv (w\<lparr>bt_arena := s, bt_ptr := (bt_ptr w)(th := nullptr)\<rparr>) (remove1 th ths) blk"
      using threads_free [OF inv False] by blast
    then show ?thesis using False run by (auto simp: Contention_step_def)
  next
    case True
    obtain p s where p: "alloc_raw slots now (bt_arena w) th 64 8 ''bench'' = Some (p, s)"
      "if p = nullptr then threads_inv (w\<lparr>bt_arena := s\<rparr>) ths blk
       else \<exists>x. threads_inv (w\<lparr>bt_arena := s, bt_ptr := (bt_ptr w)(th := p)\<rparr>) (th # ths) (blk(th := x))"
      using threads_alloc [OF inv True slots] by blast
    show ?thesis
    proof (cases "p = nullptr")
      case False
      then show ?thesis using p True run by (auto simp: Contention_step_def)
    next
      case null: True
      have "threads_inv (w\<lparr>bt_arena := s, bt_skipped := (bt_skipped w)(th := True)\<rparr>) ths blk"
        using p(2) null by (auto intro: threads_inv_frame)
      then show ?thesis using p(1) True run null by (auto simp: Contention_step_def)
    qed
  qed
qed

lemma MultiThreaded_step_inv:
  assumes inv: "threads_inv w ths blk" and slots: "length slots = kEventSlots"
  shows "\<exists>w' ths' blk'. MultiThreaded_step w (th, slots, now) = Some w' \<and> threads_inv w' ths' blk'"
proof (cases "bt_ptr w th = nullptr")
  case False
  obtain s where "dealloc_raw now (bt_arena w) th (bt_ptr w th) 64 = Some s"
    "threads_inv (w\<lparr>bt_arena := s, bt_ptr := (bt_ptr w)(th := nullptr)\<rparr>) (remove1 th ths) blk"
    using threads_free [OF inv False] by blast
  then show ?thesis using False by (auto simp: MultiThreaded_step_def)
next
  case True
  obtain p s where p: "alloc_raw slots now (bt_arena w) th 64 8 ''test'' = Some (p, s)"
    "if p = nullptr then threads_inv (w\<lparr>bt_arena := s\<rparr>) ths blk
     else \<exists>x. threads_inv (w\<lparr>bt_arena := s, bt_ptr := (bt_ptr w)(th := p)\<rparr>) (th # ths) (blk(th := x))"
    using threads_alloc [OF inv True slots] by blast
  have step: "MultiThreaded_step w (th, slots, now) = Some (w\<lparr>bt_arena := s, bt_ptr := (bt_ptr w)(th := p)\<rparr>)"
    using p(1) True by (simp add: MultiThreaded_step_def)
  show ?thesis
  proof (cases "p = nullptr")
    case null: True
    then have "threads_inv (w\<lparr>bt_arena := s\<rparr>) ths blk" using p(2) by simp
    moreover have "(bt_ptr w)(th := p) = bt_ptr w" using True null by (simp add: fun_upd_idem)
    ultimately have "threads_inv (w\<lparr>bt_arena := s, bt_ptr := (bt_ptr w)(th := p)\<rparr>) ths blk"
      by (auto intro: threads_inv_frame [of "w\<lparr>bt_arena := s\<rparr>"])
    then show ?thesis using step by blast
  next
    case False
    then show ?thesis using p(2) step by auto
  qed
qed

lemma bench_schedule_inv:
  assumes step: "\<And>w ths blk th slots now. threads_inv w ths blk \<Longrightarrow> length slots = kEventSlots \<Longrightarrow>
      \<exists>w' ths' blk'. step w (th, slots, now) = Some w' \<and> threads_inv w' ths' blk'"
    and "threads_inv w ths blk" "\<And>th slots now. (th, slots, now) \<in> set sched \<Longrightarrow> length slots = kEventSlots"
  shows "\<exists>w' ths' blk'. bench_schedule step w sched = Some w' \<and> threads_inv w' ths' blk'"
  using assms(2,3)
proof (induction sched arbitrary: w ths blk)
  case (Cons x sched)
  obtain th slots now where x: "x = (th, slots, now)" by (cases x) auto
  have "length slots = kEventSlots" using Cons.prems(2) [of th slots now] x by simp
  then obtain w1 ths1 blk1 where "step w x = Some w1" "threads_inv w1 ths1 blk1" using step [OF Cons.prems(1)] x by blast
  then show ?case using Cons.IH [of w1 ths1 blk1] Cons.prems(2) by auto
qed auto


lemma threads_inv_facts:
  assumes inv: "threads_inv w ths blk"
  shows "va_bytes_allocated (bt_arena w) = 128 * length ths"
    "t \<in> set ths \<Longrightarrow> t' \<in> set ths \<Longrightarrow> t \<noteq> t' \<Longrightarrow> bt_ptr w t + 64 \<le> bt_ptr w t' \<or> bt_ptr w t' + 64 \<le> bt_ptr w t"
proof -
  note I = threads_invD [OF inv]
  have "map lb_actual (map blk ths) = map (\<lambda>_. 128) ths" using I(4) by simp
  moreover have "va_bytes_allocated (bt_arena w) = sum_list (map lb_actual (map blk ths))" using arena_accounting_eq [OF I(1)] by blast
  ultimately have "va_bytes_allocated (bt_arena w) = sum_list (map (\<lambda>_. 128) ths)" by (simp only:)
  then show "va_bytes_allocated (bt_arena w) = 128 * length ths" by (simp add: sum_list_triv)
  assume t: "t \<in> set ths" "t' \<in> set ths" "t \<noteq> t'"
  obtain us vs where ths: "ths = us @ t # vs" using split_list [OF t(1)] by blast
  have vi: "va_inv (bt_arena w) (map blk us @ blk t # map blk vs)" using va_reach_inv [OF I(1)] ths by simp
  have "blk t' \<in> set (map blk us @ map blk vs)" using t(2,3) ths by auto
  from live_disjoint_regions [OF vi this]
  show "bt_ptr w t + 64 \<le> bt_ptr w t' \<or> bt_ptr w t' + 64 \<le> bt_ptr w t"
    using user_region(1,2) [OF vi, of "blk t"] user_region(1,2) [OF vi, of "blk t'"] I(4) [OF t(1)] I(4) [OF t(2)] t(2) ths by auto
qed

definition sched_ok :: "(nat \<times> AllocationEvent list \<times> int) list \<Rightarrow> bool" where
  "sched_ok sched \<longleftrightarrow> list_all (\<lambda>(th, slots, now). length slots = kEventSlots) sched"

text \<open>The arena for a size and a sampling rate can be created.\<close>

definition bench_ready where
  "bench_ready ps mm ls nilp g tls0 gen n k \<longleftrightarrow> config_ok ps mm nilp tls0 (bench_config n k) \<and>
     bench_arena ps mm ls nilp g tls0 gen (bench_config n k) \<noteq> None \<and> (\<forall>t. tls0 t \<noteq> ForeignContext)"

text \<open>Threads inside their loop body hold disjoint blocks, and nothing else is allocated.\<close>

definition holders_ok :: "bench_threads \<Rightarrow> bool" where
  "holders_ok w \<longleftrightarrow> (\<exists>ths. distinct ths \<and> set ths = {th. bt_ptr w th \<noteq> nullptr} \<and> va_bytes_allocated (bt_arena w) = 128 * length ths) \<and>
     (\<forall>a b. bt_ptr w a \<noteq> nullptr \<and> bt_ptr w b \<noteq> nullptr \<and> a \<noteq> b \<longrightarrow>
        bt_ptr w a + 64 \<le> bt_ptr w b \<or> bt_ptr w b + 64 \<le> bt_ptr w a)"

lemma bench_readyD:
  assumes "bench_ready ps mm ls nilp g tls0 gen n k"
  shows "\<exists>va. bench_arena ps mm ls nilp g tls0 gen (bench_config n k) = Some va \<and> va_reach va [] \<and> (\<forall>t. va_tls va t \<noteq> ForeignContext)"
  using assms bench_arena_ok [of ps mm nilp tls0 "bench_config n k" ls g gen] by (auto simp: bench_ready_def)

lemma single_thread_clean:
  assumes "bench_ready ps mm ls nilp g tls0 gen n k" "\<forall>i j. length (fst (e i j)) = kEventSlots"
  shows "\<exists>va s. bench_arena ps mm ls nilp g tls0 gen (bench_config n k) = Some va \<and>
    VisualizationArena_iters th e t m va = Some s \<and> va_bytes_allocated s = 0"
proof -
  obtain va where va: "bench_arena ps mm ls nilp g tls0 gen (bench_config n k) = Some va" "serves th va {#}"
    using bench_readyD [OF assms(1)] by (auto simp: serves_def)
  obtain s where s: "VisualizationArena_iters th e t m va = Some s" "serves th s {#}"
    using VisualizationArena_iters_serves [OF va(2), of e t m] assms(2) by blast
  then show ?thesis using va(1) serves_bytes [OF s(2)] by auto
qed

lemma schedule_clean:
  assumes "bench_ready ps mm ls nilp g tls0 gen n k" "sched_ok sched"
    and step: "\<And>w ths blk th slots now. threads_inv w ths blk \<Longrightarrow> length slots = kEventSlots \<Longrightarrow>
      \<exists>w' ths' blk'. step w (th, slots, now) = Some w' \<and> threads_inv w' ths' blk'"
  shows "\<exists>va w. bench_arena ps mm ls nilp g tls0 gen (bench_config n k) = Some va \<and>
    bench_schedule step (bench_start va) sched = Some w \<and> holders_ok w"
proof -
  obtain va where va: "bench_arena ps mm ls nilp g tls0 gen (bench_config n k) = Some va" "va_reach va []" "\<forall>t. va_tls va t \<noteq> ForeignContext"
    using bench_readyD [OF assms(1)] by blast
  have "threads_inv (bench_start va) [] (\<lambda>_. undefined)" using threads_start va by blast
  moreover have "length slots = kEventSlots" if "(t, slots, now) \<in> set sched" for t slots now
    using assms(2) that by (auto simp: sched_ok_def list_all_iff)
  ultimately obtain w ths blk where w: "bench_schedule step (bench_start va) sched = Some w" "threads_inv w ths blk"
    using bench_schedule_inv [of step "bench_start va" "[]"] step by blast
  have "set ths = {th. bt_ptr w th \<noteq> nullptr}" using threads_invD(3) [OF w(2)] by blast
  then have "holders_ok w" unfolding holders_ok_def
    using threads_inv_facts [OF w(2)] threads_invD(2,3) [OF w(2)] by (intro conjI exI [of _ ths]) simp_all
  then show ?thesis using va(1) w(1) by blast
qed

text \<open>The arena benchmarks under every schedule of any number of threads and any number of iterations: no
  step aborts, the threads that are between allocation and deallocation hold disjoint blocks, and the arena
  reports exactly their bytes. The single-threaded ones free everything they allocate.\<close>

lemma arena_benchmarks_clean:
  assumes ready: "bench_ready ps mm ls nilp g tls0 gen (64 * 1024 * 1024) 1"
      "bench_ready ps mm ls nilp g tls0 gen (64 * 1024 * 1024) 1000"
      "bench_ready ps mm ls nilp g tls0 gen (256 * 1024 * 1024) 1"
      "bench_ready ps mm ls nilp g tls0 gen (1024 * 1024 * 1024) 1"
    and env: "\<forall>i k. length (fst (e i k)) = kEventSlots" "sched_ok sched"
  shows "(\<exists>s. BM_VisualizationArena_NoServer ps mm ls nilp g tls0 gen th e t n = Some s \<and> va_bytes_allocated s = 0) \<and>
    (\<exists>s. BM_VisualizationArena_Sampled ps mm ls nilp g tls0 gen th e t n = Some s \<and> va_bytes_allocated s = 0) \<and>
    (\<exists>w. BM_Contention_Allocation ps mm ls nilp g tls0 gen sched = Some w \<and> holders_ok w) \<and>
    (\<exists>w. BM_MultiThreaded_Visualization ps mm ls nilp g tls0 gen sched = Some w \<and> holders_ok w)"
proof (intro conjI)
  show "\<exists>s. BM_VisualizationArena_NoServer ps mm ls nilp g tls0 gen th e t n = Some s \<and> va_bytes_allocated s = 0"
    using single_thread_clean [OF ready(1) env(1), of th t n] unfolding BM_VisualizationArena_NoServer_def by auto
  show "\<exists>s. BM_VisualizationArena_Sampled ps mm ls nilp g tls0 gen th e t n = Some s \<and> va_bytes_allocated s = 0"
    using single_thread_clean [OF ready(2) env(1), of th t n] unfolding BM_VisualizationArena_Sampled_def by auto
  have "\<exists>va w. bench_arena ps mm ls nilp g tls0 gen (bench_config (256 * 1024 * 1024) 1) = Some va \<and>
      bench_schedule Contention_step (bench_start va) sched = Some w \<and> holders_ok w"
    by (rule schedule_clean [OF ready(3) env(2)]) (rule Contention_step_inv)
  then show "\<exists>w. BM_Contention_Allocation ps mm ls nilp g tls0 gen sched = Some w \<and> holders_ok w"
    unfolding BM_Contention_Allocation_def by auto
  have "\<exists>va w. bench_arena ps mm ls nilp g tls0 gen (bench_config (1024 * 1024 * 1024) 1) = Some va \<and>
      bench_schedule MultiThreaded_step (bench_start va) sched = Some w \<and> holders_ok w"
    by (rule schedule_clean [OF ready(4) env(2)]) (rule MultiThreaded_step_inv)
  then show "\<exists>w. BM_MultiThreaded_Visualization ps mm ls nilp g tls0 gen sched = Some w \<and> holders_ok w"
    unfolding BM_MultiThreaded_Visualization_def by auto
qed

lemma demo_ready:
  assumes "n \<in> {67108864, 268435456, 1073741824}" "0 < k"
  shows "bench_ready 4096 demo_mmap 64 (\<lambda>_. 64) zero_log (\<lambda>_. NoContext) 1 n k"
proof -
  have ok: "config_ok 4096 demo_mmap (\<lambda>_. 64) (\<lambda>_. NoContext) (bench_config n k)"
    using assms by (auto simp: config_ok_def bench_config_def demo_mmap_def)
  have "rounded_size n = n" "n \<le> 2 ^ 37" using assms(1) by (auto simp: rounded_size_def)
  then have sz: "and_not64 (sub64 (add64 n (16 * kMaxShards)) 1) (16 * kMaxShards - 1) = n" using arena_size_aligned [of n] by simp
  have "arena_create 4096 demo_mmap n = Inr \<lparr>ar_base = 4096, ar_capacity = n\<rparr>"
    using assms(1) by (auto simp: arena_create_def demo_mmap_def)
  then have "va_create 4096 demo_mmap 64 (\<lambda>_. 64) zero_log (\<lambda>_. NoContext) 1 (bench_config n k) \<noteq> Some (Inl e)" for e
    using sz by (auto simp: va_create_def bench_config_def bind_eq_Some_conv Let_def)
  moreover have "\<exists>r. va_create 4096 demo_mmap 64 (\<lambda>_. 64) zero_log (\<lambda>_. NoContext) 1 (bench_config n k) = Some r"
    using va_create_inv [OF ok] by blast
  ultimately have "bench_arena 4096 demo_mmap 64 (\<lambda>_. 64) zero_log (\<lambda>_. NoContext) 1 (bench_config n k) \<noteq> None"
    by (auto simp: bench_arena_def split: sum.splits)
  then show ?thesis using ok by (simp add: bench_ready_def)
qed

lemma contention_demo:
  "\<exists>w. BM_Contention_Allocation 4096 demo_mmap 64 (\<lambda>_. 64) zero_log (\<lambda>_. NoContext) 1
       [(0, demo_slots, 1), (1, demo_slots, 2), (0, demo_slots, 3)] = Some w \<and> holders_ok w"
  using arena_benchmarks_clean [of 4096 demo_mmap 64 "\<lambda>_. 64" zero_log "\<lambda>_. NoContext" 1 "\<lambda>_ _. (demo_slots, 0)"
      "[(0, demo_slots, 1), (1, demo_slots, 2), (0, demo_slots, 3)]"] demo_ready
  by (simp add: sched_ok_def demo_slots_def)

end
