(* ===== verification/Request_Metrics.thy ===== *)
theory Request_Metrics
  imports Mmap_Prelude Complex_Main "HOL-Library.Multiset"
begin

text \<open>
  The metrics of the simulation (\<open>src/src/simulation/metrics.hpp\<close>): recording of request outcomes
  and the snapshot with latency percentiles. A \<open>double\<close> is a real number, \<open>fl\<close> the rounding after
  every \<open>double\<close> operation; clock readings are arguments, in nanoseconds.
\<close>

record RequestMetrics =
  rm_total_requests :: size_t
  rm_successful :: size_t
  rm_failed :: size_t
  rm_total_bytes_in :: size_t
  rm_total_bytes_out :: size_t
  rm_elapsed_seconds :: real
  rm_min_latency_us :: real
  rm_max_latency_us :: real
  rm_avg_latency_us :: real
  rm_p50_latency_us :: real
  rm_p95_latency_us :: real
  rm_p99_latency_us :: real

definition success_rate :: "(real \<Rightarrow> real) \<Rightarrow> RequestMetrics \<Rightarrow> real" where
  "success_rate fl m =
     (if rm_total_requests m > 0
      then fl (fl (real (rm_successful m)) / fl (real (rm_total_requests m))) else 0)"

definition throughput_rps :: "(real \<Rightarrow> real) \<Rightarrow> RequestMetrics \<Rightarrow> real" where
  "throughput_rps fl m =
     (if rm_elapsed_seconds m > 0
      then fl (fl (real (rm_total_requests m)) / rm_elapsed_seconds m) else 0)"

definition bandwidth_mbps :: "(real \<Rightarrow> real) \<Rightarrow> RequestMetrics \<Rightarrow> real" where
  "bandwidth_mbps fl m =
     (if rm_elapsed_seconds m \<le> 0 then 0
      else fl (fl (fl (real (add64 (rm_total_bytes_in m) (rm_total_bytes_out m))) / rm_elapsed_seconds m) / 1000000))"

definition bandwidth_in_mbps :: "(real \<Rightarrow> real) \<Rightarrow> RequestMetrics \<Rightarrow> real" where
  "bandwidth_in_mbps fl m =
     (if rm_elapsed_seconds m > 0
      then fl (fl (fl (real (rm_total_bytes_in m)) / rm_elapsed_seconds m) / 1000000) else 0)"

definition bandwidth_out_mbps :: "(real \<Rightarrow> real) \<Rightarrow> RequestMetrics \<Rightarrow> real" where
  "bandwidth_out_mbps fl m =
     (if rm_elapsed_seconds m > 0
      then fl (fl (fl (real (rm_total_bytes_out m)) / rm_elapsed_seconds m) / 1000000) else 0)"

record MetricsCollector =
  mc_latencies :: "real list"
  mc_bytes_in :: size_t
  mc_bytes_out :: size_t
  mc_ok :: size_t
  mc_fail :: size_t
  mc_start_time :: int
  mc_end_time :: int

definition metrics_init :: MetricsCollector where
  "metrics_init = \<lparr>mc_latencies = [], mc_bytes_in = 0, mc_bytes_out = 0, mc_ok = 0, mc_fail = 0,
     mc_start_time = 0, mc_end_time = 0\<rparr>"

definition metrics_record ::
    "(real \<Rightarrow> real) \<Rightarrow> MetricsCollector \<Rightarrow> int \<Rightarrow> size_t \<Rightarrow> size_t \<Rightarrow> bool \<Rightarrow> MetricsCollector" where
  "metrics_record fl c latency req_bytes resp_bytes success =
     (let us = fl (fl (real_of_int latency) / 1000);
          c = c\<lparr>mc_latencies := mc_latencies c @ [us],
                mc_bytes_in := add64 (mc_bytes_in c) req_bytes,
                mc_bytes_out := add64 (mc_bytes_out c) resp_bytes\<rparr>
      in if success then c\<lparr>mc_ok := add64 (mc_ok c) 1\<rparr> else c\<lparr>mc_fail := add64 (mc_fail c) 1\<rparr>)"

text \<open>The lambda \<open>pct\<close> of \<open>snapshot\<close>.\<close>

definition pct :: "(real \<Rightarrow> real) \<Rightarrow> real list \<Rightarrow> real \<Rightarrow> real" where
  "pct fl srt p = srt ! nat \<lfloor>fl (fl p * fl (real (length srt - 1)))\<rfloor>"

definition metrics_snapshot :: "(real \<Rightarrow> real) \<Rightarrow> MetricsCollector \<Rightarrow> RequestMetrics" where
  "metrics_snapshot fl c =
     (let m = \<lparr>rm_total_requests = add64 (mc_ok c) (mc_fail c), rm_successful = mc_ok c, rm_failed = mc_fail c,
               rm_total_bytes_in = mc_bytes_in c, rm_total_bytes_out = mc_bytes_out c,
               rm_elapsed_seconds = fl (fl (real_of_int (mc_end_time c - mc_start_time c)) / 1000000000),
               rm_min_latency_us = 0, rm_max_latency_us = 0, rm_avg_latency_us = 0,
               rm_p50_latency_us = 0, rm_p95_latency_us = 0, rm_p99_latency_us = 0\<rparr>
      in if mc_latencies c = [] then m
         else
           let srt = sort (mc_latencies c);
               total_us = foldl (\<lambda>t v. fl (t + v)) 0 srt
           in m\<lparr>rm_min_latency_us := hd srt, rm_max_latency_us := last srt,
                rm_avg_latency_us := fl (total_us / fl (real (length srt))),
                rm_p50_latency_us := pct fl srt (50 / 100),
                rm_p95_latency_us := pct fl srt (95 / 100),
                rm_p99_latency_us := pct fl srt (99 / 100)\<rparr>)"

definition metrics_reset :: "MetricsCollector \<Rightarrow> MetricsCollector" where
  "metrics_reset c = c\<lparr>mc_latencies := [], mc_bytes_in := 0, mc_bytes_out := 0, mc_ok := 0, mc_fail := 0,
     mc_start_time := 0, mc_end_time := 0\<rparr>"

definition metrics_start :: "int \<Rightarrow> MetricsCollector \<Rightarrow> MetricsCollector" where
  "metrics_start now c = c\<lparr>mc_start_time := now\<rparr>"

definition metrics_stop :: "int \<Rightarrow> MetricsCollector \<Rightarrow> MetricsCollector" where
  "metrics_stop now c = c\<lparr>mc_end_time := now\<rparr>"

subsection \<open>Percentiles\<close>

text \<open>What the percentiles need of \<open>double\<close>: rounding is monotone and exact on the integers below
  \<open>2 ^ 53\<close>.\<close>

definition double_rounding :: "(real \<Rightarrow> real) \<Rightarrow> bool" where
  "double_rounding fl \<longleftrightarrow> mono fl \<and> (\<forall>k < 2 ^ 53. fl (real k) = real k)"

lemma pct_index:
  assumes fl: "double_rounding fl" and n: "0 < n" "n < 2 ^ 53" and p: "0 \<le> p" "p \<le> 1"
  shows "nat \<lfloor>fl (fl p * fl (real (n - 1)))\<rfloor> < n"
proof -
  have m: "mono fl" using fl by (simp add: double_rounding_def)
  have e: "fl (real k) = real k" if "k < 2 ^ 53" for k using fl that by (auto simp: double_rounding_def)
  have e01: "fl 0 = 0" "fl 1 = 1" using e [of 0] e [of 1] by auto
  have "fl 0 \<le> fl p" "fl p \<le> fl 1" using monoD [OF m] p by auto
  then have q: "0 \<le> fl p" "fl p \<le> 1" using e01 by auto
  have k: "fl (real (n - 1)) = real (n - 1)" by (rule e) (use n in simp)
  have "fl p * real (n - 1) \<le> real (n - 1)" using q by (simp add: mult_left_le_one_le)
  then have "fl (fl p * real (n - 1)) \<le> real (n - 1)" using monoD [OF m] k by metis
  then have "\<lfloor>fl (fl p * fl (real (n - 1)))\<rfloor> \<le> int (n - 1)" unfolding k by linarith
  then show ?thesis using n(1) by linarith
qed

lemma pct_mono:
  assumes fl: "double_rounding fl" and s: "sorted srt" and n: "srt \<noteq> []" "length srt < 2 ^ 53"
    and p: "0 \<le> p" "p \<le> q" "q \<le> 1"
  shows "pct fl srt p \<le> pct fl srt q" "hd srt \<le> pct fl srt p" "pct fl srt q \<le> last srt"
    "pct fl srt p \<in> set srt"
proof -
  let ?i = "\<lambda>p. nat \<lfloor>fl (fl p * fl (real (length srt - 1)))\<rfloor>"
  have m: "mono fl" and k: "fl (real (length srt - 1)) = real (length srt - 1)"
    using fl n(2) by (auto simp: double_rounding_def)
  have i: "?i p < length srt" "?i q < length srt" using pct_index [OF fl _ n(2)] n(1) p by auto
  have "fl p * fl (real (length srt - 1)) \<le> fl q * fl (real (length srt - 1))"
    using monoD [OF m p(2)] k by (simp add: mult_right_mono)
  then have "?i p \<le> ?i q" using monoD [OF m] by (intro nat_mono floor_mono) blast
  then show "pct fl srt p \<le> pct fl srt q" using s i by (simp add: pct_def sorted_nth_mono)
  show "hd srt \<le> pct fl srt p" using s i n(1) by (simp add: pct_def hd_conv_nth sorted_nth_mono)
  show "pct fl srt q \<le> last srt" using s i n(1) by (simp add: pct_def last_conv_nth sorted_nth_mono)
  show "pct fl srt p \<in> set srt" using i by (simp add: pct_def)
qed

lemma sorted_ends: "sorted xs \<Longrightarrow> x \<in> set xs \<Longrightarrow> hd xs \<le> x \<and> x \<le> last xs" for x :: real
proof (induction xs)
  case (Cons y xs)
  then show ?case by (cases xs) (auto intro: order_trans)
qed simp

text \<open>The percentiles of a snapshot are recorded latencies, read inside the sorted sample vector,
  and ordered: minimum, median, 95th, 99th, maximum; the request total is the sum of both outcomes.\<close>

lemma snapshot_percentiles_ordered:
  assumes "double_rounding fl" "mc_latencies c \<noteq> []" "length (mc_latencies c) < 2 ^ 53"
  shows "let m = metrics_snapshot fl c in
    rm_min_latency_us m = Min (set (mc_latencies c)) \<and> rm_max_latency_us m = Max (set (mc_latencies c)) \<and>
    rm_min_latency_us m \<le> rm_p50_latency_us m \<and> rm_p50_latency_us m \<le> rm_p95_latency_us m \<and>
    rm_p95_latency_us m \<le> rm_p99_latency_us m \<and> rm_p99_latency_us m \<le> rm_max_latency_us m \<and>
    {rm_p50_latency_us m, rm_p95_latency_us m, rm_p99_latency_us m} \<subseteq> set (mc_latencies c)"
proof -
  let ?s = "sort (mc_latencies c)"
  have n: "?s \<noteq> []" "length ?s < 2 ^ 53" "sorted ?s" "set ?s = set (mc_latencies c)"
    using assms(2,3) by (auto dest: arg_cong [of _ _ length])
  have hd: "hd ?s = Min (set (mc_latencies c))" "last ?s = Max (set (mc_latencies c))"
    using sorted_ends [OF n(3)] n(1,4) hd_in_set [OF n(1)] last_in_set [OF n(1)]
    by (auto intro!: Min_eqI [symmetric] Max_eqI [symmetric])
  note P = pct_mono [OF assms(1) n(3,1,2)]
  show ?thesis
    using P [of "50/100" "95/100"] P [of "95/100" "99/100"] P [of "99/100" "99/100"] hd n(4) assms(2)
    by (simp add: metrics_snapshot_def Let_def)
qed

end
