(* ===== verification/Server_Sim.thy ===== *)
theory Server_Sim
  imports Block_Pool Request_Metrics
begin

text \<open>
  The simulated server (\<open>src/src/simulation/server_sim.hpp\<close> and \<open>server_sim.cpp\<close>): one request is received
  into a buffer of the arena, answered from another one and recorded in the metrics; the buffers of
  streams stay until \<open>cleanup_streams\<close>. All requests run on one thread \<open>th\<close>. What a request takes from outside
  (random draws, clock readings, the initial contents of tracker slots) is in its environment \<open>req_env\<close>;
  sleeping has no effect on the state.
\<close>

datatype RequestType = GET | POST | PUT | DELETE | STREAM

fun request_type_string :: "RequestType \<Rightarrow> string" where
  "request_type_string GET = ''GET''"
| "request_type_string POST = ''POST''"
| "request_type_string PUT = ''PUT''"
| "request_type_string DELETE = ''DELETE''"
| "request_type_string STREAM = ''STREAM''"

datatype StatusCode = StatusOk | StatusNotFound | StatusServerError | StatusOutOfMemory

record Request =
  rq_id :: size_t
  rq_type :: RequestType
  rq_payload_size :: size_t
  rq_endpoint :: string

record Response =
  rs_request_id :: size_t
  rs_status :: StatusCode
  rs_body_size :: size_t

record ServerSim =
  ss_base_latency_us :: size_t
  ss_metrics :: MetricsCollector
  ss_stream_buffers :: "(addr \<times> size_t) list"

definition server_sim :: "size_t \<Rightarrow> ServerSim" where
  "server_sim base_latency = \<lparr>ss_base_latency_us = base_latency, ss_metrics = metrics_init, ss_stream_buffers = []\<rparr>"

text \<open>
  \<open>re_draw k lo hi\<close> is the \<open>k\<close>th value a \<open>uniform_int_distribution\<close> on \<open>[lo, hi]\<close> yields for the request,
  \<open>re_now k\<close> the \<open>k\<close>th reading of the system clock, \<open>re_latency\<close> the measured duration, \<open>re_round\<close> the rounding of
  \<open>double\<close>.
\<close>

record req_env =
  re_slots :: "AllocationEvent list"
  re_draw :: "nat \<Rightarrow> size_t \<Rightarrow> size_t \<Rightarrow> size_t"
  re_now :: "nat \<Rightarrow> int"
  re_latency :: int
  re_round :: "real \<Rightarrow> real"

text \<open>A distribution with \<open>lo > hi\<close> is undefined.\<close>

definition rand_between :: "(size_t \<Rightarrow> size_t \<Rightarrow> size_t) \<Rightarrow> size_t \<Rightarrow> size_t \<Rightarrow> size_t option" where
  "rand_between draw lo hi = (if lo \<le> hi then Some (draw lo hi) else None)"

fun response_size_for :: "(size_t \<Rightarrow> size_t \<Rightarrow> size_t) \<Rightarrow> RequestType \<Rightarrow> size_t option" where
  "response_size_for draw GET = rand_between draw 64 512"
| "response_size_for draw POST = rand_between draw 32 256"
| "response_size_for draw PUT = rand_between draw 32 256"
| "response_size_for draw DELETE = rand_between draw 16 64"
| "response_size_for draw STREAM = rand_between draw 4096 65536"

text \<open>\<open>snprintf\<close> into \<open>char[128]\<close>.\<close>

fun dec_string :: "nat \<Rightarrow> string" where
  "dec_string n = (if n < 10 then [char_of (48 + n)] else dec_string (n div 10) @ [char_of (48 + n mod 10)])"

declare dec_string.simps [simp del]

definition request_tag :: "Request \<Rightarrow> string \<Rightarrow> string" where
  "request_tag req suffix = take 127
     (request_type_string (rq_type req) @ '' '' @ c_str (rq_endpoint req) @ '' #'' @ dec_string (rq_id req) @ suffix)"

definition mem_set :: "va_state \<Rightarrow> addr \<Rightarrow> nat \<Rightarrow> size_t \<Rightarrow> va_state" where
  "mem_set s p v n = s\<lparr>va_data := (\<lambda>q. if p \<le> q \<and> q < p + n then v else va_data s q)\<rparr>"

definition record_request :: "req_env \<Rightarrow> ServerSim \<Rightarrow> size_t \<Rightarrow> size_t \<Rightarrow> bool \<Rightarrow> ServerSim" where
  "record_request env sv req_bytes resp_bytes success =
     sv\<lparr>ss_metrics := metrics_record (re_round env) (ss_metrics sv) (re_latency env) req_bytes resp_bytes success\<rparr>"

definition free_if :: "int \<Rightarrow> va_state \<Rightarrow> nat \<Rightarrow> addr \<Rightarrow> size_t \<Rightarrow> va_state option" where
  "free_if now s th p n = (if p \<noteq> nullptr then dealloc_raw now s th p n else Some s)"

definition oom_response :: "Request \<Rightarrow> Response" where
  "oom_response req = \<lparr>rs_request_id = rq_id req, rs_status = StatusOutOfMemory, rs_body_size = 0\<rparr>"

text \<open>Steps 2 to 7 of \<open>handle_request\<close>, with the request buffer \<open>req_buf\<close>.\<close>

definition answer_request ::
    "req_env \<Rightarrow> nat \<Rightarrow> ServerSim \<Rightarrow> va_state \<Rightarrow> Request \<Rightarrow> addr \<Rightarrow> (Response \<times> ServerSim \<times> va_state) option" where
  "answer_request env th sv s req req_buf = do {
     let payload = rq_payload_size req;
     resp_size \<leftarrow> response_size_for (re_draw env 3) (rq_type req);
     (resp_buf, s) \<leftarrow> alloc_raw (re_slots env) (re_now env 1) s th resp_size 16 (request_tag req '' [resp]'');
     if resp_buf = nullptr then do {
       s \<leftarrow> free_if (re_now env 2) s th req_buf payload;
       Some (oom_response req, record_request env sv payload 0 False, s) }
     else do {
       let s = mem_set s resp_buf 0xBB resp_size;
       s \<leftarrow> free_if (re_now env 2) s th req_buf payload;
       (sv, s) \<leftarrow> (if rq_type req = STREAM
                   then Some (sv\<lparr>ss_stream_buffers := ss_stream_buffers sv @ [(resp_buf, resp_size)]\<rparr>, s)
                   else do {
                     s \<leftarrow> dealloc_raw (re_now env 3) s th resp_buf resp_size;
                     Some (sv, s) });
       Some (\<lparr>rs_request_id = rq_id req, rs_status = StatusOk, rs_body_size = resp_size\<rparr>,
             record_request env sv payload resp_size True, s) } }"

definition handle_request ::
    "req_env \<Rightarrow> nat \<Rightarrow> ServerSim \<Rightarrow> va_state \<Rightarrow> Request \<Rightarrow> (Response \<times> ServerSim \<times> va_state) option" where
  "handle_request env th sv s req =
     (let payload = rq_payload_size req in
      if payload > 0 then do {
        (req_buf, s) \<leftarrow> alloc_raw (re_slots env) (re_now env 0) s th payload 16 (request_tag req '' [req]'');
        if req_buf = nullptr then Some (oom_response req, record_request env sv payload 0 False, s)
        else answer_request env th sv (mem_set s req_buf 0xAA payload) req req_buf }
      else answer_request env th sv s req nullptr)"

definition cleanup_streams :: "(nat \<Rightarrow> int) \<Rightarrow> nat \<Rightarrow> ServerSim \<Rightarrow> va_state \<Rightarrow> (ServerSim \<times> va_state) option" where
  "cleanup_streams now th sv s = do {
     s \<leftarrow> free_seq (arena_free th) now s (ss_stream_buffers sv);
     Some (sv\<lparr>ss_stream_buffers := []\<rparr>, s) }"

subsection \<open>What the server relies on\<close>

lemma mem_set_reach:
  assumes "va_reach s H" "x \<in> set H" "n \<le> lb_size x"
  shows "va_reach (mem_set s (lb_user x) v n) H"
  using write_reach [OF assms(1,2), of "{lb_user x..<lb_user x + n}" "\<lambda>_. v"] assms(3)
  by (auto simp: mem_set_def user_bytes_def)

lemma serve_set: "serves th s M \<Longrightarrow> x \<in># M \<Longrightarrow> n \<le> lb_size x \<Longrightarrow> serves th (mem_set s (lb_user x) v n) M"
  using mem_set_reach by (fastforce simp: serves_def mem_set_def)

lemma serve_set_buffer:
  assumes "serves th s M" "buffer_of p n Q" "Q \<noteq> []" "set Q \<subseteq> set_mset M"
  shows "serves th (mem_set s p v n) M"
  using serve_set [of th s M] assms by (auto simp: buffer_of_def split: if_splits)

lemma serve_free_if:
  assumes "serves th s (mset Q + M)" "buffer_of p n Q"
  shows "\<exists>s'. free_if now s th p m = Some s' \<and> serves th s' M"
  using serve_free [of th s _ M now m] assms by (auto simp: buffer_of_def free_if_def split: if_splits)

subsection \<open>One request\<close>

definition env_ok :: "req_env \<Rightarrow> bool" where
  "env_ok env \<longleftrightarrow> length (re_slots env) = kEventSlots \<and>
     (\<forall>k lo hi. lo \<le> hi \<longrightarrow> lo \<le> re_draw env k lo hi \<and> re_draw env k lo hi \<le> hi)"

lemma response_size_ok:
  assumes "env_ok env"
  shows "\<exists>n. response_size_for (re_draw env 3) ty = Some n \<and> 16 \<le> n \<and> n \<le> 65536"
proof -
  have D: "lo \<le> hi \<Longrightarrow> lo \<le> re_draw env 3 lo hi \<and> re_draw env 3 lo hi \<le> hi" for lo hi
    using assms by (simp add: env_ok_def)
  show ?thesis using D [of 64 512] D [of 32 256] D [of 16 64] D [of 4096 65536] by (cases ty) (simp_all add: rand_between_def)
qed

text \<open>The outcome of a request: the live blocks grow by the buffer of a served stream and by nothing else.\<close>

definition served :: "req_env \<Rightarrow> ServerSim \<Rightarrow> nat \<Rightarrow> Request \<Rightarrow> live_block multiset \<Rightarrow> Response \<Rightarrow> ServerSim \<Rightarrow> va_state \<Rightarrow> bool" where
  "served env sv th req M resp sv' s' \<longleftrightarrow>
     (\<exists>X. serves th s' (M + mset X) \<and> ss_stream_buffers sv' = ss_stream_buffers sv @ map entry_of X \<and>
        length X = (if rq_type req = STREAM \<and> rs_status resp = StatusOk then 1 else 0)) \<and>
     rs_request_id resp = rq_id req \<and>
     (rs_status resp = StatusOk \<or> rs_status resp = StatusOutOfMemory \<and> rs_body_size resp = 0) \<and>
     ss_metrics sv' = metrics_record (re_round env) (ss_metrics sv) (re_latency env) (rq_payload_size req)
       (rs_body_size resp) (rs_status resp = StatusOk)"

lemma answer_request_served:
  assumes s: "serves th s (mset Q + M)" "buffer_of p (rq_payload_size req) Q" and env: "env_ok env"
  shows "\<exists>resp sv' s'. answer_request env th sv s req p = Some (resp, sv', s') \<and> served env sv th req M resp sv' s'"
proof -
  let ?n = "rq_payload_size req"
  obtain k where k: "response_size_for (re_draw env 3) (rq_type req) = Some k" "k \<le> 65536"
    using response_size_ok [OF env, of "rq_type req"] by blast
  have "request_ok (re_slots env) k 16" using k(2) env by (intro request_ok_16) (simp_all add: env_ok_def)
  from serve_alloc [OF s(1) this, of "re_now env 1" "request_tag req '' [resp]''"] obtain r s3 R
    where r: "alloc_raw (re_slots env) (re_now env 1) s th k 16 (request_tag req '' [resp]'') = Some (r, s3)"
      "buffer_of r k R" "serves th s3 (mset Q + (mset R + M))" by (auto simp: ac_simps)
  show ?thesis
  proof (cases "r = nullptr")
    case True
    then have "serves th s3 (mset Q + M)" using r by (simp add: buffer_of_def)
    from serve_free_if [OF this s(2)] obtain s4
      where s4: "free_if (re_now env 2) s3 th p ?n = Some s4" "serves th s4 M" by blast
    then have "answer_request env th sv s req p = Some (oom_response req, record_request env sv ?n 0 False, s4)"
      using r(1) k(1) True by (simp add: answer_request_def)
    then show ?thesis using s4(2) by (simp add: served_def record_request_def oom_response_def)
  next
    case False
    obtain x where x: "R = [x]" "lb_user x = r" "lb_size x = k" using r(2) False by (auto simp: buffer_of_def)
    have "serves th (mem_set s3 r 0xBB k) (mset Q + (mset R + M))"
      using x by (intro serve_set_buffer [OF r(3,2)]) auto
    from serve_free_if [OF this s(2)] obtain s4
      where s4: "free_if (re_now env 2) (mem_set s3 r 0xBB k) th p ?n = Some s4" "serves th s4 (add_mset x M)"
      using x by auto
    let ?resp = "\<lparr>rs_request_id = rq_id req, rs_status = StatusOk, rs_body_size = k\<rparr>"
    show ?thesis
    proof (cases "rq_type req = STREAM")
      case True
      let ?sv = "record_request env (sv\<lparr>ss_stream_buffers := ss_stream_buffers sv @ [(r, k)]\<rparr>) ?n k True"
      have "answer_request env th sv s req p = Some (?resp, ?sv, s4)"
        using r(1) k(1) False s4(1) True by (simp add: answer_request_def)
      moreover have "serves th s4 (M + mset [x]) \<and> ss_stream_buffers ?sv = ss_stream_buffers sv @ map entry_of [x]"
        using s4(2) x by (simp add: record_request_def entry_of_def)
      then have "served env sv th req M ?resp ?sv s4"
        using True unfolding served_def by (intro conjI exI [of _ "[x]"]) (simp_all add: record_request_def)
      ultimately show ?thesis by blast
    next
      case nst: False
      obtain s5 where s5: "dealloc_raw (re_now env 3) s4 th r k = Some s5" "serves th s5 M"
        using serve_free [OF s4(2), of "re_now env 3" k] x by auto
      then have "answer_request env th sv s req p = Some (?resp, record_request env sv ?n k True, s5)"
        using r(1) k(1) False s4(1) nst by (simp add: answer_request_def)
      then show ?thesis using s5(2) nst by (simp add: served_def record_request_def)
    qed
  qed
qed

lemma handle_request_served:
  assumes s: "serves th s M" and env: "env_ok env" and pay: "rq_payload_size req \<le> 2 ^ 63"
  shows "\<exists>resp sv' s'. handle_request env th sv s req = Some (resp, sv', s') \<and> served env sv th req M resp sv' s'"
proof (cases "0 < rq_payload_size req")
  case False
  then show ?thesis using answer_request_served [of th s "[]" M nullptr req env sv] s env
    by (simp add: handle_request_def buffer_of_def)
next
  case True
  let ?n = "rq_payload_size req"
  have "request_ok (re_slots env) ?n 16" using env pay by (intro request_ok_16) (simp_all add: env_ok_def)
  from serve_alloc [OF s this, of "re_now env 0" "request_tag req '' [req]''"] obtain p s1 Q
    where p: "alloc_raw (re_slots env) (re_now env 0) s th ?n 16 (request_tag req '' [req]'') = Some (p, s1)"
      "buffer_of p ?n Q" "serves th s1 (mset Q + M)" by blast
  show ?thesis
  proof (cases "p = nullptr")
    case True
    then have "serves th s1 M" using p by (simp add: buffer_of_def)
    then show ?thesis using p(1) True \<open>0 < ?n\<close> by (simp add: handle_request_def served_def record_request_def oom_response_def)
  next
    case False
    then have "serves th (mem_set s1 p 0xAA ?n) (mset Q + M)"
      using p(2) by (intro serve_set_buffer [OF p(3,2)]) (auto simp: buffer_of_def)
    from answer_request_served [OF this p(2) env, of sv] show ?thesis using p(1) False True by (simp add: handle_request_def)
  qed
qed

lemma cleanup_streams_serves:
  assumes "tracks (serves th) M s (ss_stream_buffers sv)"
  shows "\<exists>s'. cleanup_streams now th sv s = Some (sv\<lparr>ss_stream_buffers := []\<rparr>, s') \<and> serves th s' M"
  using arena_pool.track_free_all [OF assms, of now] arena_pool.tracks_nil by (auto simp: cleanup_streams_def)

text \<open>C31. A request never leaks and never aborts: it is answered \<open>Ok\<close> or \<open>OutOfMemory\<close>, the live blocks
  afterwards are those before plus the buffer of a served stream, which the server remembers, and the
  request is recorded in the metrics.\<close>

theorem handle_request_no_leak:
  assumes "va_reach s H" "va_tls s th \<noteq> ForeignContext" "env_ok env" "rq_payload_size req \<le> 2 ^ 63"
  shows "\<exists>resp sv' s' H' X. handle_request env th sv s req = Some (resp, sv', s') \<and>
    va_reach s' H' \<and> mset H' = mset H + mset X \<and>
    ss_stream_buffers sv' = ss_stream_buffers sv @ map (\<lambda>x. (lb_user x, lb_size x)) X \<and>
    length X = (if rq_type req = STREAM \<and> rs_status resp = StatusOk then 1 else 0) \<and>
    (rs_status resp = StatusOk \<or> rs_status resp = StatusOutOfMemory) \<and>
    mc_latencies (ss_metrics sv') = mc_latencies (ss_metrics sv) @ [re_round env (re_round env (real_of_int (re_latency env)) / 1000)]"
proof -
  have "serves th s (mset H)" using assms(1,2) by (auto simp: serves_def)
  from handle_request_served [OF this assms(3,4), of sv] obtain resp sv' s'
    where r: "handle_request env th sv s req = Some (resp, sv', s')" "served env sv th req (mset H) resp sv' s'" by blast
  from r(2) obtain X H' where X: "va_reach s' H'" "mset H' = mset H + mset X"
    "ss_stream_buffers sv' = ss_stream_buffers sv @ map entry_of X"
    "length X = (if rq_type req = STREAM \<and> rs_status resp = StatusOk then 1 else 0)"
    unfolding served_def serves_def by blast
  have "ss_stream_buffers sv' = ss_stream_buffers sv @ map (\<lambda>x. (lb_user x, lb_size x)) X"
    using X(3) by (simp add: entry_of_def)
  moreover have "rs_status resp = StatusOk \<or> rs_status resp = StatusOutOfMemory"
    "mc_latencies (ss_metrics sv') =
      mc_latencies (ss_metrics sv) @ [re_round env (re_round env (real_of_int (re_latency env)) / 1000)]"
    using r(2) by (auto simp: served_def metrics_record_def Let_def)
  ultimately show ?thesis using r(1) X(1,2,4) by blast
qed

definition demo_env :: req_env where
  "demo_env = \<lparr>re_slots = demo_slots, re_draw = (\<lambda>k lo hi. lo), re_now = (\<lambda>k. 0), re_latency = 1500, re_round = (\<lambda>x. x)\<rparr>"

lemma demo_env_ok: "env_ok demo_env"
  by (simp add: env_ok_def demo_env_def demo_slots_def)

theorem handle_request_no_leak_witness:
  "\<exists>s resp sv' s' H'. va_reach s [] \<and>
     handle_request demo_env 0 (server_sim 0) s \<lparr>rq_id = 1, rq_type = GET, rq_payload_size = 32, rq_endpoint = ''/api''\<rparr> =
       Some (resp, sv', s') \<and> va_reach s' H' \<and> H' = []"
proof -
  obtain s where s: "va_reach s []" "va_tls s 0 \<noteq> ForeignContext" using demo_arena by auto
  from handle_request_no_leak [OF s demo_env_ok, of "\<lparr>rq_id = 1, rq_type = GET, rq_payload_size = 32, rq_endpoint = ''/api''\<rparr>" "server_sim 0"] s
  show ?thesis by fastforce
qed

end
