(* ===== verification/Request_Generator.thy ===== *)
theory Request_Generator
  imports Server_Sim
begin

text \<open>
  The load generator (\<open>src/src/simulation/request_generator.hpp\<close> and \<open>request_generator.cpp\<close>): random
  requests sent to the server in one of four traffic patterns. The environment of the request with
  number \<open>i\<close> is \<open>env i\<close>; pauses between requests have no effect on the state. The loops of the burst and
  the mixed pattern are partial functions, \<open>None\<close> being a run that does not end or does not return.
\<close>

datatype TrafficPattern = Steady | Burst | Ramp | Mixed

record GeneratorConfig =
  gc_pattern :: TrafficPattern
  gc_total_requests :: size_t
  gc_steady_interval :: size_t
  gc_burst_size :: size_t
  gc_burst_cooldown :: size_t
  gc_ramp_start_rps :: size_t
  gc_ramp_end_rps :: size_t
  gc_min_payload :: size_t
  gc_max_payload :: size_t

definition type_pool :: "RequestType list" where
  "type_pool = replicate 10 GET @ replicate 4 POST @ replicate 3 PUT @ replicate 2 DELETE @ [STREAM]"

definition random_type :: "(size_t \<Rightarrow> size_t \<Rightarrow> size_t) \<Rightarrow> RequestType option" where
  "random_type draw = map_option (\<lambda>i. type_pool ! i) (rand_between draw 0 (20 - 1))"

definition endpoints :: "string list" where
  "endpoints = [''/api/data'', ''/api/users'', ''/api/upload'', ''/api/metrics'', ''/api/sessions'', ''/api/stream'']"

definition random_endpoint :: "(size_t \<Rightarrow> size_t \<Rightarrow> size_t) \<Rightarrow> string option" where
  "random_endpoint draw = map_option (\<lambda>i. endpoints ! i) (rand_between draw 0 (6 - 1))"

fun payload_for :: "GeneratorConfig \<Rightarrow> (size_t \<Rightarrow> size_t \<Rightarrow> size_t) \<Rightarrow> RequestType \<Rightarrow> size_t option" where
  "payload_for cfg draw GET = rand_between draw 0 64"
| "payload_for cfg draw POST = rand_between draw (gc_min_payload cfg) (gc_max_payload cfg)"
| "payload_for cfg draw PUT = rand_between draw (gc_min_payload cfg) (gc_max_payload cfg)"
| "payload_for cfg draw DELETE = rand_between draw 0 32"
| "payload_for cfg draw STREAM = rand_between draw (gc_min_payload cfg) (gc_max_payload cfg div 2)"

definition make_request :: "GeneratorConfig \<Rightarrow> req_env \<Rightarrow> size_t \<Rightarrow> Request option" where
  "make_request cfg env i = do {
     ty \<leftarrow> random_type (re_draw env 0);
     payload \<leftarrow> payload_for cfg (re_draw env 1) ty;
     ep \<leftarrow> random_endpoint (re_draw env 2);
     Some \<lparr>rq_id = i, rq_type = ty, rq_payload_size = payload, rq_endpoint = ep\<rparr> }"

text \<open>Generator, server and arena of a run; \<open>sim_progress\<close> lists the calls of the progress callback.\<close>

record sim =
  sim_next_id :: size_t
  sim_server :: ServerSim
  sim_arena :: va_state
  sim_progress :: "(size_t \<times> size_t \<times> bool) list"

definition send_request :: "GeneratorConfig \<Rightarrow> (nat \<Rightarrow> req_env) \<Rightarrow> nat \<Rightarrow> sim \<Rightarrow> sim option" where
  "send_request cfg env th st = do {
     let i = sim_next_id st;
     req \<leftarrow> make_request cfg (env i) i;
     (resp, sv, s) \<leftarrow> handle_request (env i) th (sim_server st) (sim_arena st) req;
     Some (st\<lparr>sim_next_id := add64 i 1, sim_server := sv, sim_arena := s,
              sim_progress := sim_progress st @ [(rq_id req, gc_total_requests cfg, rs_status resp = StatusOk)]\<rparr>) }"

text \<open>A counted loop of \<open>n\<close> requests.\<close>

fun send_batch :: "GeneratorConfig \<Rightarrow> (nat \<Rightarrow> req_env) \<Rightarrow> nat \<Rightarrow> nat \<Rightarrow> sim \<Rightarrow> sim option" where
  "send_batch cfg env th 0 st = Some st"
| "send_batch cfg env th (Suc n) st = do { st \<leftarrow> send_request cfg env th st; send_batch cfg env th n st }"

definition run_steady :: "GeneratorConfig \<Rightarrow> (nat \<Rightarrow> req_env) \<Rightarrow> nat \<Rightarrow> sim \<Rightarrow> sim option" where
  "run_steady cfg env th st = send_batch cfg env th (gc_total_requests cfg) st"

partial_function (option) burst_loop ::
    "GeneratorConfig \<Rightarrow> (nat \<Rightarrow> req_env) \<Rightarrow> nat \<Rightarrow> size_t \<Rightarrow> sim \<Rightarrow> sim option" where
  "burst_loop cfg env th remaining st =
     (if remaining > 0 then do {
        let batch = min (gc_burst_size cfg) remaining;
        st \<leftarrow> send_batch cfg env th batch st;
        burst_loop cfg env th (remaining - batch) st }
      else Some st)"

definition run_burst :: "GeneratorConfig \<Rightarrow> (nat \<Rightarrow> req_env) \<Rightarrow> nat \<Rightarrow> sim \<Rightarrow> sim option" where
  "run_burst cfg env th st = burst_loop cfg env th (gc_total_requests cfg) st"

text \<open>The rate of the ramp only determines the pauses.\<close>

function ramp_loop :: "GeneratorConfig \<Rightarrow> (nat \<Rightarrow> req_env) \<Rightarrow> nat \<Rightarrow> size_t \<Rightarrow> sim \<Rightarrow> sim option" where
  "ramp_loop cfg env th done_n st =
     (if done_n < gc_total_requests cfg then do {
        st \<leftarrow> send_request cfg env th st;
        ramp_loop cfg env th (done_n + 1) st }
      else Some st)"
  by pat_completeness auto
termination by (relation "measure (\<lambda>(cfg, env, th, done_n, st). gc_total_requests cfg - done_n)") auto

declare ramp_loop.simps [simp del]

definition run_ramp :: "GeneratorConfig \<Rightarrow> (nat \<Rightarrow> req_env) \<Rightarrow> nat \<Rightarrow> sim \<Rightarrow> sim option" where
  "run_ramp cfg env th st = ramp_loop cfg env th 0 st"

partial_function (option) mixed_loop ::
    "GeneratorConfig \<Rightarrow> (nat \<Rightarrow> req_env) \<Rightarrow> nat \<Rightarrow> size_t \<Rightarrow> size_t \<Rightarrow> sim \<Rightarrow> sim option" where
  "mixed_loop cfg env th phase remaining st =
     (if remaining > 0 then do {
        let batch = (if phase mod 3 = 0
                     then min (gc_burst_size cfg) (min remaining (max 1 (remaining div 5)))
                     else min (max 1 (remaining div 10)) remaining);
        st \<leftarrow> send_batch cfg env th batch st;
        mixed_loop cfg env th (add64 phase 1) (remaining - batch) st }
      else Some st)"

definition run_mixed :: "GeneratorConfig \<Rightarrow> (nat \<Rightarrow> req_env) \<Rightarrow> nat \<Rightarrow> sim \<Rightarrow> sim option" where
  "run_mixed cfg env th st = mixed_loop cfg env th 0 (gc_total_requests cfg) st"

fun run_pattern :: "TrafficPattern \<Rightarrow> GeneratorConfig \<Rightarrow> (nat \<Rightarrow> req_env) \<Rightarrow> nat \<Rightarrow> sim \<Rightarrow> sim option" where
  "run_pattern Steady cfg env th st = run_steady cfg env th st"
| "run_pattern Burst cfg env th st = run_burst cfg env th st"
| "run_pattern Ramp cfg env th st = run_ramp cfg env th st"
| "run_pattern Mixed cfg env th st = run_mixed cfg env th st"

definition set_metrics :: "sim \<Rightarrow> (MetricsCollector \<Rightarrow> MetricsCollector) \<Rightarrow> sim" where
  "set_metrics st f = st\<lparr>sim_server := (sim_server st)\<lparr>ss_metrics := f (ss_metrics (sim_server st))\<rparr>\<rparr>"

text \<open>\<open>t0\<close> and \<open>t1\<close> are the clock readings of \<open>start\<close> and \<open>stop\<close>, \<open>now\<close> those of the final frees.\<close>

definition generator_run ::
    "GeneratorConfig \<Rightarrow> (nat \<Rightarrow> req_env) \<Rightarrow> int \<Rightarrow> int \<Rightarrow> (nat \<Rightarrow> int) \<Rightarrow> nat \<Rightarrow> sim \<Rightarrow> sim option" where
  "generator_run cfg env t0 t1 now th st = do {
     let st = set_metrics st (metrics_start t0);
     st \<leftarrow> run_pattern (gc_pattern cfg) cfg env th st;
     let st = set_metrics st (metrics_stop t1);
     (sv, s) \<leftarrow> cleanup_streams now th (sim_server st) (sim_arena st);
     Some (st\<lparr>sim_server := sv, sim_arena := s\<rparr>) }"

subsection \<open>Requests\<close>

definition gen_ok :: "GeneratorConfig \<Rightarrow> bool" where
  "gen_ok cfg \<longleftrightarrow> gc_min_payload cfg \<le> gc_max_payload cfg div 2 \<and> gc_max_payload cfg \<le> 2 ^ 63"

lemma payload_ok:
  assumes "gen_ok cfg" "env_ok env"
  shows "\<exists>n. payload_for cfg (re_draw env 1) ty = Some n \<and> n \<le> 2 ^ 63"
proof -
  have D: "lo \<le> hi \<Longrightarrow> lo \<le> re_draw env 1 lo hi \<and> re_draw env 1 lo hi \<le> hi" for lo hi
    using assms(2) by (simp add: env_ok_def)
  have "gc_min_payload cfg \<le> gc_max_payload cfg" "gc_max_payload cfg div 2 \<le> 2 ^ 63"
    using assms(1) by (auto simp: gen_ok_def)
  then show ?thesis using D [of 0 64] D [of 0 32] D [of "gc_min_payload cfg" "gc_max_payload cfg"]
      D [of "gc_min_payload cfg" "gc_max_payload cfg div 2"] assms(1)
    by (cases ty) (auto simp: rand_between_def gen_ok_def)
qed

lemma make_request_ok:
  assumes "gen_ok cfg" "env_ok env"
  shows "\<exists>req. make_request cfg env i = Some req \<and> rq_id req = i \<and> rq_payload_size req \<le> 2 ^ 63"
proof -
  obtain n where "payload_for cfg (re_draw env 1) (type_pool ! re_draw env 0 0 19) = Some n" "n \<le> 2 ^ 63"
    using payload_ok [OF assms] by blast
  then show ?thesis by (simp add: make_request_def random_type_def random_endpoint_def rand_between_def)
qed

subsection \<open>Runs\<close>

definition sim_ok :: "nat \<Rightarrow> live_block multiset \<Rightarrow> sim \<Rightarrow> bool" where
  "sim_ok th M st \<longleftrightarrow>
     tracks (serves th) M (sim_arena st) (ss_stream_buffers (sim_server st))"

definition recorded :: "sim \<Rightarrow> nat" where
  "recorded st = mc_ok (ss_metrics (sim_server st)) + mc_fail (ss_metrics (sim_server st))"

definition advanced :: "nat \<Rightarrow> sim \<Rightarrow> sim \<Rightarrow> bool" where
  "advanced n st st' \<longleftrightarrow> sim_next_id st' = sim_next_id st + n \<and> recorded st' = recorded st + n \<and>
     map fst (sim_progress st') = map fst (sim_progress st) @ [sim_next_id st ..< sim_next_id st + n]"

lemma advanced_refl: "advanced 0 st st"
  by (simp add: advanced_def)

lemma advanced_trans: "advanced m st st1 \<Longrightarrow> advanced n st1 st2 \<Longrightarrow> advanced (m + n) st st2"
proof -
  have "[a ..< a + (m + n)] = [a ..< a + m] @ [a + m ..< a + m + n]" for a :: nat
    using upt_add_eq_append [of a "a + m" n] by (simp add: add.assoc)
  then show "advanced m st st1 \<Longrightarrow> advanced n st1 st2 \<Longrightarrow> ?thesis" by (simp add: advanced_def)
qed

definition room :: "nat \<Rightarrow> sim \<Rightarrow> bool" where
  "room n st \<longleftrightarrow> sim_next_id st + n < 2 ^ 64 \<and> recorded st + n < 2 ^ 64"

lemma room_advanced: "room (m + n) st \<Longrightarrow> advanced m st st' \<Longrightarrow> room n st'"
  unfolding room_def advanced_def by linarith

lemma send_request_ok:
  assumes ok: "sim_ok th M st" and cfg: "gen_ok cfg" and env: "\<forall>i. env_ok (env i)" and rm: "room 1 st"
  shows "\<exists>st'. send_request cfg env th st = Some st' \<and> sim_ok th M st' \<and> advanced 1 st st'"
proof -
  obtain X where X: "serves th (sim_arena st) (mset X + M)" "ss_stream_buffers (sim_server st) = map entry_of X"
    using ok by (auto simp: sim_ok_def tracks_def)
  let ?i = "sim_next_id st"
  obtain req where req: "make_request cfg (env ?i) ?i = Some req" "rq_id req = ?i" "rq_payload_size req \<le> 2 ^ 63"
    using make_request_ok [OF cfg spec [OF env]] by blast
  obtain resp sv s where r: "handle_request (env ?i) th (sim_server st) (sim_arena st) req = Some (resp, sv, s)"
    and sd: "served (env ?i) (sim_server st) th req (mset X + M) resp sv s"
    using handle_request_served [OF X(1) spec [OF env] req(3)] by blast
  obtain Y where Y: "serves th s (mset X + M + mset Y)" "ss_stream_buffers sv = ss_stream_buffers (sim_server st) @ map entry_of Y"
    using sd by (auto simp: served_def)
  let ?st = "st\<lparr>sim_next_id := add64 ?i 1, sim_server := sv, sim_arena := s,
      sim_progress := sim_progress st @ [(rq_id req, gc_total_requests cfg, rs_status resp = StatusOk)]\<rparr>"
  have run: "send_request cfg env th st = Some ?st" using req(1) r by (simp add: send_request_def)
  have "sim_ok th M ?st" unfolding sim_ok_def tracks_def using X(2) Y by (intro exI [of _ "X @ Y"]) (simp add: ac_simps)
  moreover have "mc_ok (ss_metrics sv) + mc_fail (ss_metrics sv) = recorded st + 1"
    using sd rm by (simp add: served_def metrics_record_def recorded_def room_def Let_def)
  then have "advanced 1 st ?st" using rm req(2) by (simp add: advanced_def recorded_def room_def)
  ultimately show ?thesis using run by blast
qed

lemma send_batch_ok:
  assumes "sim_ok th M st" "gen_ok cfg" "\<forall>i. env_ok (env i)" "room n st"
  shows "\<exists>st'. send_batch cfg env th n st = Some st' \<and> sim_ok th M st' \<and> advanced n st st'"
  using assms(1,4)
proof (induction n arbitrary: st)
  case 0
  then show ?case using advanced_refl by simp
next
  case (Suc n)
  have "room 1 st" using Suc.prems(2) by (simp add: room_def)
  then obtain st1 where st1: "send_request cfg env th st = Some st1" "sim_ok th M st1" "advanced 1 st st1"
    using send_request_ok [OF Suc.prems(1) assms(2,3)] by blast
  have "room n st1" using room_advanced [of 1 n st st1] Suc.prems(2) st1(3) by simp
  then show ?case using Suc.IH [OF st1(2)] st1(1) advanced_trans [OF st1(3)] by fastforce
qed

lemma burst_loop_ok:
  assumes "sim_ok th M st" "gen_ok cfg" "\<forall>i. env_ok (env i)" "room n st" "0 < gc_burst_size cfg"
  shows "\<exists>st'. burst_loop cfg env th n st = Some st' \<and> sim_ok th M st' \<and> advanced n st st'"
  using assms(1,4)
proof (induction n arbitrary: st rule: less_induct)
  case (less n)
  show ?case
  proof (cases "n = 0")
    case True
    then show ?thesis using less.prems advanced_refl by (simp add: burst_loop.simps)
  next
    case False
    let ?b = "min (gc_burst_size cfg) n"
    have b: "0 < ?b" "n = ?b + (n - ?b)" "?b \<le> n" using assms(5) False by auto
    then have "room ?b st" using less.prems(2) unfolding room_def by linarith
    then obtain st1 where st1: "send_batch cfg env th ?b st = Some st1" "sim_ok th M st1" "advanced ?b st st1"
      using send_batch_ok [OF less.prems(1) assms(2,3)] by blast
    have "room (n - ?b) st1" using room_advanced [of ?b "n - ?b" st st1] less.prems(2) st1(3) b(2) by simp
    then obtain st2 where st2: "burst_loop cfg env th (n - ?b) st1 = Some st2" "sim_ok th M st2" "advanced (n - ?b) st1 st2"
      using less.IH [of "n - ?b" st1] b False st1(2) by auto
    have "burst_loop cfg env th n st = Some st2"
      using st1(1) st2(1) False by (subst burst_loop.simps) simp
    then show ?thesis using st2(2) advanced_trans [OF st1(3) st2(3)] b(2) by simp
  qed
qed

lemma ramp_loop_ok:
  assumes "sim_ok th M st" "gen_ok cfg" "\<forall>i. env_ok (env i)" "room n st" "k + n = gc_total_requests cfg"
  shows "\<exists>st'. ramp_loop cfg env th k st = Some st' \<and> sim_ok th M st' \<and> advanced n st st'"
  using assms(1,4,5)
proof (induction n arbitrary: st k)
  case 0
  then show ?case using advanced_refl by (simp add: ramp_loop.simps)
next
  case (Suc n)
  have "room 1 st" using Suc.prems(2) by (simp add: room_def)
  then obtain st1 where st1: "send_request cfg env th st = Some st1" "sim_ok th M st1" "advanced 1 st st1"
    using send_request_ok [OF Suc.prems(1) assms(2,3)] by blast
  have "room n st1" using room_advanced [of 1 n st st1] Suc.prems(2) st1(3) by simp
  then obtain st2 where st2: "ramp_loop cfg env th (k + 1) st1 = Some st2" "sim_ok th M st2" "advanced n st1 st2"
    using Suc.IH [OF st1(2), of "k + 1"] Suc.prems(3) by auto
  have "ramp_loop cfg env th k st = Some st2"
    using st1(1) st2(1) Suc.prems(3) by (subst ramp_loop.simps) simp
  then show ?case using st2(2) advanced_trans [OF st1(3) st2(3)] by simp
qed

text \<open>
  With a burst size of 0 the burst phases of the mixed pattern are empty, but the phase after one sends a
  request: \<open>idle\<close> bounds the number of empty phases in a row, also where the phase counter wraps around.
\<close>

definition idle :: "size_t \<Rightarrow> nat" where
  "idle phase = (if phase mod 3 \<noteq> 0 then 0 else if phase = 2 ^ 64 - 1 then 2 else 1)"

lemma idle_decreases: "phase < 2 ^ 64 \<Longrightarrow> phase mod 3 = 0 \<Longrightarrow> idle (add64 phase 1) < idle phase"
  by (cases "phase = 2 ^ 64 - 1") (auto simp: idle_def mod_Suc add64_def)

lemma idle_le: "idle phase \<le> 2"
  by (simp add: idle_def)

lemma idle_measure:
  assumes "b \<le> n" "0 < b \<or> Q" "i' \<le> 2" "Q \<Longrightarrow> i' < i"
  shows "3 * (n - b) + i' < 3 * n + (i :: nat)"
  using assms by (cases "0 < b") auto

lemma mixed_loop_ok:
  assumes "sim_ok th M st" "gen_ok cfg" "\<forall>i. env_ok (env i)" "room n st" "ph < 2 ^ 64"
  shows "\<exists>st'. mixed_loop cfg env th ph n st = Some st' \<and> sim_ok th M st' \<and> advanced n st st'"
  using assms(1,4,5)
proof (induction "3 * n + idle ph" arbitrary: st n ph rule: less_induct)
  case less
  show ?case
  proof (cases "n = 0")
    case True
    then show ?thesis using less.prems advanced_refl by (simp add: mixed_loop.simps)
  next
    case False
    let ?b = "if ph mod 3 = 0 then min (gc_burst_size cfg) (min n (max 1 (n div 5))) else min (max 1 (n div 10)) n"
    have b: "?b \<le> n" "0 < ?b \<or> ph mod 3 = 0" using False by (auto simp: min_def max_def)
    have "room ?b st" using less.prems(2) b(1) unfolding room_def by linarith
    then obtain st1 where st1: "send_batch cfg env th ?b st = Some st1" "sim_ok th M st1" "advanced ?b st st1"
      using send_batch_ok [OF less.prems(1) assms(2,3)] by blast
    have sum: "?b + (n - ?b) = n" using b(1) by (rule le_add_diff_inverse)
    have "room (n - ?b) st1" using room_advanced [of ?b "n - ?b" st st1] less.prems(2) st1(3) unfolding sum by blast
    moreover have "3 * (n - ?b) + idle (add64 ph 1) < 3 * n + idle ph"
      using b idle_le [of "add64 ph 1"] idle_decreases [OF less.prems(3)] by (rule idle_measure)
    moreover have "add64 ph 1 < 2 ^ 64" by (simp add: add64_def)
    ultimately obtain st2 where st2: "mixed_loop cfg env th (add64 ph 1) (n - ?b) st1 = Some st2" "sim_ok th M st2"
      "advanced (n - ?b) st1 st2" using less.hyps [of "n - ?b" "add64 ph 1" st1] st1(2) by blast
    have "mixed_loop cfg env th ph n st = Some st2"
      using st1(1) st2(1) False unfolding mixed_loop.simps [of cfg env th ph n] Let_def by simp
    then show ?thesis using st2(2) advanced_trans [OF st1(3) st2(3)] unfolding sum by blast
  qed
qed

lemma run_pattern_ok:
  assumes "sim_ok th M st" "gen_ok cfg" "\<forall>i. env_ok (env i)" "room (gc_total_requests cfg) st"
    "pat = Burst \<Longrightarrow> 0 < gc_burst_size cfg"
  shows "\<exists>st'. run_pattern pat cfg env th st = Some st' \<and> sim_ok th M st' \<and> advanced (gc_total_requests cfg) st st'"
  using send_batch_ok [OF assms(1-4)] burst_loop_ok [OF assms(1-4)] ramp_loop_ok [OF assms(1-4), of 0]
    mixed_loop_ok [OF assms(1-4), of 0] assms(5)
  by (cases pat) (simp_all add: run_steady_def run_burst_def run_ramp_def run_mixed_def)

lemma generator_run_ok:
  assumes "va_reach s H" "va_tls s th \<noteq> ForeignContext" "gen_ok cfg" "\<forall>i. env_ok (env i)"
    "gc_total_requests cfg < 2 ^ 64 - 1" "gc_pattern cfg = Burst \<Longrightarrow> 0 < gc_burst_size cfg"
  shows "\<exists>st' H'. generator_run cfg env t0 t1 now th
      \<lparr>sim_next_id = 1, sim_server = server_sim lat, sim_arena = s, sim_progress = []\<rparr> = Some st' \<and>
    map fst (sim_progress st') = [1..<gc_total_requests cfg + 1] \<and>
    mc_ok (ss_metrics (sim_server st')) + mc_fail (ss_metrics (sim_server st')) = gc_total_requests cfg \<and>
    ss_stream_buffers (sim_server st') = [] \<and> va_reach (sim_arena st') H' \<and> mset H' = mset H"
proof -
  let ?n = "gc_total_requests cfg"
  let ?st = "set_metrics \<lparr>sim_next_id = 1, sim_server = server_sim lat, sim_arena = s, sim_progress = []\<rparr> (metrics_start t0)"
  have "sim_ok th (mset H) ?st"
    using assms(1,2) by (auto simp: sim_ok_def tracks_def serves_def set_metrics_def server_sim_def)
  moreover have rec0: "recorded ?st = 0" "sim_next_id ?st = 1" "sim_progress ?st = []"
    by (simp_all add: recorded_def set_metrics_def server_sim_def metrics_start_def metrics_init_def)
  moreover from rec0 have "room ?n ?st" using assms(5) by (simp add: room_def)
  ultimately obtain st1 where st1: "run_pattern (gc_pattern cfg) cfg env th ?st = Some st1" "sim_ok th (mset H) st1"
    "advanced ?n ?st st1" using run_pattern_ok [of th "mset H" ?st cfg env "gc_pattern cfg"] assms(3,4,6) by blast
  let ?st2 = "set_metrics st1 (metrics_stop t1)"
  have X: "tracks (serves th) (mset H) (sim_arena ?st2) (ss_stream_buffers (sim_server ?st2))"
    using st1(2) by (simp add: sim_ok_def set_metrics_def)
  obtain s3 where s3: "cleanup_streams now th (sim_server ?st2) (sim_arena ?st2) =
      Some ((sim_server ?st2)\<lparr>ss_stream_buffers := []\<rparr>, s3)" "serves th s3 (mset H)"
    using cleanup_streams_serves [OF X] by blast
  have run: "generator_run cfg env t0 t1 now th
      \<lparr>sim_next_id = 1, sim_server = server_sim lat, sim_arena = s, sim_progress = []\<rparr> =
      Some (?st2\<lparr>sim_server := (sim_server ?st2)\<lparr>ss_stream_buffers := []\<rparr>, sim_arena := s3\<rparr>)"
    using st1(1) s3(1) by (simp add: generator_run_def Let_def)
  obtain H' where "va_reach s3 H'" "mset H' = mset H" using s3(2) by (auto simp: serves_def)
  then show ?thesis using run st1(3) rec0
    by (intro exI [of _ "?st2\<lparr>sim_server := (sim_server ?st2)\<lparr>ss_stream_buffers := []\<rparr>, sim_arena := s3\<rparr>"] exI [of _ H'])
      (simp add: advanced_def recorded_def set_metrics_def metrics_stop_def)
qed

text \<open>C32. A run of the generator ends and is complete, for every traffic pattern, provided that the burst size is positive when the
  pattern is bursts, that the smallest payload is at most half of the largest and that the number of requests is below
  \<open>2 ^ 64 - 1\<close>: exactly the configured number of requests is sent, with consecutive numbers, reported to the callback in order and
  counted as successful or failed, and afterwards every buffer of the run is freed again.\<close>

theorem generator_run_complete:
  assumes "va_reach s H" "va_tls s th \<noteq> ForeignContext" "gen_ok cfg" "\<forall>i. env_ok (env i)"
    "gc_total_requests cfg < 2 ^ 64 - 1" "gc_pattern cfg = Burst \<Longrightarrow> 0 < gc_burst_size cfg"
  shows "\<exists>st' H'. generator_run cfg env t0 t1 now th
      \<lparr>sim_next_id = 1, sim_server = server_sim lat, sim_arena = s, sim_progress = []\<rparr> = Some st' \<and>
    map fst (sim_progress st') = [1..<gc_total_requests cfg + 1] \<and>
    mc_ok (ss_metrics (sim_server st')) + mc_fail (ss_metrics (sim_server st')) = gc_total_requests cfg \<and>
    ss_stream_buffers (sim_server st') = [] \<and> va_reach (sim_arena st') H' \<and> mset H' = mset H"
  using generator_run_ok [OF assms] .

definition demo_gen :: GeneratorConfig where
  "demo_gen = \<lparr>gc_pattern = Mixed, gc_total_requests = 1000, gc_steady_interval = 100, gc_burst_size = 50,
     gc_burst_cooldown = 10, gc_ramp_start_rps = 100, gc_ramp_end_rps = 5000, gc_min_payload = 32, gc_max_payload = 8192\<rparr>"

theorem generator_run_complete_witness:
  "\<exists>s st'. va_reach s [] \<and> generator_run demo_gen (\<lambda>_. demo_env) 0 1 (\<lambda>_. 2) 0
      \<lparr>sim_next_id = 1, sim_server = server_sim 0, sim_arena = s, sim_progress = []\<rparr> = Some st' \<and>
     mc_ok (ss_metrics (sim_server st')) + mc_fail (ss_metrics (sim_server st')) = 1000"
proof -
  obtain s where s: "va_reach s []" "va_tls s 0 \<noteq> ForeignContext" using demo_arena by auto
  have "gen_ok demo_gen" "gc_total_requests demo_gen = 1000" "0 < gc_burst_size demo_gen"
    by (simp_all add: gen_ok_def demo_gen_def)
  then show ?thesis
    using generator_run_complete [OF s, of demo_gen "\<lambda>_. demo_env" 0 1 "\<lambda>_. 2" 0] demo_env_ok s(1) by auto
qed

subsection \<open>A burst size of zero\<close>

lemma burst_zero_loop:
  assumes "burst_loop cfg env th n st = Some st'"
  shows "gc_burst_size cfg = 0 \<longrightarrow> n = 0"
proof (rule burst_loop.raw_induct [where P = "\<lambda>cfg env th n st st'. gc_burst_size cfg = 0 \<longrightarrow> n = 0", OF _ assms], rule impI)
  fix f cfg env th n st st'
  assume IH: "\<And>cfg env th n st st'. f cfg env th n st = Some st' \<Longrightarrow> gc_burst_size cfg = 0 \<longrightarrow> n = 0"
    and step: "(if 0 < n then let batch = min (gc_burst_size cfg) n in
        send_batch cfg env th batch st \<bind> (\<lambda>st. f cfg env th (n - batch) st) else Some st) = Some st'"
    and zero: "gc_burst_size cfg = 0"
  show "n = 0"
  proof (rule ccontr)
    assume "n \<noteq> 0"
    then have "f cfg env th n st = Some st'" using step zero by simp
    then show False using IH zero \<open>n \<noteq> 0\<close> by blast
  qed
qed

text \<open>C33. With a burst size of 0, which the command line accepts, the burst pattern sends empty batches
  for ever.\<close>

theorem burst_zero_diverges:
  assumes "gc_burst_size cfg = 0" "0 < gc_total_requests cfg"
  shows "run_burst cfg env th st = None"
  using burst_zero_loop [of cfg env th "gc_total_requests cfg" st] assms by (cases "run_burst cfg env th st") (auto simp: run_burst_def)

theorem burst_zero_diverges_witness:
  "\<exists>s. va_reach s [] \<and> run_burst (demo_gen\<lparr>gc_burst_size := 0\<rparr>) (\<lambda>_. demo_env) 0
     \<lparr>sim_next_id = 1, sim_server = server_sim 0, sim_arena = s, sim_progress = []\<rparr> = None"
  using burst_zero_diverges [of "demo_gen\<lparr>gc_burst_size := 0\<rparr>"] demo_arena by (auto simp: demo_gen_def)

end
