(* ===== verification/Simulation_Main.thy ===== *)
theory Simulation_Main
  imports Request_Generator
begin

text \<open>
  The simulation program (\<open>src/src/simulation/sim_main.cpp\<close>): command line, usage text, construction of arena,
  server and generator, the run, the progress output and the final report. The argument list is without
  \<open>argv[0]\<close>. How a stream prints a floating-point number with a given precision (\<open>fmt\<close>) and the message of an
  error code are arguments, as is the rounding of \<open>float\<close> (\<open>fl32\<close>) beside that of \<open>double\<close>.
\<close>

record SimArgs =
  sa_arena_mb :: size_t
  sa_requests :: size_t
  sa_pattern :: TrafficPattern
  sa_enable_server :: bool
  sa_port :: nat
  sa_burst_size :: size_t
  sa_show_progress :: bool
  sa_interval_us :: size_t
  sa_sampling :: size_t

definition default_args :: SimArgs where
  "default_args = \<lparr>sa_arena_mb = 4, sa_requests = 1000, sa_pattern = Mixed, sa_enable_server = False, sa_port = 8080,
     sa_burst_size = 50, sa_show_progress = True, sa_interval_us = 100, sa_sampling = 1\<rparr>"

definition parse_pattern :: "string \<Rightarrow> TrafficPattern" where
  "parse_pattern s = (if s = ''steady'' then Steady else if s = ''burst'' then Burst
                      else if s = ''ramp'' then Ramp else Mixed)"

fun pattern_name :: "TrafficPattern \<Rightarrow> string" where
  "pattern_name Steady = ''Steady''"
| "pattern_name Burst = ''Burst''"
| "pattern_name Ramp = ''Ramp''"
| "pattern_name Mixed = ''Mixed''"

subsection \<open>Numbers\<close>

definition is_digit :: "char \<Rightarrow> bool" where
  "is_digit c \<longleftrightarrow> 48 \<le> (of_char c :: nat) \<and> (of_char c :: nat) \<le> 57"

definition is_space :: "char \<Rightarrow> bool" where
  "is_space c \<longleftrightarrow> (of_char c :: nat) = 32 \<or> 9 \<le> (of_char c :: nat) \<and> (of_char c :: nat) \<le> 13"

definition digits_value :: "string \<Rightarrow> nat" where
  "digits_value ds = foldl (\<lambda>v c. 10 * v + (of_char c - 48)) 0 ds"

text \<open>
  \<open>std::stoull\<close> in base 10: white space, an optional sign, digits, and whatever follows ignored. \<open>None\<close> is the
  exception it throws when there is no digit or the value does not fit; a minus sign negates modulo \<open>2 ^ 64\<close>.
\<close>

definition stoull :: "string \<Rightarrow> size_t option" where
  "stoull t =
     (let t = dropWhile is_space t;
          neg = (t \<noteq> [] \<and> hd t = CHR ''-'');
          t = (if t \<noteq> [] \<and> (hd t = CHR ''-'' \<or> hd t = CHR ''+'') then tl t else t);
          ds = takeWhile is_digit t
      in if ds = [] \<or> 2 ^ 64 \<le> digits_value ds then None
         else Some (if neg then sub64 0 (digits_value ds) else digits_value ds))"

subsection \<open>Command line\<close>

text \<open>\<open>Usage\<close>: the help text and exit; \<open>Threw\<close>: an exception of \<open>stoull\<close> leaves \<open>main\<close>.\<close>

datatype parsed = Parsed SimArgs | Usage | Threw

definition with_number :: "string \<Rightarrow> (size_t \<Rightarrow> parsed) \<Rightarrow> parsed" where
  "with_number t f = (case stoull t of None \<Rightarrow> Threw | Some n \<Rightarrow> f n)"

lemma with_number_cong [fundef_cong]: "t = t' \<Longrightarrow> (\<And>n. f n = g n) \<Longrightarrow> with_number t f = with_number t' g"
  by (auto simp: with_number_def split: option.split)

fun parse_args :: "SimArgs \<Rightarrow> string list \<Rightarrow> parsed" where
  "parse_args args [] = Parsed args"
| "parse_args args [a] =
     (if a = ''--help'' \<or> a = ''-h'' then Usage
      else if a = ''--server'' then parse_args (args\<lparr>sa_enable_server := True\<rparr>) []
      else if a = ''--no-progress'' then parse_args (args\<lparr>sa_show_progress := False\<rparr>) []
      else parse_args args [])"
| "parse_args args (a # v # rest) =
     (if a = ''--help'' \<or> a = ''-h'' then Usage
      else if a = ''--arena-mb'' then with_number v (\<lambda>n. parse_args (args\<lparr>sa_arena_mb := n\<rparr>) rest)
      else if a = ''--requests'' then with_number v (\<lambda>n. parse_args (args\<lparr>sa_requests := n\<rparr>) rest)
      else if a = ''--pattern'' then parse_args (args\<lparr>sa_pattern := parse_pattern v\<rparr>) rest
      else if a = ''--burst-size'' then with_number v (\<lambda>n. parse_args (args\<lparr>sa_burst_size := n\<rparr>) rest)
      else if a = ''--interval-us'' then with_number v (\<lambda>n. parse_args (args\<lparr>sa_interval_us := n\<rparr>) rest)
      else if a = ''--sampling'' then with_number v (\<lambda>n. parse_args (args\<lparr>sa_sampling := n\<rparr>) rest)
      else if a = ''--server'' then parse_args (args\<lparr>sa_enable_server := True\<rparr>) (v # rest)
      else if a = ''--port'' then with_number v (\<lambda>n. parse_args (args\<lparr>sa_port := n mod 2 ^ 16\<rparr>) rest)
      else if a = ''--no-progress'' then parse_args (args\<lparr>sa_show_progress := False\<rparr>) (v # rest)
      else parse_args args (v # rest))"

subsection \<open>Printed text\<close>

definition nl :: string where
  "nl = [CHR 0x0A]"

definition print_usage :: "string \<Rightarrow> string" where
  "print_usage prog =
     ''Usage: '' @ prog @ '' [options]'' @ nl @ nl @
     ''Options:'' @ nl @
     ''  --arena-mb <N>       Arena size in MB (default: 4)'' @ nl @
     ''  --requests <N>       Total requests to simulate (default: 1000)'' @ nl @
     ''  --pattern <P>        Traffic pattern: steady|burst|ramp|mixed (default: mixed)'' @ nl @
     ''  --burst-size <N>     Requests per burst (default: 50)'' @ nl @
     ''  --interval-us <N>    Request interval in microseconds (default: 100)'' @ nl @
     ''  --sampling <N>       Event sampling rate (default: 1)'' @ nl @
     ''  --server             Enable WebSocket visualization server'' @ nl @
     ''  --port <N>           Server port (default: 8080)'' @ nl @
     ''  --no-progress        Disable progress output'' @ nl @
     ''  --help               Show this help'' @ nl"

definition print_separator :: string where
  "print_separator = replicate 60 (CHR ''='') @ nl"

definition setw :: "nat \<Rightarrow> string \<Rightarrow> string" where
  "setw n t = replicate (n - length t) (CHR '' '') @ t"

text \<open>A space, the two bytes of the micro sign, the letter s and a newline.\<close>

definition us_nl :: string where
  "us_nl = '' '' @ [CHR 0xC2, CHR 0xB5] @ ''s'' @ nl"

definition print_report ::
    "(real \<Rightarrow> real) \<Rightarrow> (real \<Rightarrow> real) \<Rightarrow> (nat \<Rightarrow> real \<Rightarrow> string) \<Rightarrow> RequestMetrics \<Rightarrow> va_state \<Rightarrow> string" where
  "print_report fl fl32 fmt m arena =
     nl @ print_separator @ ''  SERVER SIMULATION RESULTS'' @ nl @ print_separator @
     nl @ ''  Requests'' @ nl @
     ''    Total:       '' @ dec_string (rm_total_requests m) @ nl @
     ''    Successful:  '' @ dec_string (rm_successful m) @ nl @
     ''    Failed:      '' @ dec_string (rm_failed m) @ nl @
     ''    Success Rate:'' @ setw 7 (fmt 1 (fl (success_rate fl m * 100))) @ '' %'' @ nl @
     nl @ ''  Throughput'' @ nl @
     ''    Duration:    '' @ fmt 3 (rm_elapsed_seconds m) @ '' s'' @ nl @
     ''    Rate:        '' @ fmt 0 (throughput_rps fl m) @ '' req/s'' @ nl @
     nl @ ''  Bandwidth'' @ nl @
     ''    Inbound:     '' @ fmt 2 (bandwidth_in_mbps fl m) @ '' MB/s'' @ nl @
     ''    Outbound:    '' @ fmt 2 (bandwidth_out_mbps fl m) @ '' MB/s'' @ nl @
     ''    Combined:    '' @ fmt 2 (bandwidth_mbps fl m) @ '' MB/s'' @ nl @
     ''    Total In:    '' @ dec_string (rm_total_bytes_in m div 1024) @ '' KB'' @ nl @
     ''    Total Out:   '' @ dec_string (rm_total_bytes_out m div 1024) @ '' KB'' @ nl @
     nl @ ''  Latency'' @ nl @
     ''    Min:         '' @ fmt 1 (rm_min_latency_us m) @ us_nl @
     ''    Avg:         '' @ fmt 1 (rm_avg_latency_us m) @ us_nl @
     ''    P50:         '' @ fmt 1 (rm_p50_latency_us m) @ us_nl @
     ''    P95:         '' @ fmt 1 (rm_p95_latency_us m) @ us_nl @
     ''    P99:         '' @ fmt 1 (rm_p99_latency_us m) @ us_nl @
     ''    Max:         '' @ fmt 1 (rm_max_latency_us m) @ us_nl @
     (let pad = padding_report arena; cache = cache_report arena in
      nl @ ''  Arena'' @ nl @
      ''    Capacity:    '' @ dec_string (va_capacity arena div 1024) @ '' KB'' @ nl @
      ''    Allocated:   '' @ dec_string (va_bytes_allocated arena div 1024) @ '' KB'' @ nl @
      ''    Free:        '' @ dec_string (va_bytes_free arena div 1024) @ '' KB'' @ nl @
      ''    Pad Eff:     '' @ fmt 1 (fl32 (pr_efficiency pad * 100)) @ '' %'' @ nl @
      ''    Cache Util:  '' @ fmt 1 (fl32 (cr_avg_utilization cache * 100)) @ '' %'' @ nl @
      ''    Cache Lines: '' @ dec_string (cr_active_lines cache) @ '' active / '' @
      dec_string (cr_total_lines cache) @ '' total'' @ nl) @
     print_separator @ nl"

definition sim_banner :: "SimArgs \<Rightarrow> string" where
  "sim_banner args =
     nl @ ''  Server Simulation'' @ nl @
     ''  Pattern:    '' @ pattern_name (sa_pattern args) @ nl @
     ''  Requests:   '' @ dec_string (sa_requests args) @ nl @
     ''  Arena:      '' @ dec_string (sa_arena_mb args) @ '' MB'' @ nl @
     (if sa_enable_server args then
        ''  Server:     http://localhost:'' @ dec_string (sa_port args) @ nl @
        (if sa_sampling args > 1 then ''  Sampling:   1/'' @ dec_string (sa_sampling args) @ '' events'' @ nl else [])
      else []) @ nl"

text \<open>The progress callback. A line starts with a carriage return.\<close>

definition progress_text :: "(real \<Rightarrow> real) \<Rightarrow> SimArgs \<Rightarrow> size_t \<times> size_t \<times> bool \<Rightarrow> string" where
  "progress_text fl args x = (case x of (rid, tot, ok) \<Rightarrow>
     let progress_interval = max 1 (sa_requests args div 20);
         percent = nat \<lfloor>fl (fl (100 * fl (real rid)) / fl (real tot))\<rfloor>
     in if sa_show_progress args \<and> rid mod progress_interval = 0
        then [CHR 0x0D] @ ''  Progress: '' @ dec_string percent @ ''% ('' @ dec_string rid @ ''/'' @ dec_string tot @ '')''
        else [])"

definition progress_done :: "SimArgs \<Rightarrow> string" where
  "progress_done args =
     (if sa_show_progress args
      then [CHR 0x0D] @ ''  Progress: 100% ('' @ dec_string (sa_requests args) @ ''/'' @ dec_string (sa_requests args) @ '')    '' @ nl
      else [])"

text \<open>The last line, with the three bytes of a dash.\<close>

definition server_notice :: "SimArgs \<Rightarrow> string" where
  "server_notice args =
     (if sa_enable_server args
      then ''  Server running at http://localhost:'' @ dec_string (sa_port args) @ '' '' @ [CHR 0xE2, CHR 0x80, CHR 0x94] @
           '' press Enter to exit.'' @ nl
      else [])"

subsection \<open>The program\<close>

definition sim_config :: "SimArgs \<Rightarrow> ArenaConfig" where
  "sim_config args = \<lparr>cfg_arena_size = mul64 (mul64 (sa_arena_mb args) 1024) 1024, cfg_cache_line_size = 0,
     cfg_enable_server = sa_enable_server args, cfg_port = sa_port args, cfg_web_root = ''web'',
     cfg_sampling = sa_sampling args\<rparr>"

definition sim_generator :: "SimArgs \<Rightarrow> GeneratorConfig" where
  "sim_generator args = \<lparr>gc_pattern = sa_pattern args, gc_total_requests = sa_requests args,
     gc_steady_interval = sa_interval_us args, gc_burst_size = sa_burst_size args, gc_burst_cooldown = 10,
     gc_ramp_start_rps = 100, gc_ramp_end_rps = 5000, gc_min_payload = 32, gc_max_payload = 8192\<rparr>"

text \<open>
  What surrounds the program: the arguments of \<open>va_create\<close>, the environments of the requests and the clock.
\<close>

record sim_world =
  sw_page_size :: size_t
  sw_mmap :: "size_t \<Rightarrow> nat + addr"
  sw_line_sysconf :: int
  sw_nil :: "nat \<Rightarrow> addr"
  sw_log :: AllocLog
  sw_tls :: "nat \<Rightarrow> tls"
  sw_generation :: size_t
  sw_env :: "nat \<Rightarrow> req_env"
  sw_start :: int
  sw_stop :: int
  sw_now :: "nat \<Rightarrow> int"
  sw_round :: "real \<Rightarrow> real"

text \<open>Exit code, standard output and standard error, or an exception that leaves \<open>main\<close>.\<close>

datatype sim_outcome = Exited nat string string | Uncaught

definition sim_main ::
    "sim_world \<Rightarrow> (real \<Rightarrow> real) \<Rightarrow> (nat \<Rightarrow> real \<Rightarrow> string) \<Rightarrow> (errc \<Rightarrow> string) \<Rightarrow> nat \<Rightarrow> string \<Rightarrow> string list \<Rightarrow> sim_outcome option" where
  "sim_main w fl32 fmt msg th prog argv = (case parse_args default_args argv of
     Threw \<Rightarrow> Some Uncaught
   | Usage \<Rightarrow> Some (Exited 0 (print_usage prog) [])
   | Parsed args \<Rightarrow> do {
       arena_result \<leftarrow> va_create (sw_page_size w) (sw_mmap w) (sw_line_sysconf w) (sw_nil w) (sw_log w) (sw_tls w)
                        (sw_generation w) (sim_config args);
       case arena_result of
         Inl e \<Rightarrow> Some (Exited 1 (sim_banner args) (''ERROR: Failed to create arena: '' @ msg e @ nl))
       | Inr s \<Rightarrow> do {
           st \<leftarrow> generator_run (sim_generator args) (sw_env w) (sw_start w) (sw_stop w) (sw_now w) th
                   \<lparr>sim_next_id = 1, sim_server = server_sim 0, sim_arena = s, sim_progress = []\<rparr>;
           let metrics = metrics_snapshot (sw_round w) (ss_metrics (sim_server st));
           Some (Exited 0 (sim_banner args @ concat (map (progress_text (sw_round w) args) (sim_progress st)) @ progress_done args @
             print_report (sw_round w) fl32 fmt metrics (sim_arena st) @ server_notice args) []) } })"









text \<open>\<open>--help\<close> prints the usage text and nothing is run; a number that cannot be read is not caught.\<close>

lemma sim_main_help: "sim_main w fl32 fmt msg th prog [''--help''] = Some (Exited 0 (print_usage prog) [])"
  by (simp add: sim_main_def)

lemma sim_main_bad_number: "sim_main w fl32 fmt msg th prog [''--requests'', ''many''] = Some Uncaught"
  by (simp add: sim_main_def with_number_def stoull_def is_space_def is_digit_def Let_def)

subsection \<open>Parsing what was printed\<close>

lemma dec_string_digits: "\<forall>c \<in> set (dec_string n). is_digit c"
proof (induction n rule: dec_string.induct)
  case (1 n)
  have "is_digit (char_of (48 + k))" if "k < 10" for k :: nat
    using that by (simp add: is_digit_def)
  then show ?case using 1 by (subst dec_string.simps) auto
qed

lemma dec_string_value: "digits_value (dec_string n) = n"
proof (induction n rule: dec_string.induct)
  case (1 n)
  show ?case
  proof (cases "n < 10")
    case True
    then show ?thesis by (subst dec_string.simps) (simp add: digits_value_def)
  next
    case False
    then show ?thesis using 1 by (subst dec_string.simps) (simp add: digits_value_def)
  qed
qed

lemma dec_string_ne: "dec_string n \<noteq> []"
  by (subst dec_string.simps) simp

lemma stoull_dec: "n < 2 ^ 64 \<Longrightarrow> stoull (dec_string n) = Some n"
proof -
  assume n: "n < 2 ^ 64"
  obtain c ds where c: "dec_string n = c # ds" using dec_string_ne by (cases "dec_string n") auto
  then have d: "is_digit c" using dec_string_digits [of n] by simp
  then have "\<not> is_space c" "c \<noteq> CHR ''-''" "c \<noteq> CHR ''+''" by (auto simp: is_digit_def is_space_def)
  moreover have "takeWhile is_digit (c # ds) = c # ds"
    using dec_string_digits [of n] by (simp add: takeWhile_eq_all_conv c)
  moreover have "digits_value (c # ds) = n" using dec_string_value [of n] by (simp add: c)
  ultimately show ?thesis using n unfolding stoull_def c Let_def by simp
qed

fun pattern_option :: "TrafficPattern \<Rightarrow> string" where
  "pattern_option Steady = ''steady''"
| "pattern_option Burst = ''burst''"
| "pattern_option Ramp = ''ramp''"
| "pattern_option Mixed = ''mixed''"

text \<open>The command line that asks for given settings.\<close>

definition command_line :: "SimArgs \<Rightarrow> string list" where
  "command_line a =
     (if sa_enable_server a then [''--server''] else []) @ (if sa_show_progress a then [] else [''--no-progress'']) @
     [''--arena-mb'', dec_string (sa_arena_mb a), ''--requests'', dec_string (sa_requests a),
      ''--pattern'', pattern_option (sa_pattern a), ''--burst-size'', dec_string (sa_burst_size a),
      ''--interval-us'', dec_string (sa_interval_us a), ''--sampling'', dec_string (sa_sampling a),
      ''--port'', dec_string (sa_port a)]"

text \<open>C35. The parser understands every setting: parsing the command line that spells out the settings \<open>a\<close>
  yields \<open>a\<close>.\<close>

theorem parse_args_roundtrip:
  assumes "sa_arena_mb a < 2 ^ 64" "sa_requests a < 2 ^ 64" "sa_burst_size a < 2 ^ 64" "sa_interval_us a < 2 ^ 64"
    "sa_sampling a < 2 ^ 64" "sa_port a < 2 ^ 16"
  shows "parse_args default_args (command_line a) = Parsed a"
proof -
  have "parse_pattern (pattern_option p) = p" for p by (cases p) (simp_all add: parse_pattern_def)
  moreover have "stoull (dec_string (sa_port a)) = Some (sa_port a)" "sa_port a mod 2 ^ 16 = sa_port a"
    using assms(6) stoull_dec [of "sa_port a"] by simp_all
  ultimately show ?thesis
    using stoull_dec [OF assms(1)] stoull_dec [OF assms(2)] stoull_dec [OF assms(3)] stoull_dec [OF assms(4)] stoull_dec [OF assms(5)]
    by (cases a) (simp add: command_line_def with_number_def default_args_def)
qed

theorem parse_args_roundtrip_witness:
  "parse_args default_args (command_line (default_args\<lparr>sa_requests := 250, sa_pattern := Burst, sa_show_progress := False\<rparr>)) =
     Parsed (default_args\<lparr>sa_requests := 250, sa_pattern := Burst, sa_show_progress := False\<rparr>)"
  by (rule parse_args_roundtrip) (simp_all add: default_args_def)

end
