(* ===== verification/Tracked_Resource.thy ===== *)
theory Tracked_Resource
  imports Block_Pool
begin

text \<open>
  The polymorphic memory resource over the arena (\<open>src/src/allocator/tracked_resource.hpp\<close> and
  \<open>tracked_resource.cpp\<close>). \<open>arena_\<close> is the address of a \<open>VisualizationArena\<close> object or null; the operations get the
  state of the arena it points to. \<open>std::bad_alloc\<close> is a left value.
\<close>

record TrackedResource =
  tr_arena :: "nat option"
  tr_next_tag :: string

datatype exc = bad_alloc

definition tracked_resource :: "nat \<Rightarrow> TrackedResource" where
  "tracked_resource arena = \<lparr>tr_arena = Some arena, tr_next_tag = []\<rparr>"

definition set_next_tag :: "TrackedResource \<Rightarrow> string \<Rightarrow> TrackedResource" where
  "set_next_tag r tag = r\<lparr>tr_next_tag := tag\<rparr>"

definition set_arena :: "TrackedResource \<Rightarrow> nat option \<Rightarrow> TrackedResource" where
  "set_arena r arena = r\<lparr>tr_arena := arena\<rparr>"

definition do_allocate ::
    "AllocationEvent list \<Rightarrow> int \<Rightarrow> nat \<Rightarrow> TrackedResource \<Rightarrow> va_state \<Rightarrow> size_t \<Rightarrow> size_t \<Rightarrow>
     ((exc + addr) \<times> TrackedResource \<times> va_state) option" where
  "do_allocate slots now th r s n alignment =
     (if tr_arena r = None then Some (Inl bad_alloc, r, s)
      else do {
        (p, s) \<leftarrow> alloc_raw slots now s th n alignment (tr_next_tag r);
        let r = r\<lparr>tr_next_tag := []\<rparr>;
        if p = nullptr then Some (Inl bad_alloc, r, s) else Some (Inr p, r, s) })"

definition do_deallocate :: "int \<Rightarrow> nat \<Rightarrow> TrackedResource \<Rightarrow> va_state \<Rightarrow> addr \<Rightarrow> size_t \<Rightarrow> va_state option" where
  "do_deallocate now th r s p n = (if tr_arena r \<noteq> None then dealloc_raw now s th p n else Some s)"

definition do_is_equal :: "addr \<Rightarrow> addr \<Rightarrow> bool" where
  "do_is_equal this other \<longleftrightarrow> this = other"

subsection \<open>The resource as a pool\<close>

definition resource_owns :: "nat \<Rightarrow> TrackedResource \<times> va_state \<Rightarrow> live_block multiset \<Rightarrow> bool" where
  "resource_owns th w M \<longleftrightarrow> serves th (snd w) M \<and> tr_arena (fst w) \<noteq> None"

text \<open>\<open>set_next_tag\<close> followed by \<open>allocate_bytes\<close>, with a null pointer for a caught \<open>bad_alloc\<close>.\<close>

definition resource_alloc ::
    "nat \<Rightarrow> alloc_env \<Rightarrow> TrackedResource \<times> va_state \<Rightarrow> size_t \<Rightarrow> (addr \<times> TrackedResource \<times> va_state) option" where
  "resource_alloc th a w n = (case a of (slots, now, tag) \<Rightarrow> do {
     let r = set_next_tag (fst w) tag;
     (res, r, s) \<leftarrow> do_allocate slots now th r (snd w) n 16;
     Some (case res of Inl _ \<Rightarrow> nullptr | Inr p \<Rightarrow> p, r, s) })"

definition resource_free ::
    "nat \<Rightarrow> int \<Rightarrow> TrackedResource \<times> va_state \<Rightarrow> addr \<Rightarrow> size_t \<Rightarrow> (TrackedResource \<times> va_state) option" where
  "resource_free th now w p n = do { s \<leftarrow> do_deallocate now th (fst w) (snd w) p n; Some (fst w, s) }"

interpretation resource_pool: block_pool "resource_owns th" "resource_alloc th" "resource_free th" arena_req_ok for th
proof (unfold_locales, goal_cases)
  case (1 w M a n)
  obtain slots now tag where a: "a = (slots, now, tag)" by (cases a) auto
  obtain p s' Q where "alloc_raw slots now (snd w) th n 16 tag = Some (p, s')" "buffer_of p n Q" "serves th s' (mset Q + M)"
    using serve_alloc [of th "snd w" M slots n 16 now tag] 1 a by (auto simp: resource_owns_def arena_req_ok_def)
  then show ?case using 1(1)
    by (cases "p = nullptr")
      (auto simp: a resource_alloc_def do_allocate_def set_next_tag_def resource_owns_def Let_def intro!: exI [of _ Q])
next
  case (2 w x M e n)
  then show ?case using serve_free [of th "snd w" x M e n]
    by (auto simp: resource_free_def do_deallocate_def resource_owns_def)
qed

lemma resource_alloc_arena:
  assumes "resource_alloc th (slots, now, tag) w n = Some (p, w')" "tr_arena (fst w) \<noteq> None"
  shows "\<exists>q. alloc_raw slots now (snd w) th n 16 tag = Some (q, snd w')"
  using assms by (auto simp: resource_alloc_def do_allocate_def set_next_tag_def Let_def bind_eq_Some_conv split: if_splits)

interpretation resource_finite: finite_pool "resource_owns th" "resource_alloc th" "resource_free th" arena_req_ok "\<lambda>w. va_capacity (snd w)" for th
proof (unfold_locales, goal_cases)
  case (3 w M a n p w')
  obtain slots now tag where a: "a = (slots, now, tag)" by (cases a) auto
  then show ?case using resource_alloc_arena [of th slots now tag w n p w'] alloc_raw_capacity [of th "snd w" M slots n 16] 3
    by (auto simp: resource_owns_def arena_req_ok_def)
qed (use serves_size serves_block in \<open>fastforce simp: resource_owns_def\<close>)+

subsection \<open>Tags\<close>

text \<open>C36. A tag set with \<open>set_next_tag\<close> marks the next allocation and no other block: \<open>do_allocate\<close> asks the arena for memory and throws
  \<open>bad_alloc\<close> exactly when the arena returns a null pointer, with the live blocks unchanged; otherwise the header of the new block
  carries the first 31 characters of the tag and the headers of all other blocks stay as they are. In both cases the
  tag is used up. Without an arena \<open>bad_alloc\<close> is thrown and the tag is kept.\<close>

theorem tagged_allocation:
  assumes "va_reach s H" "request_ok slots n al" "NUL \<notin> set tag"
  shows "if tr_arena r = None
    then do_allocate slots now th (set_next_tag r tag) s n al = Some (Inl bad_alloc, set_next_tag r tag, s)
    else \<exists>p s'. alloc_raw slots now s th n al tag = Some (p, s') \<and>
      do_allocate slots now th (set_next_tag r tag) s n al =
        Some (if p = nullptr then Inl bad_alloc else Inr p, r\<lparr>tr_next_tag := []\<rparr>, s') \<and>
      (if p = nullptr then va_reach s' H
       else va_reach s' (alloc_block s p n al # H) \<and>
         (\<exists>h. va_headers s' (lb_raw (alloc_block s p n al)) = Some h \<and> c_str (ah_tag h) = take 31 tag) \<and>
         (\<forall>y \<in> set H. va_headers s' (lb_raw y) = va_headers s (lb_raw y)))"
proof (cases "tr_arena r")
  case None
  then show ?thesis by (simp add: do_allocate_def set_next_tag_def)
next
  case (Some y)
  obtain p s' where p: "alloc_raw slots now s th n al tag = Some (p, s')"
    using alloc_raw_inv [OF va_reach_inv [OF assms(1)], of slots n al now th tag] assms(2) by (auto simp: request_ok_def)
  note reach = va_alloc [OF assms(1,2) p]
  have run: "do_allocate slots now th (set_next_tag r tag) s n al =
      Some (if p = nullptr then Inl bad_alloc else Inr p, r\<lparr>tr_next_tag := []\<rparr>, s')"
    using p Some by (simp add: do_allocate_def set_next_tag_def Let_def)
  show ?thesis
  proof (cases "p = nullptr")
    case True
    then show ?thesis using p run reach Some by simp
  next
    case False
    obtain raw h buf where h: "p = raw + offset_to_user al" "va_headers s' = (va_headers s)(raw \<mapsto> h)" "ah_tag h = copy_tag buf tag"
      using alloc_raw_writes [OF p False] by blast
    have raw: "lb_raw (alloc_block s p n al) = raw" by (simp add: alloc_block_def Let_def h(1))
    have "lb_raw (alloc_block s p n al) \<notin> lb_raw ` set H" using va_invD(7) [OF va_reach_inv [OF reach]] False by simp
    then have "\<forall>y \<in> set H. va_headers s' (lb_raw y) = va_headers s (lb_raw y)" unfolding raw by (auto simp: h(2))
    moreover have "va_headers s' (lb_raw (alloc_block s p n al)) = Some h" "c_str (ah_tag h) = take 31 tag"
      using h(2,3) raw c_str_copy_tag [OF assms(3)] by simp_all
    ultimately show ?thesis using False p run reach Some by auto
  qed
qed

theorem tagged_allocation_witness:
  "\<exists>s p s' h. va_reach s [] \<and> do_allocate demo_slots 0 0 (set_next_tag (tracked_resource 7) ''logger'') s 64 16 =
       Some (Inr p, tracked_resource 7, s') \<and> p \<noteq> nullptr \<and> va_headers s' (lb_raw (alloc_block s p 64 16)) = Some h \<and>
     c_str (ah_tag h) = ''logger''"
proof -
  obtain s where s: "va_reach s []" "fresh_arena s" "va_arena s = \<lparr>ar_base = 4096, ar_capacity = 16777216\<rparr>" using demo_arena by blast
  have ok: "request_ok demo_slots 64 16" by (simp add: request_ok_def demo_slots_def align_ok_def)
  have "internal_size_of (64 + 64) = 128" by (simp add: internal_size_eq max_def)
  then obtain p s' where p: "alloc_raw demo_slots 0 s 0 64 16 ''logger'' = Some (p, s')" "p \<noteq> nullptr"
    using fresh_arena_serves [OF va_reach_inv [OF s(1)] s(2) ok, of 0 0 "''logger''"] s(3) by (auto simp: shard_span_def)
  have "(tracked_resource 7)\<lparr>tr_next_tag := []\<rparr> = tracked_resource 7" "tr_arena (tracked_resource 7) \<noteq> None" by (simp_all add: tracked_resource_def)
  then show ?thesis using tagged_allocation [OF s(1) ok, of "''logger''" "tracked_resource 7" 0 0] p s(1) by auto
qed

end
