(* ===== verification/Stress_Tests.thy ===== *)
theory Stress_Tests
  imports Tracked_Resource Server_Sim
begin

text \<open>
  The demo program (\<open>src/src/main.cpp\<close>): stress tests over the memory resource that keep a list of their live
  allocations, the commands that start and stop them, and the start-up of \<open>main\<close>. A stress test runs on a thread \<open>th\<close>
  of its own. What an iteration takes from outside is in its environment \<open>step_env\<close>, among it the value of the flag
  \<open>g_stress_running\<close>, which other threads may change at any time. Printing and sleeping have no effect on the state.
\<close>

record LiveAlloc =
  la_ptr :: addr
  la_size :: size_t

record stress =
  sx_live :: "LiveAlloc list"
  sx_resource :: TrackedResource
  sx_arena :: va_state

record step_env =
  se_running :: bool
  se_draw :: "nat \<Rightarrow> size_t \<Rightarrow> size_t \<Rightarrow> size_t"
  se_slots :: "AllocationEvent list"
  se_now :: int

subsection \<open>Stress tests\<close>

text \<open>The \<open>try\<close> blocks: \<open>False\<close> for a caught \<open>bad_alloc\<close>.\<close>

definition try_push :: "step_env \<Rightarrow> nat \<Rightarrow> string \<Rightarrow> size_t \<Rightarrow> stress \<Rightarrow> (bool \<times> stress) option" where
  "try_push env th tag sz st = do {
     let r = set_next_tag (sx_resource st) tag;
     (res, r, s) \<leftarrow> do_allocate (se_slots env) (se_now env) th r (sx_arena st) sz 16;
     let st = st\<lparr>sx_resource := r, sx_arena := s\<rparr>;
     Some (case res of
       Inl _ \<Rightarrow> (False, st)
     | Inr p \<Rightarrow> (True, st\<lparr>sx_live := sx_live st @ [\<lparr>la_ptr = p, la_size = sz\<rparr>]\<rparr>)) }"

definition free_alloc :: "step_env \<Rightarrow> nat \<Rightarrow> LiveAlloc \<Rightarrow> stress \<Rightarrow> stress option" where
  "free_alloc env th a st = do {
     s \<leftarrow> do_deallocate (se_now env) th (sx_resource st) (sx_arena st) (la_ptr a) (la_size a);
     Some (st\<lparr>sx_arena := s\<rparr>) }"

definition random_burst_step :: "step_env \<Rightarrow> nat \<Rightarrow> nat \<Rightarrow> stress \<Rightarrow> stress option" where
  "random_burst_step env th i st = do {
     action \<leftarrow> rand_between (se_draw env 0) 0 2;
     if action > 0 \<or> sx_live st = [] then do {
       sz \<leftarrow> rand_between (se_draw env 1) 16 2048;
       (_, st) \<leftarrow> try_push env th (''burst_'' @ dec_string i) sz st;
       Some st }
     else do {
       pick \<leftarrow> rand_between (se_draw env 1) 0 (length (sx_live st) - 1);
       st \<leftarrow> free_alloc env th (sx_live st ! pick) st;
       Some (st\<lparr>sx_live := take pick (sx_live st) @ drop (Suc pick) (sx_live st)\<rparr>) } }"

function random_burst_loop :: "(nat \<Rightarrow> step_env) \<Rightarrow> nat \<Rightarrow> nat \<Rightarrow> stress \<Rightarrow> stress option" where
  "random_burst_loop env th i st =
     (if i < 200 \<and> se_running (env i) then do {
        st \<leftarrow> random_burst_step (env i) th i st;
        random_burst_loop env th (i + 1) st }
      else Some st)"
  by pat_completeness auto
termination by (relation "measure (\<lambda>(env, th, i, st). 200 - i)") auto

declare random_burst_loop.simps [simp del]

definition stress_random_burst :: "(nat \<Rightarrow> step_env) \<Rightarrow> nat \<Rightarrow> stress \<Rightarrow> stress option" where
  "stress_random_burst env th st = random_burst_loop env th 0 st"

text \<open>Phase A, with the number of blocks filled in.\<close>

partial_function (option) frag_fill :: "(nat \<Rightarrow> step_env) \<Rightarrow> nat \<Rightarrow> nat \<Rightarrow> stress \<Rightarrow> (nat \<times> stress) option" where
  "frag_fill env th filled st =
     (if se_running (env filled) then do {
        (ok, st) \<leftarrow> try_push (env filled) th (''fill_'' @ dec_string filled) 128 st;
        if ok then frag_fill env th (filled + 1) st else Some (filled, st) }
      else Some (filled, st))"

text \<open>
  Phase B: iteration \<open>k\<close> frees entry \<open>i\<close> and leaves a null pointer in its place. The index is an \<open>int\<close>, converted from the number of
  entries modulo \<open>2 ^ 32\<close>.
\<close>

definition to_int32 :: "nat \<Rightarrow> int" where
  "to_int32 n = (int n + 2 ^ 31) mod 2 ^ 32 - 2 ^ 31"

function frag_free :: "(nat \<Rightarrow> step_env) \<Rightarrow> nat \<Rightarrow> nat \<Rightarrow> int \<Rightarrow> stress \<Rightarrow> stress option" where
  "frag_free env th k i st =
     (if i \<ge> 0 \<and> se_running (env k) then do {
        let a = sx_live st ! nat i;
        st \<leftarrow> free_alloc (env k) th a st;
        let st = st\<lparr>sx_live := (sx_live st)[nat i := a\<lparr>la_ptr := nullptr\<rparr>]\<rparr>;
        frag_free env th (k + 1) (i - 2) st }
      else Some st)"
  by pat_completeness auto
termination by (relation "measure (\<lambda>(env, th, k, i, st). nat (i + 2))") auto

declare frag_free.simps [simp del]

definition stress_frag_storm :: "(nat \<Rightarrow> step_env) \<Rightarrow> nat \<Rightarrow> stress \<Rightarrow> stress option" where
  "stress_frag_storm env th st = do {
     (filled, st) \<leftarrow> frag_fill env th 0 st;
     st \<leftarrow> frag_free env th (filled + 1) (to_int32 (length (sx_live st)) - 1) st;
     Some (st\<lparr>sx_live := filter (\<lambda>a. la_ptr a \<noteq> nullptr) (sx_live st)\<rparr>) }"

definition large_sizes :: "size_t list" where
  "large_sizes = [256, 512, 1024, 2048, 4096, 8192, 16384, 32768, 65536, 131072]"

fun large_loop :: "(nat \<Rightarrow> step_env) \<Rightarrow> nat \<Rightarrow> nat \<Rightarrow> size_t list \<Rightarrow> stress \<Rightarrow> stress option" where
  "large_loop env th k [] st = Some st"
| "large_loop env th k (sz # szs) st =
     (if \<not> se_running (env k) then Some st
      else do {
        (_, st) \<leftarrow> try_push (env k) th (''large_'' @ dec_string sz) sz st;
        large_loop env th (k + 1) szs st })"

definition stress_large_blocks :: "(nat \<Rightarrow> step_env) \<Rightarrow> nat \<Rightarrow> stress \<Rightarrow> stress option" where
  "stress_large_blocks env th st = large_loop env th 0 large_sizes st"

fun cleanup_loop :: "(nat \<Rightarrow> step_env) \<Rightarrow> nat \<Rightarrow> nat \<Rightarrow> LiveAlloc list \<Rightarrow> stress \<Rightarrow> stress option" where
  "cleanup_loop env th k [] st = Some st"
| "cleanup_loop env th k (a # as) st = do {
     st \<leftarrow> free_alloc (env k) th a st;
     cleanup_loop env th (k + 1) as st }"

definition stress_cleanup :: "(nat \<Rightarrow> step_env) \<Rightarrow> nat \<Rightarrow> stress \<Rightarrow> stress option" where
  "stress_cleanup env th st = do {
     st \<leftarrow> cleanup_loop env th 0 (sx_live st) st;
     Some (st\<lparr>sx_live := []\<rparr>) }"

text \<open>The body of the thread a \<open>stress_test\<close> command starts.\<close>

definition stress_thread :: "string \<Rightarrow> (nat \<Rightarrow> step_env) \<Rightarrow> nat \<Rightarrow> stress \<Rightarrow> stress option" where
  "stress_thread pattern env th st =
     (if pattern = ''random_burst'' then stress_random_burst env th st
      else if pattern = ''frag_storm'' then stress_frag_storm env th st
      else if pattern = ''large_blocks'' then stress_large_blocks env th st
      else Some st)"

subsection \<open>The contract of a stress test\<close>

definition la_entry :: "LiveAlloc \<Rightarrow> addr \<times> size_t" where
  "la_entry a = (la_ptr a, la_size a)"

definition senv_ok :: "step_env \<Rightarrow> bool" where
  "senv_ok env \<longleftrightarrow> length (se_slots env) = kEventSlots \<and>
     (\<forall>k lo hi. lo \<le> hi \<longrightarrow> lo \<le> se_draw env k lo hi \<and> se_draw env k lo hi \<le> hi)"

definition live_tracked :: "nat \<Rightarrow> live_block multiset \<Rightarrow> stress \<Rightarrow> bool" where
  "live_tracked th M st \<longleftrightarrow>
     tracks (resource_owns th) M (sx_resource st, sx_arena st) (map la_entry (sx_live st))"

lemma senv_draw: "senv_ok env \<Longrightarrow> lo \<le> hi \<Longrightarrow> lo \<le> se_draw env k lo hi \<and> se_draw env k lo hi \<le> hi"
  by (simp add: senv_ok_def)

lemma try_push_resource_alloc:
  "try_push env th tag sz st =
     map_option (\<lambda>(p, r, s). (p \<noteq> nullptr, st\<lparr>sx_resource := r, sx_arena := s,
       sx_live := (if p = nullptr then sx_live st else sx_live st @ [\<lparr>la_ptr = p, la_size = sz\<rparr>])\<rparr>))
     (resource_alloc th (se_slots env, se_now env, tag) (sx_resource st, sx_arena st) sz)"
  by (auto simp: try_push_def resource_alloc_def Let_def do_allocate_def set_next_tag_def split: option.splits prod.splits bind_splits)

lemma try_push_ok:
  assumes "live_tracked th M st" "senv_ok env" "sz \<le> 2 ^ 32"
  shows "\<exists>ok st'. try_push env th tag sz st = Some (ok, st') \<and> live_tracked th M st' \<and>
    length (sx_live st') = length (sx_live st) + of_bool ok \<and> va_capacity (sx_arena st') = va_capacity (sx_arena st)"
proof -
  let ?a = "(se_slots env, se_now env, tag)" and ?w = "(sx_resource st, sx_arena st)"
  have ok: "arena_req_ok ?a sz" using assms(2,3) by (simp add: arena_req_ok_def senv_ok_def request_ok_16)
  have T: "tracks (resource_owns th) M ?w (map la_entry (sx_live st))" using assms(1) by (simp add: live_tracked_def)
  obtain p w' where p: "resource_alloc th ?a ?w sz = Some (p, w')"
    "tracks (resource_owns th) M w' (if p = nullptr then map la_entry (sx_live st) else map la_entry (sx_live st) @ [(p, sz)])"
    using resource_pool.track_alloc [OF T ok] by blast
  have "va_capacity (snd w') = va_capacity (sx_arena st)" using resource_finite.tracks_limit [OF T ok p(1)] by simp
  then show ?thesis using p
    by (cases w') (auto simp: try_push_resource_alloc live_tracked_def la_entry_def split: if_splits)
qed

lemma free_alloc_resource_free:
  "free_alloc env th a st =
     map_option (\<lambda>(r, s). st\<lparr>sx_arena := s\<rparr>) (resource_free th (se_now env) (sx_resource st, sx_arena st) (la_ptr a) (la_size a))"
  by (auto simp: free_alloc_def resource_free_def split: option.splits bind_splits)

lemma resource_free_keeps: "resource_free th now w p n = Some w' \<Longrightarrow> fst w' = fst w"
  by (auto simp: resource_free_def bind_eq_Some_conv)

text \<open>Freeing entry \<open>i\<close> of a list whose null entries do not count.\<close>

abbreviation non_null :: "LiveAlloc list \<Rightarrow> LiveAlloc list" where
  "non_null L \<equiv> filter (\<lambda>a. la_ptr a \<noteq> nullptr) L"

lemma free_alloc_ok:
  assumes "tracks (resource_owns th) M (sx_resource st, sx_arena st) (map la_entry (A @ a # B))"
  shows "\<exists>st'. free_alloc env th a st = Some st' \<and> sx_live st' = sx_live st \<and>
    tracks (resource_owns th) M (sx_resource st', sx_arena st') (map la_entry (A @ B))"
proof -
  obtain w' where w': "resource_free th (se_now env) (sx_resource st, sx_arena st) (la_ptr a) (la_size a) = Some w'"
    "tracks (resource_owns th) M w' (map la_entry (A @ B))"
    using resource_pool.track_free [OF assms, of "length A" "se_now env" "la_size a"] by (auto simp: la_entry_def nth_append)
  then show ?thesis using resource_free_keeps [OF w'(1)]
    by (cases w') (auto simp: free_alloc_resource_free)
qed

subsection \<open>Random bursts, large blocks and clean-up\<close>

lemma random_burst_step_ok:
  assumes "live_tracked th M st" "senv_ok env"
  shows "\<exists>st'. random_burst_step env th i st = Some st' \<and> live_tracked th M st'"
proof (cases "se_draw env 0 0 2 > 0 \<or> sx_live st = []")
  case True
  have "se_draw env 1 16 2048 \<le> 2 ^ 32" using senv_draw [OF assms(2), of 16 2048 1] by simp
  from try_push_ok [OF assms this, of "''burst_'' @ dec_string i"] True show ?thesis
    by (auto simp: random_burst_step_def rand_between_def)
next
  case False
  define pick where "pick = se_draw env 1 0 (length (sx_live st) - 1)"
  have "pick \<le> length (sx_live st) - 1" using assms(2) by (auto simp: senv_ok_def pick_def)
  then have pick: "pick < length (sx_live st)" using False by (cases "sx_live st") auto
  then have "sx_live st = take pick (sx_live st) @ sx_live st ! pick # drop (Suc pick) (sx_live st)" by (rule id_take_nth_drop)
  with free_alloc_ok [of th M st "take pick (sx_live st)" "sx_live st ! pick" "drop (Suc pick) (sx_live st)" env] assms(1)
  obtain st' where "free_alloc env th (sx_live st ! pick) st = Some st'" "sx_live st' = sx_live st"
    "tracks (resource_owns th) M (sx_resource st', sx_arena st') (map la_entry (take pick (sx_live st) @ drop (Suc pick) (sx_live st)))"
    unfolding live_tracked_def by metis
  then show ?thesis using False by (simp add: random_burst_step_def rand_between_def pick_def live_tracked_def)
qed

lemma random_burst_loop_ok:
  assumes "live_tracked th M st" "\<forall>k. senv_ok (env k)"
  shows "\<exists>st'. random_burst_loop env th i st = Some st' \<and> live_tracked th M st'"
  using assms
proof (induction env th i st rule: random_burst_loop.induct)
  case (1 env th i st)
  show ?case
  proof (cases "i < 200 \<and> se_running (env i)")
    case True
    obtain st1 where "random_burst_step (env i) th i st = Some st1" "live_tracked th M st1"
      using random_burst_step_ok [OF 1(2)] 1(3) by blast
    then show ?thesis using 1(1) [OF True] 1(3) True by (subst random_burst_loop.simps) auto
  next
    case False
    then show ?thesis using 1(2) by (subst random_burst_loop.simps) auto
  qed
qed

lemma large_loop_ok:
  assumes "live_tracked th M st" "\<forall>k. senv_ok (env k)" "\<forall>sz \<in> set szs. sz \<le> 2 ^ 32"
  shows "\<exists>st'. large_loop env th k szs st = Some st' \<and> live_tracked th M st'"
  using assms
proof (induction szs arbitrary: k st)
  case (Cons sz szs)
  then obtain ok st1 where "try_push (env k) th (''large_'' @ dec_string sz) sz st = Some (ok, st1)" "live_tracked th M st1"
    using try_push_ok [of th M st "env k" sz "''large_'' @ dec_string sz"] by (simp, blast)
  then show ?case using Cons.IH [of st1 "k + 1"] Cons.prems by simp
qed simp

lemma cleanup_loop_ok:
  assumes "tracks (resource_owns th) M (sx_resource st, sx_arena st) (map la_entry as)"
  shows "\<exists>st'. cleanup_loop env th k as st = Some st' \<and> tracks (resource_owns th) M (sx_resource st', sx_arena st') []"
  using assms
proof (induction as arbitrary: k st)
  case (Cons a as)
  then obtain st1 where "free_alloc (env k) th a st = Some st1" "tracks (resource_owns th) M (sx_resource st1, sx_arena st1) (map la_entry as)"
    using free_alloc_ok [of th M st "[]" a as "env k"] by auto
  then show ?case using Cons.IH by auto
qed simp

lemma stress_cleanup_ok:
  assumes "live_tracked th M st"
  shows "\<exists>st'. stress_cleanup env th st = Some st' \<and> sx_live st' = [] \<and> resource_owns th (sx_resource st', sx_arena st') M"
  using cleanup_loop_ok [of th M st "sx_live st" env 0] assms
  by (auto simp: stress_cleanup_def live_tracked_def resource_pool.tracks_nil)

subsection \<open>The fragmentation storm\<close>

lemma frag_fill_ok:
  assumes "live_tracked th M st" "\<forall>k. senv_ok (env k)"
  shows "\<exists>n st'. frag_fill env th k st = Some (n, st') \<and> live_tracked th M st'"
  using assms(1)
proof (induction "va_capacity (sx_arena st) - length (sx_live st)" arbitrary: k st rule: less_induct)
  case less
  show ?case
  proof (cases "se_running (env k)")
    case True
    obtain ok st1 where st1: "try_push (env k) th (''fill_'' @ dec_string k) 128 st = Some (ok, st1)" "live_tracked th M st1"
      "length (sx_live st1) = length (sx_live st) + of_bool ok" "va_capacity (sx_arena st1) = va_capacity (sx_arena st)"
      using try_push_ok [OF less.prems, of "env k" 128 "''fill_'' @ dec_string k"] assms(2) by (simp, blast)
    have "length (sx_live st1) \<le> va_capacity (sx_arena st1)"
      using resource_finite.tracks_size [OF st1(2) [unfolded live_tracked_def]] by simp
    then have "ok \<Longrightarrow> \<exists>n st'. frag_fill env th (k + 1) st1 = Some (n, st') \<and> live_tracked th M st'"
      using st1(2-4) by (intro less.hyps) auto
    then show ?thesis using st1(1,2) True by (subst frag_fill.simps) simp
  next
    case False
    then show ?thesis using less.prems by (subst frag_fill.simps) auto
  qed
qed

lemma non_null_upd:
  assumes "i < length L" "la_ptr (L ! i) \<noteq> nullptr"
  shows "non_null L = non_null (take i L) @ L ! i # non_null (drop (Suc i) L)"
    "non_null (L[i := (L ! i)\<lparr>la_ptr := nullptr\<rparr>]) = non_null (take i L) @ non_null (drop (Suc i) L)"
proof -
  have "non_null (take i L @ L ! i # drop (Suc i) L) = non_null (take i L) @ L ! i # non_null (drop (Suc i) L)"
    using assms(2) by simp
  then show "non_null L = non_null (take i L) @ L ! i # non_null (drop (Suc i) L)"
    using id_take_nth_drop [OF assms(1)] by metis
  show "non_null (L[i := (L ! i)\<lparr>la_ptr := nullptr\<rparr>]) = non_null (take i L) @ non_null (drop (Suc i) L)"
    by (simp add: upd_conv_take_nth_drop [OF assms(1)])
qed

lemma frag_free_ok:
  assumes "tracks (resource_owns th) M (sx_resource st, sx_arena st) (map la_entry (non_null (sx_live st)))"
    "i < int (length (sx_live st))" "\<forall>j. int j \<le> i \<longrightarrow> la_ptr (sx_live st ! j) \<noteq> nullptr"
  shows "\<exists>st'. frag_free env th k i st = Some st' \<and>
    tracks (resource_owns th) M (sx_resource st', sx_arena st') (map la_entry (non_null (sx_live st')))"
  using assms
proof (induction env th k i st rule: frag_free.induct)
  case (1 env th k i st)
  show ?case
  proof (cases "i \<ge> 0 \<and> se_running (env k)")
    case True
    let ?L = "sx_live st" and ?a = "sx_live st ! nat i"
    have i: "nat i < length ?L" "la_ptr ?a \<noteq> nullptr" using True 1(3,4) by auto
    note nn = non_null_upd [OF i]
    obtain st1 where st1: "free_alloc (env k) th ?a st = Some st1" "sx_live st1 = ?L"
      "tracks (resource_owns th) M (sx_resource st1, sx_arena st1) (map la_entry (non_null (take (nat i) ?L) @ non_null (drop (Suc (nat i)) ?L)))"
      using free_alloc_ok [OF 1(2) [unfolded nn(1)]] by blast
    let ?st = "st1\<lparr>sx_live := ?L[nat i := ?a\<lparr>la_ptr := nullptr\<rparr>]\<rparr>"
    have "tracks (resource_owns th) M (sx_resource ?st, sx_arena ?st) (map la_entry (non_null (sx_live ?st)))"
      using st1(3) nn(2) by simp
    moreover have "\<forall>j. int j \<le> i - 2 \<longrightarrow> la_ptr (sx_live ?st ! j) \<noteq> nullptr" using 1(4) by (auto simp: nth_list_update_neq)
    moreover have "i - 2 < int (length (sx_live ?st))" using 1(3) by simp
    ultimately show ?thesis using 1(1) [OF True refl st1(1) refl] st1 True by (subst frag_free.simps) (auto simp: Let_def)
  next
    case False
    then show ?thesis using 1(2) by (subst frag_free.simps) auto
  qed
qed

lemma to_int32_le: "to_int32 n \<le> int n"
  using zmod_le_nonneg_dividend [of "int n + 2 ^ 31" "2 ^ 32"] by (simp add: to_int32_def)

lemma stress_frag_storm_ok:
  assumes "live_tracked th M st" "\<forall>k. senv_ok (env k)"
  shows "\<exists>st'. stress_frag_storm env th st = Some st' \<and> live_tracked th M st'"
proof -
  obtain n st1 where st1: "frag_fill env th 0 st = Some (n, st1)" "live_tracked th M st1"
    using frag_fill_ok [OF assms] by blast
  note T = st1(2) [unfolded live_tracked_def]
  have nn: "la_ptr a \<noteq> nullptr" if "a \<in> set (sx_live st1)" for a
    using resource_finite.tracks_address [OF T, of "la_ptr a" "la_size a"] that by (force simp: la_entry_def)
  then have "non_null (sx_live st1) = sx_live st1" by (simp add: filter_id_conv)
  then obtain st2 where "frag_free env th (n + 1) (to_int32 (length (sx_live st1)) - 1) st1 = Some st2"
    "tracks (resource_owns th) M (sx_resource st2, sx_arena st2) (map la_entry (non_null (sx_live st2)))"
    using frag_free_ok [of th M st1 "to_int32 (length (sx_live st1)) - 1" env "n + 1"] T nn to_int32_le [of "length (sx_live st1)"] by auto
  then show ?thesis using st1(1) by (auto simp: stress_frag_storm_def live_tracked_def)
qed

subsection \<open>Commands\<close>

text \<open>
  The JSON parser is an argument; \<open>None\<close> is its exception. Any other exception (a member that is not a string)
  is caught in the same place. A command may start a thread.
\<close>

datatype spawned = StressThread string | CleanupThread | BurstThread

definition json_member :: "json \<Rightarrow> string \<Rightarrow> json option" where
  "json_member j key = (case j of JObj ms \<Rightarrow> map_of ms key | _ \<Rightarrow> None)"

definition json_string :: "json \<Rightarrow> string option" where
  "json_string j = (case j of JStr t \<Rightarrow> Some t | _ \<Rightarrow> None)"

definition handle_command :: "(string \<Rightarrow> json option) \<Rightarrow> string \<Rightarrow> bool \<Rightarrow> bool \<times> spawned option" where
  "handle_command parse msg running =
     (case parse msg of
        None \<Rightarrow> (running, None)
      | Some j \<Rightarrow>
          (case json_member j ''command'' of
             None \<Rightarrow> (running, None)
           | Some c \<Rightarrow>
               (case json_string c of
                  None \<Rightarrow> (running, None)
                | Some cmd \<Rightarrow>
                    if cmd = ''stress_test'' then
                      if running then (running, None)
                      else
                        (case (case json_member j ''pattern'' of None \<Rightarrow> Some ''random_burst'' | Some p \<Rightarrow> json_string p) of
                           None \<Rightarrow> (running, None)
                         | Some pattern \<Rightarrow> (True, Some (StressThread pattern)))
                    else if cmd = ''cleanup'' then ((if running then False else running), Some CleanupThread)
                    else if cmd = ''stop'' then (False, None)
                    else (running, None))))"

text \<open>The command handler \<open>main\<close> installs.\<close>

definition main_command :: "(string \<Rightarrow> json option) \<Rightarrow> string \<Rightarrow> bool \<Rightarrow> bool \<times> spawned option" where
  "main_command parse msg running =
     (case parse msg of
        None \<Rightarrow> (running, None)
      | Some j \<Rightarrow>
          if json_member j ''command'' = Some (JStr ''stress_test'') then
            if running then (running, None) else (True, Some BurstThread)
          else if json_member j ''command'' = Some (JStr ''stop'') then (False, None)
          else (running, None))"

text \<open>The thread it starts: blocks that are allocated and freed at once.\<close>

fun main_burst :: "(nat \<Rightarrow> step_env) \<Rightarrow> nat \<Rightarrow> nat \<Rightarrow> nat \<Rightarrow> va_state \<Rightarrow> va_state option" where
  "main_burst env th i 0 s = Some s"
| "main_burst env th i (Suc n) s =
     (if se_running (env i) then do {
        (p, s) \<leftarrow> alloc_raw (se_slots (env i)) (se_now (env i)) s th 128 16 ''burst'';
        s \<leftarrow> dealloc_raw (se_now (env i)) s th p 128;
        main_burst env th (i + 1) n s }
      else Some s)"

definition main_burst_thread :: "(nat \<Rightarrow> step_env) \<Rightarrow> nat \<Rightarrow> va_state \<Rightarrow> va_state option" where
  "main_burst_thread env th s = main_burst env th 0 100 s"

subsection \<open>Start-up\<close>

definition demo_sizes :: "(size_t \<times> string) list" where
  "demo_sizes = [(64, ''config''), (128, ''logger''), (256, ''thread_pool''), (512, ''io_buffer''), (1024, ''texture_a''),
     (2048, ''mesh_data''), (4096, ''audio_buf'')]"

text \<open>Here \<open>bad_alloc\<close> is not caught.\<close>

fun startup_loop :: "(nat \<Rightarrow> step_env) \<Rightarrow> nat \<Rightarrow> nat \<Rightarrow> (size_t \<times> string) list \<Rightarrow> stress \<Rightarrow> (exc option \<times> stress) option" where
  "startup_loop env th i [] st = Some (None, st)"
| "startup_loop env th i ((sz, tag) # rest) st = do {
     (ok, st) \<leftarrow> try_push (env i) th tag sz st;
     if ok then startup_loop env th (i + 1) rest st else Some (Some bad_alloc, st) }"

definition run_startup_demo :: "(nat \<Rightarrow> step_env) \<Rightarrow> nat \<Rightarrow> stress \<Rightarrow> (exc option \<times> stress) option" where
  "run_startup_demo env th st = startup_loop env th 0 demo_sizes st"

definition main_config :: "string \<Rightarrow> ArenaConfig" where
  "main_config web_root = \<lparr>cfg_arena_size = 64 * 1024 * 1024, cfg_cache_line_size = 0, cfg_enable_server = True,
     cfg_port = 8080, cfg_web_root = web_root, cfg_sampling = 1\<rparr>"

definition main_web_root :: "(string \<Rightarrow> bool) \<Rightarrow> string \<Rightarrow> string option" where
  "main_web_root exists exe_web =
     (if exists exe_web then Some exe_web else if exists ''web'' then Some ''web'' else None)"

fun main_startup :: "(nat \<Rightarrow> step_env) \<Rightarrow> nat \<Rightarrow> nat \<Rightarrow> string list \<Rightarrow> va_state \<Rightarrow> va_state option" where
  "main_startup env th i [] s = Some s"
| "main_startup env th i (tag # tags) s = do {
     (_, s) \<leftarrow> alloc_raw (se_slots (env i)) (se_now (env i)) s th 1024 16 tag;
     main_startup env th (i + 1) tags s }"

text \<open>\<open>main\<close> up to its endless loop: \<open>Inl 1\<close> is its exit code, \<open>Inr\<close> the arena it goes on serving.\<close>

definition demo_main ::
    "(string \<Rightarrow> bool) \<Rightarrow> string \<Rightarrow> size_t \<Rightarrow> (size_t \<Rightarrow> nat + addr) \<Rightarrow> int \<Rightarrow> (nat \<Rightarrow> addr) \<Rightarrow> AllocLog \<Rightarrow> (nat \<Rightarrow> tls) \<Rightarrow> size_t \<Rightarrow>
     (nat \<Rightarrow> step_env) \<Rightarrow> nat \<Rightarrow> (nat + va_state) option" where
  "demo_main exists exe_web ps mm ls nilp g tls0 gen env th =
     (case main_web_root exists exe_web of
        None \<Rightarrow> Some (Inl 1)
      | Some web_root \<Rightarrow> do {
          va_result \<leftarrow> va_create ps mm ls nilp g tls0 gen (main_config web_root);
          case va_result of
            Inl e \<Rightarrow> Some (Inl 1)
          | Inr s \<Rightarrow> do { s \<leftarrow> main_startup env th 0 [''config'', ''logger'', ''thread_pool''] s; Some (Inr s) } })"

subsection \<open>Correctness\<close>

lemma stress_thread_ok:
  assumes "live_tracked th M st" "\<forall>k. senv_ok (env k)"
  shows "\<exists>st'. stress_thread pattern env th st = Some st' \<and> live_tracked th M st'"
  using random_burst_loop_ok [OF assms] stress_frag_storm_ok [OF assms] large_loop_ok [OF assms, of large_sizes] assms(1)
  by (simp add: stress_thread_def stress_random_burst_def stress_large_blocks_def large_sizes_def)

lemma live_tracked_thread: "live_tracked th M st \<Longrightarrow> va_tls (sx_arena st) th' \<noteq> ForeignContext \<Longrightarrow> live_tracked th' M st"
  by (auto simp: live_tracked_def tracks_def resource_owns_def serves_def)

text \<open>C10. Every stress test ends, whatever its random draws are and whenever it is told to stop: the fragmentation storm
  fills the arena only as long as there is room. Its list of live allocations then still names exactly the blocks that
  are its own, each once, and a clean-up on any thread frees them all and leaves the other blocks of the arena alone.\<close>

theorem stress_tests_end_and_clean_up:
  assumes "live_tracked th M st" "\<forall>k. senv_ok (env k)"
  shows "\<exists>st'. stress_thread pattern env th st = Some st' \<and> live_tracked th M st' \<and>
    (va_tls (sx_arena st') th' \<noteq> ForeignContext \<longrightarrow>
      (\<exists>st''. stress_cleanup env' th' st' = Some st'' \<and> sx_live st'' = [] \<and> serves th' (sx_arena st'') M \<and>
         va_bytes_allocated (sx_arena st'') = sum_mset (image_mset lb_actual M)))"
proof -
  obtain st' where st': "stress_thread pattern env th st = Some st'" "live_tracked th M st'"
    using stress_thread_ok [OF assms] by blast
  have "\<exists>st''. stress_cleanup env' th' st' = Some st'' \<and> sx_live st'' = [] \<and> serves th' (sx_arena st'') M"
    if "va_tls (sx_arena st') th' \<noteq> ForeignContext"
    using stress_cleanup_ok [OF live_tracked_thread [OF st'(2) that]] by (auto simp: resource_owns_def)
  then show ?thesis using st' serves_bytes by blast
qed

definition demo_step :: step_env where
  "demo_step = \<lparr>se_running = True, se_draw = (\<lambda>k lo hi. hi), se_slots = demo_slots, se_now = 0\<rparr>"

lemma demo_step_ok: "senv_ok demo_step"
  by (simp add: senv_ok_def demo_step_def demo_slots_def)

theorem stress_tests_end_and_clean_up_witness:
  "\<exists>s st' st''. va_reach s [] \<and>
     stress_thread ''frag_storm'' (\<lambda>_. demo_step) 0 \<lparr>sx_live = [], sx_resource = tracked_resource 7, sx_arena = s\<rparr> = Some st' \<and>
     stress_cleanup (\<lambda>_. demo_step) 0 st' = Some st'' \<and> sx_live st'' = [] \<and> va_bytes_allocated (sx_arena st'') = 0"
proof -
  obtain s where s: "va_reach s []" "va_tls s 0 \<noteq> ForeignContext" using demo_arena by auto
  let ?st = "\<lparr>sx_live = [], sx_resource = tracked_resource 7, sx_arena = s\<rparr>"
  have "live_tracked 0 {#} ?st"
    using s by (auto simp: live_tracked_def resource_pool.tracks_nil resource_owns_def serves_def tracked_resource_def)
  from stress_tests_end_and_clean_up [OF this, of "\<lambda>_. demo_step" "''frag_storm''" 0 "\<lambda>_. demo_step"] demo_step_ok
  obtain st' where st': "stress_thread ''frag_storm'' (\<lambda>_. demo_step) 0 ?st = Some st'" "live_tracked 0 {#} st'"
    "va_tls (sx_arena st') 0 \<noteq> ForeignContext \<longrightarrow> (\<exists>st''. stress_cleanup (\<lambda>_. demo_step) 0 st' = Some st'' \<and> sx_live st'' = [] \<and>
       va_bytes_allocated (sx_arena st'') = 0)" by auto
  have "va_tls (sx_arena st') 0 \<noteq> ForeignContext"
    using st'(2) by (auto simp: live_tracked_def tracks_def resource_owns_def serves_def)
  then show ?thesis using st' s(1) by blast
qed

lemma main_burst_ok:
  assumes "serves th s M" "\<forall>k. senv_ok (env k)"
  shows "\<exists>s'. main_burst env th i n s = Some s' \<and> serves th s' M"
  using assms(1)
proof (induction n arbitrary: i s)
  case (Suc n)
  have "request_ok (se_slots (env i)) 128 16" using assms(2) by (simp add: senv_ok_def request_ok_16)
  then obtain p s1 Q where p: "alloc_raw (se_slots (env i)) (se_now (env i)) s th 128 16 ''burst'' = Some (p, s1)"
    "buffer_of p 128 Q" "serves th s1 (mset Q + M)"
    using serve_alloc [OF Suc.prems] by blast
  obtain s2 where "dealloc_raw (se_now (env i)) s1 th p 128 = Some s2" "serves th s2 M"
  proof (cases "p = nullptr")
    case True
    then show ?thesis using that [of s1] p(2,3) by (simp add: buffer_of_def dealloc_raw_def)
  next
    case False
    then show ?thesis using arena_pool.free_buffer [OF p(3,2) False, of "se_now (env i)" 128] that by (auto simp: arena_free_def)
  qed
  then show ?case using p(1) Suc.IH [of s2 "i + 1"] Suc.prems by simp
qed simp

lemma main_burst_thread_ok:
  "serves th s M \<Longrightarrow> \<forall>k. senv_ok (env k) \<Longrightarrow> \<exists>s'. main_burst_thread env th s = Some s' \<and> serves th s' M"
  using main_burst_ok by (simp add: main_burst_thread_def)

text \<open>A \<open>stop\<close> only clears the flag, so a test can be started before the last one has noticed.\<close>

lemma restart_after_stop:
  assumes "parse stop_msg = Some (JObj [(''command'', JStr ''stop'')])" "parse start_msg = Some (JObj [(''command'', JStr ''stress_test'')])"
  shows "main_command parse start_msg (fst (main_command parse stop_msg True)) = (True, Some BurstThread)"
  using assms by (simp add: main_command_def json_member_def)

lemma main_startup_ok:
  assumes "serves th s M" "\<forall>k. senv_ok (env k)"
  shows "\<exists>s' Q. main_startup env th i tags s = Some s' \<and> serves th s' (mset Q + M) \<and> length Q \<le> length tags \<and> (\<forall>x \<in> set Q. lb_size x = 1024)"
  using assms(1)
proof (induction tags arbitrary: i s M)
  case (Cons tag tags)
  have "request_ok (se_slots (env i)) 1024 16" using assms(2) by (simp add: senv_ok_def request_ok_16)
  then obtain p s1 Q where p: "alloc_raw (se_slots (env i)) (se_now (env i)) s th 1024 16 tag = Some (p, s1)"
    "buffer_of p 1024 Q" "serves th s1 (mset Q + M)"
    using serve_alloc [OF Cons.prems] by blast
  obtain s2 Q2 where s2: "main_startup env th (i + 1) tags s1 = Some s2" "serves th s2 (mset Q2 + (mset Q + M))"
    "length Q2 \<le> length tags" "\<forall>x \<in> set Q2. lb_size x = 1024"
    using Cons.IH [OF p(3)] by blast
  have "length Q \<le> 1" "\<forall>x \<in> set Q. lb_size x = 1024" using p(2) by (auto simp: buffer_of_def split: if_splits)
  then show ?case using p(1) s2 by (intro exI [of _ s2] exI [of _ "Q2 @ Q"]) (auto simp: ac_simps)
qed (auto intro: exI [of _ "[]"])

text \<open>\<open>main\<close> either exits with code 1 or serves an arena with at most the three blocks of its start-up.\<close>

lemma demo_main_serves:
  assumes "\<And>root. config_ok ps mm nilp tls0 (main_config root)" "tls0 th \<noteq> ForeignContext" "\<forall>k. senv_ok (env k)"
  shows "\<exists>r. demo_main exists exe_web ps mm ls nilp g tls0 gen env th = Some r \<and>
    (case r of Inl c \<Rightarrow> c = 1 | Inr s \<Rightarrow> \<exists>M. serves th s M \<and> size M \<le> 3)"
proof (cases "main_web_root exists exe_web")
  case None
  then show ?thesis by (simp add: demo_main_def)
next
  case (Some root)
  obtain r where r: "va_create ps mm ls nilp g tls0 gen (main_config root) = Some r" using va_create_inv [OF assms(1)] by blast
  show ?thesis
  proof (cases r)
    case (Inl e)
    then show ?thesis using Some r by (simp add: demo_main_def)
  next
    case (Inr s)
    have "va_reach s []" using va_start [OF assms(1)] r Inr by blast
    moreover have "va_tls s th \<noteq> ForeignContext"
      using r Inr assms(2) by (auto simp: va_create_def Let_def bind_eq_Some_conv split: sum.splits)
    ultimately have "serves th s {#}" by (auto simp: serves_def)
    from main_startup_ok [OF this assms(3), of 0 "[''config'', ''logger'', ''thread_pool'']"]
    obtain s' Q where "main_startup env th 0 [''config'', ''logger'', ''thread_pool''] s = Some s'" "serves th s' (mset Q)" "length Q \<le> 3"
      by (auto simp: eval_nat_numeral)
    then show ?thesis using Some r Inr by (auto simp: demo_main_def simp del: main_startup.simps intro!: exI [of _ "mset Q"])
  qed
qed

end
