(* ===== verification/Arena_Objects.thy ===== *)
theory Arena_Objects
  imports Tracked_Resource
begin

text \<open>
  The lifetime of \<open>VisualizationArena\<close> objects (\<open>src/src/interface/visualization_arena.cpp\<close>): construction at the end of
  \<open>create\<close>, moves, destruction, and the two threads that work on the implementation behind an object. Objects are
  known by their address, implementations by a number; both are maps, so what is destroyed is gone. A thread is
  known by the implementation it works on. \<open>None\<close>: a call that never returns (a \<open>join\<close> of a thread that does not end), a
  thread that uses a destroyed implementation, or a call of \<open>std::terminate\<close>.
\<close>

record Impl =
  im_running :: bool
  im_server :: bool
  im_server_stopped :: bool
  im_resource :: "TrackedResource option"

record va_object =
  vo_impl :: "nat option"
  vo_batcher_thread :: "nat option"
  vo_server_thread :: "nat option"

record world =
  wo_objects :: "nat \<rightharpoonup> va_object"
  wo_impls :: "nat \<rightharpoonup> Impl"

definition default_object :: va_object where
  "default_object = \<lparr>vo_impl = None, vo_batcher_thread = None, vo_server_thread = None\<rparr>"

subsection \<open>Operations\<close>

text \<open>The end of \<open>create\<close>: the object at \<open>a\<close> gets the new implementation \<open>i\<close>, its resource and, with a server, its threads.\<close>

definition va_make :: "world \<Rightarrow> nat \<Rightarrow> nat \<Rightarrow> bool \<Rightarrow> world" where
  "va_make w a i enable_server =
     w\<lparr>wo_impls := (wo_impls w)(i \<mapsto> \<lparr>im_running = True, im_server = enable_server, im_server_stopped = False,
                                  im_resource = Some (tracked_resource a)\<rparr>),
       wo_objects := (wo_objects w)(a \<mapsto> \<lparr>vo_impl = Some i,
                                  vo_batcher_thread = (if enable_server then Some i else None),
                                  vo_server_thread = (if enable_server then Some i else None)\<rparr>)\<rparr>"

definition stop_impl :: "world \<Rightarrow> nat option \<Rightarrow> world" where
  "stop_impl w impl = (case impl of
     None \<Rightarrow> w
   | Some i \<Rightarrow> w\<lparr>wo_impls := (wo_impls w)(i := map_option (\<lambda>im. im\<lparr>im_running := False,
                   im_server_stopped := (if im_server im then True else im_server_stopped im)\<rparr>) (wo_impls w i))\<rparr>)"

text \<open>The batcher thread ends when it finds \<open>running\<close> false; the server thread when its server was stopped or there is none.\<close>

definition join_batcher :: "world \<Rightarrow> nat option \<Rightarrow> unit option" where
  "join_batcher w t = (case t of None \<Rightarrow> Some ()
   | Some i \<Rightarrow> do { im \<leftarrow> wo_impls w i; if im_running im then None else Some () })"

definition join_server :: "world \<Rightarrow> nat option \<Rightarrow> unit option" where
  "join_server w t = (case t of None \<Rightarrow> Some ()
   | Some i \<Rightarrow> do { im \<leftarrow> wo_impls w i; if im_server im \<and> \<not> im_server_stopped im then None else Some () })"

definition stop_threads :: "world \<Rightarrow> nat \<Rightarrow> world option" where
  "stop_threads w a = do {
     ob \<leftarrow> wo_objects w a;
     let w = stop_impl w (vo_impl ob);
     join_batcher w (vo_batcher_thread ob);
     join_server w (vo_server_thread ob);
     Some (w\<lparr>wo_objects := (wo_objects w)(a \<mapsto> ob\<lparr>vo_batcher_thread := None, vo_server_thread := None\<rparr>)\<rparr>) }"

definition drop_impl :: "world \<Rightarrow> nat option \<Rightarrow> world" where
  "drop_impl w impl = (case impl of None \<Rightarrow> w | Some i \<Rightarrow> w\<lparr>wo_impls := (wo_impls w)(i := None)\<rparr>)"

text \<open>The destructor; a \<open>std::thread\<close> that is still joinable when it is destroyed or assigned to terminates the program.\<close>

definition va_destroy :: "world \<Rightarrow> nat \<Rightarrow> world option" where
  "va_destroy w a = do {
     w \<leftarrow> stop_threads w a;
     ob \<leftarrow> wo_objects w a;
     if vo_server_thread ob \<noteq> None \<or> vo_batcher_thread ob \<noteq> None then None
     else Some (drop_impl (w\<lparr>wo_objects := (wo_objects w)(a := None)\<rparr>) (vo_impl ob)) }"

definition update_resource :: "world \<Rightarrow> nat option \<Rightarrow> nat \<Rightarrow> world" where
  "update_resource w impl this = (case impl of
     None \<Rightarrow> w
   | Some i \<Rightarrow> w\<lparr>wo_impls := (wo_impls w)(i := map_option (\<lambda>im. im\<lparr>im_resource :=
                   map_option (\<lambda>r. set_arena r (Some this)) (im_resource im)\<rparr>) (wo_impls w i))\<rparr>)"

definition va_move_assign :: "world \<Rightarrow> nat \<Rightarrow> nat \<Rightarrow> world option" where
  "va_move_assign w this other =
     (if this \<noteq> other then do {
        w \<leftarrow> stop_threads w this;
        ob \<leftarrow> wo_objects w this;
        src \<leftarrow> wo_objects w other;
        let w = drop_impl w (vo_impl ob);
        if vo_batcher_thread ob \<noteq> None \<or> vo_server_thread ob \<noteq> None then None
        else do {
          let w = w\<lparr>wo_objects := (wo_objects w)(this \<mapsto> src, other \<mapsto> default_object)\<rparr>;
          Some (update_resource w (vo_impl src) this) } }
      else Some w)"

definition va_move :: "world \<Rightarrow> nat \<Rightarrow> nat \<Rightarrow> world option" where
  "va_move w this other = va_move_assign (w\<lparr>wo_objects := (wo_objects w)(this \<mapsto> default_object)\<rparr>) this other"

definition va_resource :: "world \<Rightarrow> nat \<Rightarrow> TrackedResource option" where
  "va_resource w a = do { ob \<leftarrow> wo_objects w a; i \<leftarrow> vo_impl ob; im \<leftarrow> wo_impls w i; im_resource im }"

text \<open>\<open>create\<close> as its caller sees it: the local object is moved into the result at \<open>a\<close> and destroyed.\<close>

definition va_create_object :: "world \<Rightarrow> nat \<Rightarrow> nat \<Rightarrow> nat \<Rightarrow> bool \<Rightarrow> world option" where
  "va_create_object w local a i enable_server = do {
     w \<leftarrow> va_move (va_make w local i enable_server) a local;
     va_destroy w local }"

subsection \<open>Ownership\<close>

text \<open>
  Every implementation has one owner, to which its resource points, and the threads of an object work on its own implementation.
\<close>

definition impl_owner :: "world \<Rightarrow> nat \<Rightarrow> nat option" where
  "impl_owner w i = do { im \<leftarrow> wo_impls w i; r \<leftarrow> im_resource im; tr_arena r }"

definition object_ok :: "world \<Rightarrow> nat \<Rightarrow> va_object \<Rightarrow> bool" where
  "object_ok w a ob \<longleftrightarrow> (\<forall>i. vo_impl ob = Some i \<longrightarrow> impl_owner w i = Some a) \<and>
     vo_batcher_thread ob \<in> {None, vo_impl ob} \<and> vo_server_thread ob \<in> {None, vo_impl ob}"

definition objects_owned :: "world \<Rightarrow> bool" where
  "objects_owned w \<longleftrightarrow> (\<forall>a ob. wo_objects w a = Some ob \<longrightarrow> object_ok w a ob) \<and>
     (\<forall>i. wo_impls w i \<noteq> None \<longrightarrow> (\<exists>a ob. wo_objects w a = Some ob \<and> vo_impl ob = Some i))"

lemma ownedI:
  assumes "\<And>a ob. wo_objects w a = Some ob \<Longrightarrow> object_ok w a ob"
    "\<And>i im. wo_impls w i = Some im \<Longrightarrow> \<exists>a ob. wo_objects w a = Some ob \<and> vo_impl ob = Some i"
  shows "objects_owned w"
  using assms by (auto simp: objects_owned_def)

lemma ownedD:
  assumes "objects_owned w"
  shows "wo_objects w a = Some ob \<Longrightarrow> object_ok w a ob"
    "wo_impls w i = Some im \<Longrightarrow> \<exists>a ob. wo_objects w a = Some ob \<and> vo_impl ob = Some i"
  using assms by (auto simp: objects_owned_def)

lemma owned_unique:
  assumes "objects_owned w" "wo_objects w a = Some ob" "wo_objects w b = Some ob'" "vo_impl ob = Some i" "vo_impl ob' = Some i"
  shows "a = b"
  using ownedD(1) [OF assms(1,2)] ownedD(1) [OF assms(1,3)] assms(4,5) by (simp add: object_ok_def)

lemma impl_owner_alive: "impl_owner w i = Some a \<Longrightarrow> \<exists>im. wo_impls w i = Some im"
  by (auto simp: impl_owner_def bind_eq_Some_conv)

lemma owned_make:
  assumes "objects_owned w" "wo_objects w a = None" "wo_impls w i = None"
  shows "objects_owned (va_make w a i e)"
proof (rule ownedI)
  fix b ob assume b: "wo_objects (va_make w a i e) b = Some ob"
  show "object_ok (va_make w a i e) b ob"
  proof (cases "b = a")
    case True
    then show ?thesis using b by (auto simp: object_ok_def va_make_def impl_owner_def tracked_resource_def)
  next
    case False
    then have "object_ok w b ob" using b ownedD(1) [OF assms(1)] by (simp add: va_make_def)
    then show ?thesis using assms(3) by (auto simp: object_ok_def va_make_def impl_owner_def)
  qed
next
  fix j im assume "wo_impls (va_make w a i e) j = Some im"
  then have "j = i \<or> wo_impls w j = Some im" by (simp add: va_make_def split: if_splits)
  then consider "j = i" | b ob where "wo_objects w b = Some ob" "vo_impl ob = Some j" "b \<noteq> a"
    using ownedD(2) [OF assms(1)] assms(2) by fastforce
  then show "\<exists>a' ob. wo_objects (va_make w a i e) a' = Some ob \<and> vo_impl ob = Some j"
    by cases (auto simp: va_make_def)
qed

lemma impl_owner_objects [simp]: "impl_owner (w\<lparr>wo_objects := f\<rparr>) = impl_owner w"
  by (simp add: impl_owner_def fun_eq_iff)

lemma stop_impl_owner [simp]:
  "impl_owner (stop_impl w impl) = impl_owner w" "wo_objects (stop_impl w impl) = wo_objects w"
  "wo_impls (stop_impl w impl) i = None \<longleftrightarrow> wo_impls w i = None"
  by (auto simp: stop_impl_def impl_owner_def fun_eq_iff map_option_case split: option.splits)

lemma stop_threads_owned:
  assumes "objects_owned w" "wo_objects w a = Some ob"
  shows "\<exists>w'. stop_threads w a = Some w' \<and> objects_owned w' \<and>
    wo_objects w' = (wo_objects w)(a \<mapsto> ob\<lparr>vo_batcher_thread := None, vo_server_thread := None\<rparr>)"
proof -
  let ?w = "stop_impl w (vo_impl ob)" and ?ob = "ob\<lparr>vo_batcher_thread := None, vo_server_thread := None\<rparr>"
  have ok: "object_ok w a ob" using ownedD(1) [OF assms] .
  have join: "join_batcher ?w (vo_batcher_thread ob) = Some ()" "join_server ?w (vo_server_thread ob) = Some ()"
  proof -
    have "wo_impls ?w i = map_option (\<lambda>im. im\<lparr>im_running := False, im_server_stopped := (if im_server im then True else im_server_stopped im)\<rparr>) (wo_impls w i)"
      "\<exists>im. wo_impls w i = Some im" if "vo_impl ob = Some i" for i
      using that impl_owner_alive [of w i a] ok by (auto simp: stop_impl_def object_ok_def)
    then show "join_batcher ?w (vo_batcher_thread ob) = Some ()" "join_server ?w (vo_server_thread ob) = Some ()"
      using ok by (fastforce simp: join_batcher_def join_server_def object_ok_def split: option.splits)+
  qed
  let ?w' = "?w\<lparr>wo_objects := (wo_objects ?w)(a \<mapsto> ?ob)\<rparr>"
  have "objects_owned ?w'"
  proof (rule ownedI)
    fix b x assume "wo_objects ?w' b = Some x"
    then show "object_ok ?w' b x" using ok ownedD(1) [OF assms(1), of b x]
      by (auto simp: object_ok_def split: if_splits)
  next
    fix j im assume "wo_impls ?w' j = Some im"
    then have "wo_impls w j \<noteq> None" using stop_impl_owner(3) [of w "vo_impl ob" j] by auto
    then obtain b x where "wo_objects w b = Some x" "vo_impl x = Some j" using ownedD(2) [OF assms(1)] by blast
    then show "\<exists>b x. wo_objects ?w' b = Some x \<and> vo_impl x = Some j"
      using assms(2) by (cases "b = a") auto
  qed
  then show ?thesis using assms(2) join by (simp add: stop_threads_def Let_def)
qed

lemma drop_owner:
  "wo_objects (drop_impl w impl) = wo_objects w"
  "impl_owner (drop_impl w impl) i = (if impl = Some i then None else impl_owner w i)"
  "wo_impls (drop_impl w impl) i = (if impl = Some i then None else wo_impls w i)"
  by (auto simp: drop_impl_def impl_owner_def split: option.splits)

lemma va_destroy_owned:
  assumes "objects_owned w" "wo_objects w a = Some ob"
  shows "\<exists>w'. va_destroy w a = Some w' \<and> objects_owned w' \<and> wo_objects w' = (wo_objects w)(a := None)"
proof -
  obtain u where u: "stop_threads w a = Some u" "objects_owned u"
    "wo_objects u = (wo_objects w)(a \<mapsto> ob\<lparr>vo_batcher_thread := None, vo_server_thread := None\<rparr>)"
    using stop_threads_owned [OF assms] by blast
  let ?u = "u\<lparr>wo_objects := (wo_objects u)(a := None)\<rparr>"
  let ?w' = "drop_impl ?u (vo_impl ob)"
  have ua: "wo_objects u a = Some (ob\<lparr>vo_batcher_thread := None, vo_server_thread := None\<rparr>)" using u(3) by simp
  have "objects_owned ?w'"
  proof (rule ownedI)
    fix b x assume b: "wo_objects ?w' b = Some x"
    then have bu: "wo_objects u b = Some x" "b \<noteq> a" by (auto simp: drop_owner split: if_splits)
    have "vo_impl x \<noteq> vo_impl ob \<or> vo_impl x = None" using owned_unique [OF u(2) bu(1) ua] bu(2) by (cases "vo_impl x") auto
    then show "object_ok ?w' b x" using ownedD(1) [OF u(2) bu(1)] by (auto simp: object_ok_def drop_owner)
  next
    fix j im assume "wo_impls ?w' j = Some im"
    then have j: "wo_impls u j = Some im" "vo_impl ob \<noteq> Some j" by (auto simp: drop_owner split: if_splits)
    obtain b x where "wo_objects u b = Some x" "vo_impl x = Some j" using ownedD(2) [OF u(2) j(1)] by blast
    then show "\<exists>b x. wo_objects ?w' b = Some x \<and> vo_impl x = Some j" using j(2) ua by (cases "b = a") (auto simp: drop_owner)
  qed
  moreover have "wo_objects ?w' = (wo_objects w)(a := None)" by (simp add: drop_owner u(3))
  ultimately show ?thesis using u(1) ua by (auto simp: va_destroy_def)
qed

lemma update_resource_owner:
  assumes "\<And>i. impl = Some i \<Longrightarrow> impl_owner w i \<noteq> None"
  shows "wo_objects (update_resource w impl this) = wo_objects w"
    "impl_owner (update_resource w impl this) i = (if impl = Some i then Some this else impl_owner w i)"
    "wo_impls (update_resource w impl this) i = None \<longleftrightarrow> wo_impls w i = None"
  using assms
  by (auto simp: update_resource_def impl_owner_def set_arena_def bind_eq_Some_conv split: option.splits)

lemma va_move_assign_owned:
  assumes "objects_owned w" "wo_objects w this = Some ob" "wo_objects w other = Some src" "this \<noteq> other"
  shows "\<exists>w'. va_move_assign w this other = Some w' \<and> objects_owned w' \<and>
    wo_objects w' = (wo_objects w)(this \<mapsto> src, other \<mapsto> default_object)"
proof -
  obtain u where u: "stop_threads w this = Some u" "objects_owned u"
    "wo_objects u = (wo_objects w)(this \<mapsto> ob\<lparr>vo_batcher_thread := None, vo_server_thread := None\<rparr>)"
    using stop_threads_owned [OF assms(1,2)] by blast
  let ?v = "(drop_impl u (vo_impl ob))\<lparr>wo_objects := (wo_objects u)(this \<mapsto> src, other \<mapsto> default_object)\<rparr>"
  define w' where "w' = update_resource ?v (vo_impl src) this"
  have ut: "wo_objects u this = Some (ob\<lparr>vo_batcher_thread := None, vo_server_thread := None\<rparr>)"
    and uo: "wo_objects u other = Some src" using u(3) assms(3,4) by auto
  have so: "object_ok u other src" using ownedD(1) [OF u(2) uo] .
  have ne: "vo_impl src \<noteq> vo_impl ob \<or> vo_impl src = None"
    using owned_unique [OF u(2) uo ut] assms(4) by (cases "vo_impl src") auto
  have pre: "impl_owner ?v i \<noteq> None" if "vo_impl src = Some i" for i
    using that so ne by (auto simp: drop_owner object_ok_def)
  note upd = update_resource_owner [of "vo_impl src" ?v this, OF pre]
  have io: "impl_owner w' i = (if vo_impl src = Some i then Some this else if vo_impl ob = Some i then None else impl_owner u i)"
    and alive: "wo_impls w' i = None \<longleftrightarrow> wo_impls (drop_impl u (vo_impl ob)) i = None" for i
    using upd(2,3) [of i] by (simp_all add: w'_def drop_owner)
  have obj: "wo_objects w' = (wo_objects w)(this \<mapsto> src, other \<mapsto> default_object)" using u(3) upd(1) by (simp add: w'_def)
  have "objects_owned w'"
  proof (rule ownedI)
    fix b x assume b: "wo_objects w' b = Some x"
    consider "b = this" "x = src" | "x = default_object" | "b \<noteq> this" "b \<noteq> other" "wo_objects u b = Some x"
      using b assms(4) u(3) unfolding obj by (auto split: if_splits)
    then show "object_ok w' b x"
    proof cases
      case 1
      then show ?thesis using so ne by (auto simp: object_ok_def io)
    next
      case 2
      then show ?thesis by (simp add: object_ok_def default_object_def)
    next
      case 3
      have "vo_impl x \<noteq> vo_impl ob \<or> vo_impl x = None" using owned_unique [OF u(2) 3(3) ut] 3(1) by (cases "vo_impl x") auto
      moreover have "vo_impl x \<noteq> vo_impl src \<or> vo_impl x = None" using owned_unique [OF u(2) 3(3) uo] 3(2) by (cases "vo_impl x") auto
      ultimately show ?thesis using ownedD(1) [OF u(2) 3(3)] by (auto simp: object_ok_def io)
    qed
  next
    fix j im assume "wo_impls w' j = Some im"
    then have "wo_impls (drop_impl u (vo_impl ob)) j \<noteq> None" using alive [of j] by simp
    then have j: "wo_impls u j \<noteq> None" "vo_impl ob \<noteq> Some j" by (auto simp: drop_owner split: if_splits)
    obtain b x where b: "wo_objects u b = Some x" "vo_impl x = Some j" using ownedD(2) [OF u(2)] j(1) by blast
    then have "b \<noteq> this" using ut j(2) by auto
    then show "\<exists>b x. wo_objects w' b = Some x \<and> vo_impl x = Some j"
      unfolding obj using b u(3) uo assms(4) by (cases "b = other") (auto intro: exI [of _ this] exI [of _ b])
  qed
  moreover have "va_move_assign w this other = Some w'"
    using assms(4) u(1) ut uo by (simp add: va_move_assign_def Let_def drop_owner w'_def)
  ultimately show ?thesis using obj by blast
qed

lemma va_move_owned:
  assumes "objects_owned w" "wo_objects w this = None" "wo_objects w other = Some src"
  shows "\<exists>w'. va_move w this other = Some w' \<and> objects_owned w' \<and>
    wo_objects w' = (wo_objects w)(this \<mapsto> src, other \<mapsto> default_object)"
proof -
  let ?w = "w\<lparr>wo_objects := (wo_objects w)(this \<mapsto> default_object)\<rparr>"
  have ne: "this \<noteq> other" using assms(2,3) by auto
  have "objects_owned ?w"
  proof (rule ownedI)
    fix b x assume "wo_objects ?w b = Some x"
    then show "object_ok ?w b x" using ownedD(1) [OF assms(1), of b x] by (auto simp: object_ok_def default_object_def split: if_splits)
  next
    fix i im assume "wo_impls ?w i = Some im"
    then obtain b x where "wo_objects w b = Some x" "vo_impl x = Some i" using ownedD(2) [OF assms(1), of i im] by auto
    then show "\<exists>b x. wo_objects ?w b = Some x \<and> vo_impl x = Some i" using assms(2) by (auto intro!: exI [of _ b])
  qed
  from va_move_assign_owned [OF this, of this default_object other src] ne assms(3) show ?thesis by (simp add: va_move_def)
qed

subsection \<open>Programs\<close>

text \<open>Programs that construct, move, assign and destroy arenas.\<close>

inductive object_reach :: "world \<Rightarrow> bool" where
  no_objects: "object_reach \<lparr>wo_objects = Map.empty, wo_impls = Map.empty\<rparr>"
| make: "object_reach w \<Longrightarrow> wo_objects w local = None \<Longrightarrow> wo_objects w a = None \<Longrightarrow> local \<noteq> a \<Longrightarrow> wo_impls w i = None \<Longrightarrow>
    va_create_object w local a i e = Some w' \<Longrightarrow> object_reach w'"
| move: "object_reach w \<Longrightarrow> wo_objects w this = None \<Longrightarrow> wo_objects w other = Some src \<Longrightarrow>
    va_move w this other = Some w' \<Longrightarrow> object_reach w'"
| assign: "object_reach w \<Longrightarrow> wo_objects w this = Some ob \<Longrightarrow> wo_objects w other = Some src \<Longrightarrow>
    va_move_assign w this other = Some w' \<Longrightarrow> object_reach w'"
| destroy: "object_reach w \<Longrightarrow> wo_objects w a = Some ob \<Longrightarrow> va_destroy w a = Some w' \<Longrightarrow> object_reach w'"

lemma va_create_object_owned:
  assumes "objects_owned w" "wo_objects w local = None" "wo_objects w a = None" "local \<noteq> a" "wo_impls w i = None"
  shows "\<exists>w'. va_create_object w local a i e = Some w' \<and> objects_owned w' \<and>
    (\<exists>ob. wo_objects w' = (wo_objects w)(a \<mapsto> ob) \<and> vo_impl ob = Some i)"
proof -
  let ?w = "va_make w local i e"
  have "objects_owned ?w" using owned_make [OF assms(1,2,5)] .
  moreover obtain ob where ob: "wo_objects ?w = (wo_objects w)(local \<mapsto> ob)" "vo_impl ob = Some i" by (simp add: va_make_def)
  ultimately obtain u where u: "va_move ?w a local = Some u" "objects_owned u"
    "wo_objects u = (wo_objects ?w)(a \<mapsto> ob, local \<mapsto> default_object)"
    using va_move_owned [of ?w a local ob] assms(3,4) by auto
  obtain w' where w': "va_destroy u local = Some w'" "objects_owned w'" "wo_objects w' = (wo_objects u)(local := None)"
    using va_destroy_owned [OF u(2), of local default_object] u(3) by auto
  have "wo_objects w' = (wo_objects w)(a \<mapsto> ob)" using w'(3) u(3) ob(1) assms(2,4) by (auto simp: fun_eq_iff)
  then show ?thesis using u(1) w'(1,2) ob(2) by (auto simp: va_create_object_def)
qed

lemma va_move_assign_self: "objects_owned w \<Longrightarrow> wo_objects w a = Some ob \<Longrightarrow> va_move_assign w a a = Some w"
  by (simp add: va_move_assign_def)

lemma object_reach_owned: "object_reach w \<Longrightarrow> objects_owned w"
proof (induction rule: object_reach.induct)
  case no_objects
  then show ?case by (simp add: objects_owned_def)
next
  case (make w local a i e w')
  then show ?case using va_create_object_owned [OF make.IH make(2-5), of e] make(6) by auto
next
  case (move w this other src w')
  then show ?case using va_move_owned [OF move.IH move(2,3)] by auto
next
  case (assign w this ob other src w')
  then show ?case using va_move_assign_owned [OF assign.IH assign(2,3)] va_move_assign_self [OF assign.IH assign(2)]
    by (cases "this = other") auto
next
  case (destroy w a ob w')
  then show ?case using va_destroy_owned [OF destroy.IH destroy(2)] by auto
qed

text \<open>C9. The lifetime of arenas is safe, for every program that creates, moves, assigns and destroys them: no thread outlives
  the implementation it works on, the resource of an arena points to the object that owns it, also after moves, and
  destruction and move assignment always return, that is, every join ends and no joinable thread is lost.\<close>

theorem arena_objects_safe:
  assumes "object_reach w" "wo_objects w a = Some ob"
  shows "(\<forall>i. Some i \<in> {vo_impl ob, vo_batcher_thread ob, vo_server_thread ob} \<longrightarrow> wo_impls w i \<noteq> None) \<and>
    (\<forall>r. va_resource w a = Some r \<longrightarrow> tr_arena r = Some a) \<and>
    (\<exists>w'. va_destroy w a = Some w' \<and> wo_objects w' = (wo_objects w)(a := None) \<and> (\<forall>i. vo_impl ob = Some i \<longrightarrow> wo_impls w' i = None)) \<and>
    (\<forall>b ob'. wo_objects w b = Some ob' \<and> a \<noteq> b \<longrightarrow> (\<exists>w'. va_move_assign w a b = Some w' \<and>
        wo_objects w' a = Some ob' \<and> wo_objects w' b = Some default_object \<and> (\<forall>i. vo_impl ob = Some i \<longrightarrow> wo_impls w' i = None)))"
proof -
  have ow: "objects_owned w" using object_reach_owned [OF assms(1)] .
  note ok = ownedD(1) [OF ow assms(2)]
  have gone: "wo_impls w' i = None" if "objects_owned w'" "vo_impl ob = Some i" "\<And>b x. wo_objects w' b = Some x \<Longrightarrow> vo_impl x \<noteq> Some i" for w' i
    using ownedD(2) [OF that(1), of i] that(3) by (cases "wo_impls w' i") auto
  have alive: "wo_impls w i \<noteq> None" if "Some i \<in> {vo_impl ob, vo_batcher_thread ob, vo_server_thread ob}" for i
    using that ok impl_owner_alive [of w i a] by (auto simp: object_ok_def)
  moreover have "tr_arena r = Some a" if "va_resource w a = Some r" for r
    using that ok assms(2) by (auto simp: va_resource_def object_ok_def impl_owner_def bind_eq_Some_conv)
  moreover have "\<exists>w'. va_destroy w a = Some w' \<and> wo_objects w' = (wo_objects w)(a := None) \<and> (\<forall>i. vo_impl ob = Some i \<longrightarrow> wo_impls w' i = None)"
  proof -
    obtain w' where w': "va_destroy w a = Some w'" "objects_owned w'" "wo_objects w' = (wo_objects w)(a := None)"
      using va_destroy_owned [OF ow assms(2)] by blast
    have "vo_impl x \<noteq> Some i" if "wo_objects w' b = Some x" "vo_impl ob = Some i" for b x i
      using that owned_unique [OF ow assms(2), of b x i] w'(3) by (auto split: if_splits)
    then show ?thesis using w' gone [OF w'(2)] by blast
  qed
  moreover have "\<exists>w'. va_move_assign w a b = Some w' \<and> wo_objects w' a = Some ob' \<and> wo_objects w' b = Some default_object \<and>
      (\<forall>i. vo_impl ob = Some i \<longrightarrow> wo_impls w' i = None)" if b: "wo_objects w b = Some ob'" "a \<noteq> b" for b ob'
  proof -
    obtain w' where w': "va_move_assign w a b = Some w'" "objects_owned w'" "wo_objects w' = (wo_objects w)(a \<mapsto> ob', b \<mapsto> default_object)"
      using va_move_assign_owned [OF ow assms(2) b] by blast
    have "vo_impl x \<noteq> Some i" if "wo_objects w' c = Some x" "vo_impl ob = Some i" for c x i
      using that owned_unique [OF ow assms(2), of c x i] owned_unique [OF ow assms(2) b(1), of i] b(2) w'(3)
      by (auto simp: default_object_def split: if_splits)
    then show ?thesis using w' gone [OF w'(2)] b(2) by auto
  qed
  ultimately show ?thesis by blast
qed

theorem arena_objects_safe_witness:
  "\<exists>w ob w'. object_reach w \<and> wo_objects w 1 = Some ob \<and> vo_impl ob = Some 7 \<and> va_destroy w 1 = Some w' \<and> wo_impls w' 7 = None"
proof -
  let ?w = "\<lparr>wo_objects = Map.empty, wo_impls = Map.empty\<rparr>"
  obtain w ob where w: "va_create_object ?w 0 1 7 True = Some w" "wo_objects w 1 = Some ob" "vo_impl ob = Some 7"
    using va_create_object_owned [OF object_reach_owned [OF no_objects], of 0 1 7 True] by auto
  have "object_reach w" using make [OF no_objects, of 0 1 7 True w] w(1) by simp
  from arena_objects_safe [OF this w(2)] this w show ?thesis by blast
qed

subsection \<open>Typed allocation\<close>

text \<open>
  \<open>alloc<T>\<close> and \<open>dealloc<T>\<close> (\<open>visualization_arena.hpp\<close>) for a type of size \<open>sz\<close> and alignment \<open>al\<close>: the constructor is
  the list of bytes it leaves in the object, the destructor does not touch the arena.
\<close>

definition typed_alloc ::
    "AllocationEvent list \<Rightarrow> int \<Rightarrow> va_state \<Rightarrow> nat \<Rightarrow> size_t \<Rightarrow> size_t \<Rightarrow> string \<Rightarrow> nat list \<Rightarrow> (addr \<times> va_state) option" where
  "typed_alloc slots now s th sz al tag obj = do {
     (raw, s) \<leftarrow> alloc_raw slots now s th sz al tag;
     if raw = nullptr then Some (nullptr, s)
     else Some (raw, s\<lparr>va_data := (\<lambda>q. if q \<in> {raw..<raw + sz} then obj ! (q - raw) else va_data s q)\<rparr>) }"

definition typed_dealloc :: "int \<Rightarrow> va_state \<Rightarrow> nat \<Rightarrow> addr \<Rightarrow> size_t \<Rightarrow> va_state option" where
  "typed_dealloc now s th p sz = (if p = nullptr then Some s else dealloc_raw now s th p sz)"

lemma typed_alloc_ok:
  assumes "va_reach s H" "request_ok slots sz al" "length obj = sz"
  shows "\<exists>p s'. typed_alloc slots now s th sz al tag obj = Some (p, s') \<and>
    (if p = nullptr then va_reach s' H
     else va_reach s' (alloc_block s p sz al # H) \<and> map (va_data s') [p..<p + sz] = obj)"
proof -
  obtain p s1 where p: "alloc_raw slots now s th sz al tag = Some (p, s1)"
    and post: "p \<noteq> nullptr \<Longrightarrow> alloc_post s H sz al p s1"
    using alloc_raw_inv [OF va_reach_inv [OF assms(1)], of slots sz al now th tag] assms(2) by (fastforce simp: request_ok_def)
  note reach = va_alloc [OF assms(1,2) p]
  show ?thesis
  proof (cases "p = nullptr")
    case True
    then show ?thesis using p reach by (simp add: typed_alloc_def)
  next
    case False
    let ?x = "alloc_block s p sz al"
    have x: "user_bytes ?x = {p..<p + sz}"
      using post [OF False] by (auto simp: alloc_post_def alloc_block_def lb_user_def user_bytes_def Let_def)
    have "va_reach (s1\<lparr>va_data := (\<lambda>q. if q \<in> {p..<p + sz} then obj ! (q - p) else va_data s1 q)\<rparr>) (?x # H)"
      using reach False x by (intro write_reach [of _ _ ?x]) auto
    moreover have "map (\<lambda>q. if q \<in> {p..<p + sz} then obj ! (q - p) else va_data s1 q) [p..<p + sz] = obj"
      using assms(3) by (intro nth_equalityI) auto
    ultimately show ?thesis using p False by (simp add: typed_alloc_def)
  qed
qed

end
