(* ===== verification/Arena_Snapshot.thy ===== *)
theory Arena_Snapshot
  imports Arena_Theorems
begin

text \<open>
  The snapshot of the arena (\<open>Impl::snapshot_json\<close> in \<open>src/src/interface/visualization_arena.cpp\<close>), which walks over the raw bytes of
  every shard and takes them for headers. \<open>rw p\<close> is what the bytes at \<open>p\<close> read as: the first word, the word where a header
  has its magic number, and the tag. The member \<open>alignment\<close> of a reported block is never set; \<open>junk\<close> is what it holds.
\<close>

type_synonym raw_words = "addr \<Rightarrow> size_t \<times> size_t \<times> char list"

text \<open>\<open>sizeof(AllocationHeader)\<close>.\<close>

definition header_size :: size_t where
  "header_size = 56"

definition sanitize_char :: "char \<Rightarrow> char" where
  "sanitize_char c = (if (of_char c :: nat) < 32 \<or> 126 < (of_char c :: nat) then CHR ''?'' else c)"

text \<open>The tag up to its terminator, unprintable characters replaced.\<close>

definition safe_tag :: "char list \<Rightarrow> string" where
  "safe_tag tag = map sanitize_char (c_str (take 32 tag))"

definition snapshot_block :: "size_t \<Rightarrow> size_t \<Rightarrow> size_t \<Rightarrow> char list \<Rightarrow> BlockMetadata" where
  "snapshot_block junk offset block_size tag =
     set_tag \<lparr>bm_offset = offset, bm_size = (if block_size > header_size then block_size - header_size else 0),
       bm_alignment = junk, bm_actual_size = block_size, bm_tag = empty_tag, bm_timestamp = 0\<rparr> (safe_tag tag)"

text \<open>The shard has less than \<open>2 ^ 63\<close> bytes, so the sums do not wrap around.\<close>

function snapshot_walk :: "raw_words \<Rightarrow> size_t \<Rightarrow> addr \<Rightarrow> addr \<Rightarrow> size_t \<Rightarrow> size_t \<Rightarrow> BlockMetadata list" where
  "snapshot_walk rw junk arena_base base cap offset =
     (if offset + header_size \<le> cap then
        let p = base + offset;
            (block_size, magic, tag) = rw p;
            is_allocated = (magic = kMagicValue)
        in if block_size = 0 \<or> block_size > cap \<or> offset + block_size > cap then []
           else (if is_allocated then [snapshot_block junk (p - arena_base) block_size tag] else []) @
                snapshot_walk rw junk arena_base base cap (offset + block_size)
      else [])"
  by pat_completeness auto
termination by (relation "measure (\<lambda>(rw, junk, ab, base, cap, offset). cap - offset)") auto

declare snapshot_walk.simps [simp del]

definition snapshot_json :: "(json \<Rightarrow> string) \<Rightarrow> raw_words \<Rightarrow> size_t \<Rightarrow> va_state \<Rightarrow> string" where
  "snapshot_json dump rw junk s =
     (let blocks = concat (map (\<lambda>a. snapshot_walk rw junk (ar_base (va_arena s)) (fl_base a) (capacity a) 0) (va_shards s));
          total_allocated = foldl (\<lambda>n a. add64 n (bytes_allocated a)) 0 (va_shards s);
          total_free = foldl (\<lambda>n a. add64 n (bytes_free a)) 0 (va_shards s);
          free_blocks = foldl (\<lambda>n a. add64 n (free_block_count a)) 0 (va_shards s)
      in dump (snapshot_to_json blocks total_allocated total_free (ar_capacity (va_arena s)) 0 free_blocks))"

subsection \<open>What a walk reports\<close>

definition reported_in :: "raw_words \<Rightarrow> addr \<Rightarrow> addr \<Rightarrow> size_t \<Rightarrow> BlockMetadata \<Rightarrow> bool" where
  "reported_in rw arena_base base cap b \<longleftrightarrow> (\<exists>p. base \<le> p \<and> p + bm_actual_size b \<le> base + cap \<and> bm_offset b = p - arena_base \<and>
     0 < bm_actual_size b \<and> fst (rw p) = bm_actual_size b \<and> fst (snd (rw p)) = kMagicValue)"

lemma snapshot_walk_reported:
  "b \<in> set (snapshot_walk rw junk arena_base base cap offset) \<Longrightarrow> reported_in rw arena_base base cap b"
proof (induction rw junk arena_base base cap offset rule: snapshot_walk.induct)
  case (1 rw junk ab base cap offset)
  obtain n m tag where rw: "rw (base + offset) = (n, m, tag)" by (cases "rw (base + offset)") auto
  have "b = snapshot_block junk (base + offset - ab) n tag \<and> m = kMagicValue \<and> 0 < n \<and> offset + n \<le> cap \<or>
      (offset + header_size \<le> cap \<and> \<not> (n = 0 \<or> n > cap \<or> offset + n > cap) \<and> b \<in> set (snapshot_walk rw junk ab base cap (offset + n)))"
    using 1(2) rw by (subst (asm) snapshot_walk.simps) (auto split: if_splits)
  then show ?case
  proof
    assume "b = snapshot_block junk (base + offset - ab) n tag \<and> m = kMagicValue \<and> 0 < n \<and> offset + n \<le> cap"
    then show ?thesis using rw by (auto simp: reported_in_def snapshot_block_def set_tag_def intro!: exI [of _ "base + offset"])
  next
    assume "offset + header_size \<le> cap \<and> \<not> (n = 0 \<or> n > cap \<or> offset + n > cap) \<and> b \<in> set (snapshot_walk rw junk ab base cap (offset + n))"
    then show ?thesis using 1(1) [OF _ refl rw [symmetric] refl refl] by blast
  qed
qed

text \<open>
  Live blocks are reported with the size in their header, the size of the user's data, and the walk goes on at that distance: from
  a block of at least 64 bytes it goes to a place inside the block's own data. After an allocation these are zero and the
  walk ends there, so nothing behind the first block of a shard is reported.
\<close>

lemma snapshot_stops_in_first_block:
  assumes "rw base = (n, kMagicValue, tag)" "0 < n" "n + header_size \<le> cap" "header_size \<le> cap" "fst (rw (base + n)) = 0"
  shows "snapshot_walk rw junk ab base cap 0 = [snapshot_block junk (base - ab) n tag]"
  using assms by (subst snapshot_walk.simps, subst snapshot_walk.simps) (auto simp: Let_def split: prod.splits)

text \<open>C11. Whatever the bytes of the arena are, the snapshot ends and its totals are exact: they are the bytes of the live blocks
  and the rest of the capacity. Each block it lists lies within one shard and starts with the size it is listed with and with the
  magic number of a header.\<close>

theorem snapshot_totals_exact:
  assumes "va_reach s H"
  shows "\<exists>blocks free. snapshot_json dump rw junk s =
      dump (snapshot_to_json blocks (sum_list (map lb_actual H)) (va_capacity s - sum_list (map lb_actual H)) (va_capacity s) 0 free) \<and>
    (\<forall>b \<in> set blocks. \<exists>i < 256. reported_in rw (va_base s) (va_base s + i * shard_span s) (shard_span s) b)"
proof -
  note I = va_invD [OF va_reach_inv [OF assms]] and A = arena_accounting_eq [OF assms]
  let ?blocks = "concat (map (\<lambda>a. snapshot_walk rw junk (ar_base (va_arena s)) (fl_base a) (capacity a) 0) (va_shards s))"
  have "\<exists>i < 256. reported_in rw (va_base s) (va_base s + i * shard_span s) (shard_span s) b" if b: "b \<in> set ?blocks" for b
  proof -
    obtain i where i: "i < 256" "b \<in> set (snapshot_walk rw junk (ar_base (va_arena s)) (fl_base (va_shards s ! i)) (capacity (va_shards s ! i)) 0)"
      using b I(1) by (fastforce simp: in_set_conv_nth)
    then show ?thesis using snapshot_walk_reported [OF i(2)] shardedD(2,3) [OF I(6), of i] I(1)
      by (auto simp: capacity_def va_base_def)
  qed
  moreover have "snapshot_json dump rw junk s = dump (snapshot_to_json ?blocks (sum_list (map lb_actual H))
      (va_capacity s - sum_list (map lb_actual H)) (va_capacity s) 0 (foldl (\<lambda>n a. add64 n (free_block_count a)) 0 (va_shards s)))"
  proof -
    have "va_bytes_free s = va_capacity s - sum_list (map lb_actual H)" "va_bytes_allocated s = sum_list (map lb_actual H)"
      using A by auto
    then show ?thesis by (simp add: snapshot_json_def Let_def va_bytes_allocated_def va_bytes_free_def va_capacity_def)
  qed
  ultimately show ?thesis by blast
qed

theorem snapshot_totals_exact_witness:
  "\<exists>s x blocks free. va_reach s [x] \<and> snapshot_json (\<lambda>_. ''j'') (\<lambda>_. (0, 0, [])) 0 s =
      (\<lambda>_. ''j'') (snapshot_to_json blocks 176 16777040 16777216 0 free)"
proof -
  obtain s p where s: "va_reach s [alloc_block s p 100 16]" "va_capacity s = 16777216" using demo_block by blast
  have "lb_actual (alloc_block s p 100 16) = 176" by (simp add: alloc_block_def Let_def internal_size_eq max_def)
  then show ?thesis using snapshot_totals_exact [OF s(1), of "\<lambda>_. ''j''" "\<lambda>_. (0, 0, [])" 0] s by auto
qed

end
