(* ===== verification/Ws_Server.thy ===== *)
theory Ws_Server
  imports Mmap_Prelude
begin

text \<open>
  The HTTP and WebSocket server (\<open>src/src/server/ws_server.hpp\<close> and \<open>ws_server.cpp\<close>). The network library is
  asynchronous: an operation is started, and its completion runs a callback on the thread of the server. Here a
  completion is an event that carries what the library reports, every callback is a function on the state of the server,
  and what runs is a sequence of events. \<open>broadcast\<close> comes from another thread, so it is an event of its own, and
  \<open>net::post\<close> appends to a queue that the server's thread works off in order. \<open>on_accept\<close> marks its session as a WebSocket and
  only then asks for the snapshot and posts it, without a lock, so it is two events, between which the server's
  thread is busy and other threads may broadcast. A write that fails is a write after the
  stream was closed. Files are an argument: \<open>None\<close> for a path that does not exist, else what reading it gives.
\<close>

subsection \<open>Data\<close>

record HttpRequest =
  hr_target :: string
  hr_fields :: "(string \<times> string) list"

record HttpResponse =
  hs_status :: nat
  hs_fields :: "(string \<times> string) list"
  hs_keep_alive :: bool
  hs_content_length :: "nat option"
  hs_body :: string

text \<open>The operation a session waits for.\<close>

datatype pending = ReadRequest | Handshake | ReadMessage | NoOperation

record WsSession =
  wss_pending :: pending
  wss_buffer :: string
  wss_open :: bool
  wss_is_websocket :: bool
  wss_web_root :: string
  wss_on_command :: bool
  wss_snapshot_provider :: bool
  wss_written :: "string list"
  wss_response :: "HttpResponse option"

text \<open>
  Sessions are numbered in the order of acceptance; \<open>srv_heap\<close> holds all of them and \<open>srv_sessions\<close> is the
  list \<open>sessions_\<close>. \<open>srv_commands\<close> are the calls of the command handler; \<open>srv_busy\<close> is the session in whose
  \<open>on_accept\<close> the server's thread is.
\<close>

record WsServer =
  srv_heap :: "WsSession list"
  srv_sessions :: "nat list"
  srv_posted :: "(nat \<times> string) list"
  srv_web_root :: string
  srv_snapshot_provider :: bool
  srv_command_handler :: bool
  srv_commands :: "string list"
  srv_accepting :: bool
  srv_busy :: "nat option"
  srv_stopped :: bool

definition upd_session :: "WsServer \<Rightarrow> nat \<Rightarrow> (WsSession \<Rightarrow> WsSession) \<Rightarrow> WsServer" where
  "upd_session s i f = s\<lparr>srv_heap := (srv_heap s)[i := f (srv_heap s ! i)]\<rparr>"

subsection \<open>Static files\<close>

text \<open>\<open>std::filesystem::path(path).extension()\<close>.\<close>

definition path_filename :: "string \<Rightarrow> string" where
  "path_filename p = rev (takeWhile (\<lambda>c. c \<noteq> CHR ''/'') (rev p))"

definition path_extension :: "string \<Rightarrow> string" where
  "path_extension p =
     (let f = path_filename p;
          ext = rev (takeWhile (\<lambda>c. c \<noteq> CHR ''.'') (rev f))
      in if f = ''..'' \<or> length f \<le> length ext + 1 then [] else CHR ''.'' # ext)"

definition mime_type :: "string \<Rightarrow> string" where
  "mime_type path =
     (let ext = path_extension path in
      if ext = ''.html'' then ''text/html''
      else if ext = ''.css'' then ''text/css''
      else if ext = ''.js'' then ''application/javascript''
      else if ext = ''.json'' then ''application/json''
      else if ext = ''.png'' then ''image/png''
      else if ext = ''.svg'' then ''image/svg+xml''
      else ''application/octet-stream'')"

definition set_field :: "string \<Rightarrow> string \<Rightarrow> HttpResponse \<Rightarrow> HttpResponse" where
  "set_field name v r = r\<lparr>hs_fields := filter (\<lambda>x. fst x \<noteq> name) (hs_fields r) @ [(name, v)]\<rparr>"

definition http_response :: "nat \<Rightarrow> HttpResponse" where
  "http_response status = \<lparr>hs_status = status, hs_fields = [], hs_keep_alive = True, hs_content_length = None, hs_body = []\<rparr>"

definition serve_file :: "(string \<Rightarrow> string option) \<Rightarrow> string \<Rightarrow> string \<Rightarrow> HttpResponse" where
  "serve_file files web_root path =
     (let full_path = web_root @ path in
      case files full_path of
        None \<Rightarrow>
          let res = set_field ''Content-Type'' ''text/plain'' (http_response 404)
          in res\<lparr>hs_body := ''404 Not Found: '' @ path\<rparr>
      | Some content \<Rightarrow>
          let res = set_field ''Content-Type'' (mime_type path) (http_response 200);
              res = set_field ''Access-Control-Allow-Origin'' ''*'' res
          in res\<lparr>hs_body := content\<rparr>)"

definition prepare_payload :: "HttpResponse \<Rightarrow> HttpResponse" where
  "prepare_payload r = r\<lparr>hs_content_length := Some (length (hs_body r))\<rparr>"

definition handle_http_request :: "(string \<Rightarrow> string option) \<Rightarrow> WsServer \<Rightarrow> nat \<Rightarrow> HttpRequest \<Rightarrow> WsServer" where
  "handle_http_request files s i req =
     (let target = hr_target req;
          target = (if target = ''/'' then ''/index.html'' else target);
          response = serve_file files (wss_web_root (srv_heap s ! i)) target;
          response = set_field ''Server'' ''MemoryMapper/0.1'' response;
          response = response\<lparr>hs_keep_alive := False\<rparr>;
          response = prepare_payload response
      in upd_session s i (\<lambda>w. w\<lparr>wss_response := Some response\<rparr>))"

subsection \<open>Sessions\<close>

definition ws_session :: "string \<Rightarrow> bool \<Rightarrow> bool \<Rightarrow> WsSession" where
  "ws_session web_root on_command provider =
     \<lparr>wss_pending = NoOperation, wss_buffer = [], wss_open = False, wss_is_websocket = False, wss_web_root = web_root,
      wss_on_command = on_command, wss_snapshot_provider = provider, wss_written = [], wss_response = None\<rparr>"

definition session_run :: "WsServer \<Rightarrow> nat \<Rightarrow> WsServer" where
  "session_run s i = upd_session s i (\<lambda>w. w\<lparr>wss_pending := ReadRequest\<rparr>)"

text \<open>The completion of the first read, which may leave bytes that follow the request in the buffer.\<close>

definition on_request ::
    "(HttpRequest \<Rightarrow> bool) \<Rightarrow> (string \<Rightarrow> string option) \<Rightarrow> WsServer \<Rightarrow> nat \<Rightarrow> bool \<Rightarrow> HttpRequest \<Rightarrow> string \<Rightarrow> WsServer" where
  "on_request is_upgrade files s i ec req rest =
     (let s = upd_session s i (\<lambda>w. w\<lparr>wss_pending := NoOperation, wss_buffer := rest\<rparr>) in
      if ec then s
      else if is_upgrade req then upd_session s i (\<lambda>w. w\<lparr>wss_pending := Handshake\<rparr>)
      else handle_http_request files s i req)"

definition send :: "WsServer \<Rightarrow> nat \<Rightarrow> string \<Rightarrow> WsServer" where
  "send s i message = s\<lparr>srv_posted := srv_posted s @ [(i, message)]\<rparr>"

text \<open>The posted part of \<open>send\<close>.\<close>

definition send_task :: "WsServer \<Rightarrow> nat \<Rightarrow> string \<Rightarrow> WsServer" where
  "send_task s i message =
     (if \<not> wss_is_websocket (srv_heap s ! i) then s
      else if wss_open (srv_heap s ! i) then upd_session s i (\<lambda>w. w\<lparr>wss_written := wss_written w @ [message]\<rparr>)
      else s)"

definition is_open :: "WsServer \<Rightarrow> nat \<Rightarrow> bool" where
  "is_open s i \<longleftrightarrow> wss_is_websocket (srv_heap s ! i) \<and> wss_open (srv_heap s ! i)"

definition do_read :: "WsServer \<Rightarrow> nat \<Rightarrow> WsServer" where
  "do_read s i = upd_session s i (\<lambda>w. w\<lparr>wss_pending := ReadMessage\<rparr>)"

text \<open>The handshake opens the stream; \<open>on_accept\<close> up to the line that marks the session as a WebSocket.\<close>

definition on_accept :: "WsServer \<Rightarrow> nat \<Rightarrow> bool \<Rightarrow> WsServer" where
  "on_accept s i ec =
     (if ec then upd_session s i (\<lambda>w. w\<lparr>wss_pending := NoOperation\<rparr>)
      else
        let s = upd_session s i (\<lambda>w. w\<lparr>wss_pending := NoOperation, wss_open := True, wss_is_websocket := True\<rparr>)
        in s\<lparr>srv_busy := Some i\<rparr>)"

text \<open>The rest of it; \<open>snapshot\<close> is what the snapshot provider has returned.\<close>

definition on_accept_snapshot :: "WsServer \<Rightarrow> nat \<Rightarrow> string \<Rightarrow> WsServer" where
  "on_accept_snapshot s i snapshot =
     (let s = (if wss_snapshot_provider (srv_heap s ! i) then send s i snapshot else s);
          s = do_read s i
      in s\<lparr>srv_busy := None\<rparr>)"

definition on_read :: "WsServer \<Rightarrow> nat \<Rightarrow> bool \<Rightarrow> string \<Rightarrow> WsServer" where
  "on_read s i ec message =
     (if ec then upd_session s i (\<lambda>w. w\<lparr>wss_pending := NoOperation\<rparr>)
      else
        let msg = wss_buffer (srv_heap s ! i) @ message;
            s = (if wss_on_command (srv_heap s ! i) \<and> msg \<noteq> [] then s\<lparr>srv_commands := srv_commands s @ [msg]\<rparr> else s);
            s = upd_session s i (\<lambda>w. w\<lparr>wss_buffer := []\<rparr>)
        in do_read s i)"

subsection \<open>Server\<close>

definition ws_server :: "string \<Rightarrow> bool \<Rightarrow> WsServer" where
  "ws_server web_root provider =
     \<lparr>srv_heap = [], srv_sessions = [], srv_posted = [], srv_web_root = web_root, srv_snapshot_provider = provider,
      srv_command_handler = False, srv_commands = [], srv_accepting = False, srv_busy = None, srv_stopped = False\<rparr>"

definition do_accept :: "WsServer \<Rightarrow> WsServer" where
  "do_accept s = s\<lparr>srv_accepting := True\<rparr>"

text \<open>The completion of \<open>async_accept\<close>; after an error it is not started again.\<close>

definition on_connection :: "WsServer \<Rightarrow> bool \<Rightarrow> WsServer" where
  "on_connection s ec =
     (let s = s\<lparr>srv_accepting := False\<rparr> in
      if ec then s
      else
        let i = length (srv_heap s);
            s = s\<lparr>srv_heap := srv_heap s @ [ws_session (srv_web_root s) (srv_command_handler s) (srv_snapshot_provider s)]\<rparr>;
            s = s\<lparr>srv_sessions := srv_sessions s @ [i]\<rparr>;
            s = session_run s i
        in do_accept s)"

definition server_run :: "WsServer \<Rightarrow> WsServer" where
  "server_run s = do_accept s"

definition server_stop :: "WsServer \<Rightarrow> WsServer" where
  "server_stop s = s\<lparr>srv_stopped := True\<rparr>"

definition broadcast :: "WsServer \<Rightarrow> string \<Rightarrow> WsServer" where
  "broadcast s message =
     (let s = s\<lparr>srv_sessions := filter (is_open s) (srv_sessions s)\<rparr>
      in fold (\<lambda>i s. send s i message) (srv_sessions s) s)"

definition set_snapshot_provider :: "WsServer \<Rightarrow> bool \<Rightarrow> WsServer" where
  "set_snapshot_provider s provider = s\<lparr>srv_snapshot_provider := provider\<rparr>"

definition set_command_handler :: "WsServer \<Rightarrow> bool \<Rightarrow> WsServer" where
  "set_command_handler s handler = s\<lparr>srv_command_handler := handler\<rparr>"

subsection \<open>Events\<close>

datatype ws_event =
    Connected bool
  | RequestRead nat bool HttpRequest string "string \<Rightarrow> string option"
  | HandshakeDone nat bool
  | SnapshotSent nat string
  | MessageRead nat bool string
  | RunPosted
  | StreamClosed nat
  | Broadcast string
  | SetHandler bool
  | Stopped

text \<open>\<open>None\<close>: the event cannot happen in the state, because the operation was not started, or the server's thread
  has stopped or is busy.\<close>

definition idle :: "WsServer \<Rightarrow> bool" where
  "idle s \<longleftrightarrow> \<not> srv_stopped s \<and> srv_busy s = None"

definition waits_for :: "WsServer \<Rightarrow> nat \<Rightarrow> pending \<Rightarrow> bool" where
  "waits_for s i p \<longleftrightarrow> idle s \<and> i < length (srv_heap s) \<and> wss_pending (srv_heap s ! i) = p"

fun ws_step :: "(HttpRequest \<Rightarrow> bool) \<Rightarrow> WsServer \<Rightarrow> ws_event \<Rightarrow> WsServer option" where
  "ws_step is_upgrade s (Connected ec) = (if srv_accepting s \<and> idle s then Some (on_connection s ec) else None)"
| "ws_step is_upgrade s (RequestRead i ec req rest files) =
     (if waits_for s i ReadRequest then Some (on_request is_upgrade files s i ec req rest) else None)"
| "ws_step is_upgrade s (HandshakeDone i ec) =
     (if waits_for s i Handshake then Some (on_accept s i ec) else None)"
| "ws_step is_upgrade s (SnapshotSent i snapshot) =
     (if srv_busy s = Some i then Some (on_accept_snapshot s i snapshot) else None)"
| "ws_step is_upgrade s (MessageRead i ec message) =
     (if waits_for s i ReadMessage then Some (on_read s i ec message) else None)"
| "ws_step is_upgrade s RunPosted =
     (case srv_posted s of
        [] \<Rightarrow> None
      | (i, message) # rest \<Rightarrow> if \<not> idle s then None else Some (send_task (s\<lparr>srv_posted := rest\<rparr>) i message))"
| "ws_step is_upgrade s (StreamClosed i) =
     (if i < length (srv_heap s) then Some (upd_session s i (\<lambda>w. w\<lparr>wss_open := False\<rparr>)) else None)"
| "ws_step is_upgrade s (Broadcast message) = Some (broadcast s message)"
| "ws_step is_upgrade s (SetHandler h) = Some (set_command_handler s h)"
| "ws_step is_upgrade s Stopped = Some (server_stop s)"

fun ws_run :: "(HttpRequest \<Rightarrow> bool) \<Rightarrow> WsServer \<Rightarrow> ws_event list \<Rightarrow> WsServer option" where
  "ws_run is_upgrade s [] = Some s"
| "ws_run is_upgrade s (e # evs) = do { s \<leftarrow> ws_step is_upgrade s e; ws_run is_upgrade s evs }"

subsection \<open>Well-formed servers\<close>

definition session_ok :: "WsSession \<Rightarrow> bool" where
  "session_ok w \<longleftrightarrow> (if wss_is_websocket w then wss_pending w \<in> {ReadMessage, NoOperation} else wss_written w = [])"

definition server_ok :: "WsServer \<Rightarrow> bool" where
  "server_ok s \<longleftrightarrow> distinct (srv_sessions s) \<and> set (srv_sessions s) \<subseteq> {..<length (srv_heap s)} \<and>
     (\<forall>w \<in> set (srv_heap s). session_ok w) \<and>
     (\<forall>i. srv_busy s = Some i \<longrightarrow> i < length (srv_heap s) \<and> wss_is_websocket (srv_heap s ! i)) \<and>
     (\<forall>x \<in> set (srv_posted s). fst x < length (srv_heap s) \<and> wss_is_websocket (srv_heap s ! fst x))"

lemma server_okI:
  assumes "distinct (srv_sessions s)" "\<And>i. i \<in> set (srv_sessions s) \<Longrightarrow> i < length (srv_heap s)"
    "\<And>i. i < length (srv_heap s) \<Longrightarrow> session_ok (srv_heap s ! i)"
    "\<And>i m. (i, m) \<in> set (srv_posted s) \<Longrightarrow> i < length (srv_heap s) \<and> wss_is_websocket (srv_heap s ! i)"
    "\<And>i. srv_busy s = Some i \<Longrightarrow> i < length (srv_heap s) \<and> wss_is_websocket (srv_heap s ! i)"
  shows "server_ok s"
  using assms by (auto simp: server_ok_def in_set_conv_nth)

lemma server_okD:
  assumes "server_ok s"
  shows "distinct (srv_sessions s)" "i \<in> set (srv_sessions s) \<Longrightarrow> i < length (srv_heap s)"
    "i < length (srv_heap s) \<Longrightarrow> session_ok (srv_heap s ! i)"
    "(i, m) \<in> set (srv_posted s) \<Longrightarrow> i < length (srv_heap s)"
    "(i, m) \<in> set (srv_posted s) \<Longrightarrow> wss_is_websocket (srv_heap s ! i)"
    "srv_busy s = Some i \<Longrightarrow> i < length (srv_heap s) \<and> wss_is_websocket (srv_heap s ! i)"
  using assms by (auto simp: server_ok_def)

lemma nth_upd: "xs[a := x] ! i = (if a = i \<and> i < length xs then x else xs ! i)"
  by (cases "a < length xs") (auto simp: nth_list_update list_update_beyond)

lemma fold_send: "fold (\<lambda>i s. send s i m) L s = s\<lparr>srv_posted := srv_posted s @ map (\<lambda>i. (i, m)) L\<rparr>"
  by (induction L arbitrary: s) (auto simp: send_def)

lemma broadcast_eq:
  "broadcast s m = s\<lparr>srv_sessions := filter (is_open s) (srv_sessions s),
     srv_posted := srv_posted s @ map (\<lambda>i. (i, m)) (filter (is_open s) (srv_sessions s))\<rparr>"
  by (simp add: broadcast_def fold_send)

lemmas [callback_defs] = upd_session_def session_run_def on_request_def handle_http_request_def send_def send_task_def do_read_def
  on_accept_def on_accept_snapshot_def idle_def on_read_def do_accept_def on_connection_def server_stop_def set_command_handler_def Let_def

text \<open>What one event does to a session.\<close>

definition session_change :: "WsSession \<Rightarrow> WsSession \<Rightarrow> bool" where
  "session_change w w' \<longleftrightarrow> session_ok w' \<and>
     wss_snapshot_provider w' = wss_snapshot_provider w \<and>
     (wss_is_websocket w \<longrightarrow> wss_is_websocket w' \<and> (wss_open w' \<longrightarrow> wss_open w))"

lemma ws_step_session:
  assumes "ws_step up s e = Some s'" "i < length (srv_heap s)" "session_ok (srv_heap s ! i)"
  shows "i < length (srv_heap s') \<and> session_change (srv_heap s ! i) (srv_heap s' ! i)"
  using assms
  by (cases e) (auto simp: callback_defs waits_for_def session_ok_def session_change_def broadcast_eq nth_append nth_upd
      split: if_splits list.splits)

lemma ws_step_ok:
  assumes "ws_step up s e = Some s'" "server_ok s"
  shows "server_ok s'"
proof -
  have old: "i < length (srv_heap s') \<and> session_change (srv_heap s ! i) (srv_heap s' ! i)" if i: "i < length (srv_heap s)" for i
    using ws_step_session [OF assms(1) i] server_okD(3) [OF assms(2) i] by blast
  have new: "session_ok (srv_heap s' ! i)" if "\<not> i < length (srv_heap s)" "i < length (srv_heap s')" for i
    using assms(1) that
    by (cases e) (auto simp: callback_defs session_ok_def ws_session_def broadcast_eq nth_append nth_upd
      split: if_splits list.splits)
  have sess: "distinct (srv_sessions s') \<and> (\<forall>i \<in> set (srv_sessions s'). i < length (srv_heap s'))"
    using assms(1) server_okD(1) [OF assms(2)] server_okD(2) [OF assms(2)]
    by (cases e) (force simp: callback_defs broadcast_eq split: if_splits list.splits intro: less_SucI)+
  have "(i, m) \<in> set (srv_posted s) \<or> srv_busy s = Some i \<or> i \<in> set (srv_sessions s) \<and> is_open s i \<or> i < length (srv_heap s') \<and> wss_is_websocket (srv_heap s' ! i)"
    if "(i, m) \<in> set (srv_posted s')" for i m
    using assms(1) that by (cases e) (auto simp: callback_defs broadcast_eq waits_for_def split: if_splits list.splits)
  then have post: "i < length (srv_heap s) \<and> wss_is_websocket (srv_heap s ! i) \<or> i < length (srv_heap s') \<and> wss_is_websocket (srv_heap s' ! i)"
    if "(i, m) \<in> set (srv_posted s')" for i m
    using that server_okD(2,4,5,6) [OF assms(2)] by (fastforce simp: is_open_def)
  have busy: "srv_busy s = Some i \<or> i < length (srv_heap s') \<and> wss_is_websocket (srv_heap s' ! i)" if "srv_busy s' = Some i" for i
    using assms(1) that by (cases e) (auto simp: callback_defs broadcast_eq waits_for_def split: if_splits list.splits)
  show ?thesis
  proof (rule server_okI)
    show "i < length (srv_heap s') \<and> wss_is_websocket (srv_heap s' ! i)" if "srv_busy s' = Some i" for i
      using busy [OF that] old [of i] server_okD(6) [OF assms(2), of i] by (auto simp: session_change_def)
    show "session_ok (srv_heap s' ! i)" if "i < length (srv_heap s')" for i
      using old [of i] new [OF _ that] by (auto simp: session_change_def)
    show "i < length (srv_heap s') \<and> wss_is_websocket (srv_heap s' ! i)" if "(i, m) \<in> set (srv_posted s')" for i m
      using post [OF that] old [of i] by (auto simp: session_change_def)
  qed (use sess in auto)
qed

subsection \<open>Delivery\<close>

definition posted_to :: "WsServer \<Rightarrow> nat \<Rightarrow> string list" where
  "posted_to s i = map snd (filter (\<lambda>x. fst x = i) (srv_posted s))"

text \<open>What session \<open>i\<close> was sent, written or still posted.\<close>

definition sent_to :: "WsServer \<Rightarrow> nat \<Rightarrow> string list" where
  "sent_to s i = wss_written (srv_heap s ! i) @ posted_to s i"

fun broadcasts :: "ws_event list \<Rightarrow> string list" where
  "broadcasts [] = []"
| "broadcasts (Broadcast m # evs) = m # broadcasts evs"
| "broadcasts (_ # evs) = broadcasts evs"

lemma posted_broadcast:
  assumes "distinct L"
  shows "map snd (filter (\<lambda>x. fst x = i) (map (\<lambda>i. (i, m)) L)) = (if i \<in> set L then [m] else [])"
  using assms by (induction L) auto

fun greets :: "nat \<Rightarrow> ws_event \<Rightarrow> bool" where
  "greets i (SnapshotSent j m) = (j = i)"
| "greets i _ = False"

lemma greets_posted [simp]: "\<not> list_ex (greets i) (replicate n RunPosted)"
  by (induction n) auto

lemma ws_step_open:
  assumes "ws_step up s e = Some s'" "server_ok s" "i < length (srv_heap s)" "wss_is_websocket (srv_heap s ! i)" "is_open s' i"
    "\<not> greets i e"
  shows "sent_to s' i = sent_to s i @ (if i \<in> set (srv_sessions s) then broadcasts [e] else []) \<and>
    (i \<in> set (srv_sessions s') \<longleftrightarrow> i \<in> set (srv_sessions s)) \<and> is_open s i"
proof -
  have ok: "session_ok (srv_heap s ! i)" using server_okD(3) [OF assms(2,3)] .
  have "is_open s i" using ws_step_session [OF assms(1,3) ok] assms(4,5) by (simp add: session_change_def is_open_def)
  show ?thesis
  proof (cases "\<exists>m. e = Broadcast m")
    case True
    then show ?thesis using assms(1) \<open>is_open s i\<close> server_okD(1) [OF assms(2)]
      by (auto simp: broadcast_eq sent_to_def posted_to_def posted_broadcast)
  next
    case False
    then show ?thesis using assms(1,3,4,6) ok \<open>is_open s i\<close>
      by (cases e) (auto simp: callback_defs waits_for_def session_ok_def is_open_def sent_to_def posted_to_def
        nth_append nth_upd split: if_splits list.splits)
  qed
qed

lemma ws_step_waiting:
  assumes "ws_step up s e = Some s'" "server_ok s" "i < length (srv_heap s)" "\<not> wss_is_websocket (srv_heap s' ! i)"
  shows "i \<in> set (srv_sessions s') \<longleftrightarrow> i \<in> set (srv_sessions s) \<and> broadcasts [e] = []" "\<not> wss_is_websocket (srv_heap s ! i)"
proof -
  show *: "\<not> wss_is_websocket (srv_heap s ! i)"
    using ws_step_session [OF assms(1,3) server_okD(3) [OF assms(2,3)]] assms(4) by (auto simp: session_change_def)
  show "i \<in> set (srv_sessions s') \<longleftrightarrow> i \<in> set (srv_sessions s) \<and> broadcasts [e] = []"
    using assms(1,3) * by (cases e) (auto simp: callback_defs is_open_def broadcast_eq split: if_splits list.splits)
qed

lemma ws_run_append: "ws_run up s (xs @ ys) = do { s \<leftarrow> ws_run up s xs; ws_run up s ys }"
  by (induction xs arbitrary: s) (auto split: bind_splits)

fun accepted :: "ws_event list \<Rightarrow> nat" where
  "accepted [] = 0"
| "accepted (Connected ec # evs) = (if ec then 0 else 1) + accepted evs"
| "accepted (_ # evs) = accepted evs"

lemma ws_step_length:
  "ws_step up s e = Some s' \<Longrightarrow> length (srv_heap s') = length (srv_heap s) + accepted [e] \<and>
     srv_snapshot_provider s' = srv_snapshot_provider s"
  by (cases e) (auto simp: callback_defs broadcast_eq split: if_splits list.splits)

lemma broadcasts_Cons: "broadcasts (e # evs) = broadcasts [e] @ broadcasts evs"
  by (cases e) auto

lemma accepted_Cons: "accepted (e # evs) = accepted [e] + accepted evs"
  by (cases e) auto

lemma ws_run_ok:
  assumes "ws_run up s evs = Some s'" "server_ok s"
  shows "server_ok s'" "length (srv_heap s') = length (srv_heap s) + accepted evs" "srv_snapshot_provider s' = srv_snapshot_provider s"
  using assms
proof (induction evs arbitrary: s)
  case (Cons e evs)
  case 1 from 1 Cons.IH(1) show ?case using ws_step_ok by (auto simp: bind_eq_Some_conv)
  case 2 from 2 Cons.IH(2) show ?case
    using ws_step_ok ws_step_length by (fastforce simp: bind_eq_Some_conv accepted_Cons [of e evs])
  case 3 from 3 Cons.IH(3) show ?case
    using ws_step_ok ws_step_length by (fastforce simp: bind_eq_Some_conv)
qed auto

lemma ws_run_session:
  assumes "ws_run up s evs = Some s'" "server_ok s" "i < length (srv_heap s)"
  shows "i < length (srv_heap s') \<and> session_change (srv_heap s ! i) (srv_heap s' ! i)"
  using assms
proof (induction evs arbitrary: s)
  case Nil
  then show ?case using server_okD(3) by (simp add: session_change_def)
next
  case (Cons e evs)
  then obtain s1 where s1: "ws_step up s e = Some s1" "ws_run up s1 evs = Some s'" by (auto simp: bind_eq_Some_conv)
  have "i < length (srv_heap s1)" "session_change (srv_heap s ! i) (srv_heap s1 ! i)"
    using ws_step_session [OF s1(1) Cons.prems(3)] server_okD(3) [OF Cons.prems(2,3)] by auto
  then show ?case using Cons.IH [OF s1(2) ws_step_ok [OF s1(1) Cons.prems(2)]] by (auto simp: session_change_def)
qed

lemma ws_run_open:
  assumes "ws_run up s evs = Some s'" "server_ok s" "i < length (srv_heap s)" "wss_is_websocket (srv_heap s ! i)" "is_open s' i"
    "\<not> list_ex (greets i) evs"
  shows "sent_to s' i = sent_to s i @ (if i \<in> set (srv_sessions s) then broadcasts evs else []) \<and>
    (i \<in> set (srv_sessions s') \<longleftrightarrow> i \<in> set (srv_sessions s))"
  using assms
proof (induction evs arbitrary: s)
  case (Cons e evs)
  then obtain s1 where s1: "ws_step up s e = Some s1" "ws_run up s1 evs = Some s'" by (auto simp: bind_eq_Some_conv)
  have ok1: "server_ok s1" using ws_step_ok [OF s1(1) Cons.prems(2)] .
  have w1: "i < length (srv_heap s1)" "wss_is_websocket (srv_heap s1 ! i)"
    using ws_step_session [OF s1(1) Cons.prems(3)] server_okD(3) [OF Cons.prems(2,3)] Cons.prems(4) by (auto simp: session_change_def)
  then have "is_open s1 i"
    using ws_run_session [OF s1(2) ok1 w1(1)] Cons.prems(5) by (auto simp: session_change_def is_open_def)
  from ws_step_open [OF s1(1) Cons.prems(2-4) this] Cons.IH [OF s1(2) ok1 w1 Cons.prems(5)] show ?case
    using Cons.prems(6) by (auto simp: broadcasts_Cons [of e evs])
qed simp

text \<open>A session is greeted once: only its handshake makes the server busy with it.\<close>

lemma ws_run_greeted:
  assumes "ws_run up s evs = Some s'" "server_ok s" "i < length (srv_heap s)" "wss_is_websocket (srv_heap s ! i)" "srv_busy s \<noteq> Some i"
  shows "srv_busy s' \<noteq> Some i \<and> \<not> list_ex (greets i) evs"
  using assms
proof (induction evs arbitrary: s)
  case (Cons e evs)
  then obtain s1 where s1: "ws_step up s e = Some s1" "ws_run up s1 evs = Some s'" by (auto simp: bind_eq_Some_conv)
  have ok: "session_ok (srv_heap s ! i)" using server_okD(3) [OF Cons.prems(2,3)] .
  have "i < length (srv_heap s1)" "wss_is_websocket (srv_heap s1 ! i)"
    using ws_step_session [OF s1(1) Cons.prems(3) ok] Cons.prems(4) by (auto simp: session_change_def)
  moreover have "srv_busy s1 \<noteq> Some i \<and> \<not> greets i e"
    using s1(1) Cons.prems(4,5) ok by (cases e) (auto simp: callback_defs waits_for_def session_ok_def broadcast_eq split: if_splits list.splits)
  ultimately show ?case using Cons.IH [OF s1(2) ws_step_ok [OF s1(1) Cons.prems(2)]] by simp
qed simp

lemma ws_run_waiting:
  assumes "ws_run up s evs = Some s'" "server_ok s" "i < length (srv_heap s)" "\<not> wss_is_websocket (srv_heap s' ! i)"
  shows "i \<in> set (srv_sessions s') \<longleftrightarrow> i \<in> set (srv_sessions s) \<and> broadcasts evs = []"
  using assms
proof (induction evs arbitrary: s)
  case (Cons e evs)
  then obtain s1 where s1: "ws_step up s e = Some s1" "ws_run up s1 evs = Some s'" by (auto simp: bind_eq_Some_conv)
  have ok1: "server_ok s1" using ws_step_ok [OF s1(1) Cons.prems(2)] .
  have i1: "i < length (srv_heap s1)" using ws_step_session [OF s1(1) Cons.prems(3)] server_okD(3) [OF Cons.prems(2,3)] by auto
  then have "\<not> wss_is_websocket (srv_heap s1 ! i)"
    using ws_run_session [OF s1(2) ok1] Cons.prems(4) by (auto simp: session_change_def)
  from ws_step_waiting(1) [OF s1(1) Cons.prems(2,3) this] Cons.IH [OF s1(2) ok1 i1 Cons.prems(4)] show ?case
    by (auto simp: broadcasts_Cons [of e evs])
qed simp

text \<open>The executor works off the queue in as many steps as it is long.\<close>

lemma drain_posted:
  assumes "idle s"
  shows "\<exists>s'. ws_run up s (replicate (length (srv_posted s)) RunPosted) = Some s' \<and> srv_posted s' = [] \<and> is_open s' = is_open s"
  using assms
proof (induction "length (srv_posted s)" arbitrary: s)
  case (Suc n)
  then obtain i m rest where p: "srv_posted s = (i, m) # rest" by (cases "srv_posted s") auto
  let ?s = "send_task (s\<lparr>srv_posted := rest\<rparr>) i m"
  have "srv_posted ?s = rest" "idle ?s" "is_open ?s = is_open s"
    using Suc.prems by (auto simp: send_task_def upd_session_def is_open_def idle_def fun_eq_iff nth_upd)
  then show ?case using Suc.hyps(1) [of ?s] Suc.hyps(2) Suc.prems p by auto
qed simp

lemma broadcasts_posted: "broadcasts (replicate n RunPosted) = []"
  by (induction n) auto

definition started_server :: "string \<Rightarrow> WsServer" where
  "started_server root = server_run (set_snapshot_provider (ws_server root False) True)"

lemma started_server_ok:
  "server_ok (started_server root)" "length (srv_heap (started_server root)) = 0" "srv_snapshot_provider (started_server root)"
  by (auto simp: started_server_def server_run_def do_accept_def set_snapshot_provider_def ws_server_def server_ok_def)

text \<open>What an open client has been sent has arrived when the queue is worked off.\<close>

lemma client_drained:
  assumes "server_ok s" "i < length (srv_heap s)" "is_open s i" "idle s"
  shows "\<exists>s'. ws_run up s (replicate (length (srv_posted s)) RunPosted) = Some s' \<and> srv_posted s' = [] \<and>
    wss_written (srv_heap s' ! i) = sent_to s i"
proof -
  obtain s' where s': "ws_run up s (replicate (length (srv_posted s)) RunPosted) = Some s'" "srv_posted s' = []" "is_open s' = is_open s"
    using drain_posted [OF assms(4)] by blast
  have "sent_to s' i = sent_to s i"
    using ws_run_open [OF s'(1) assms(1,2)] assms(3) s'(3) by (auto simp: is_open_def broadcasts_posted)
  then show ?thesis using s'(1,2) by (auto simp: sent_to_def posted_to_def)
qed

text \<open>From the end of a handshake on.\<close>

lemma greeted_delivery:
  assumes run: "ws_run up s (HandshakeDone i False # during @ SnapshotSent i snap # post) = Some s'" and ok: "server_ok s"
    and snap: "wss_snapshot_provider (srv_heap s ! i)" and open': "is_open s' i"
  shows "\<not> wss_is_websocket (srv_heap s ! i)"
    "i \<in> set (srv_sessions s) \<Longrightarrow> sent_to s' i = broadcasts during @ snap # broadcasts post"
    "i \<notin> set (srv_sessions s) \<Longrightarrow> sent_to s' i = [snap]" "server_ok s'" "i < length (srv_heap s')"
proof -
  obtain s1 s2 s3 where r: "ws_step up s (HandshakeDone i False) = Some s1" "ws_run up s1 during = Some s2"
    "ws_step up s2 (SnapshotSent i snap) = Some s3" "ws_run up s3 post = Some s'"
    using run by (auto simp: ws_run_append bind_eq_Some_conv)
  have i: "i < length (srv_heap s)" "wss_pending (srv_heap s ! i) = Handshake" using r(1) by (auto simp: waits_for_def split: if_splits)
  show nw: "\<not> wss_is_websocket (srv_heap s ! i)" using server_okD(3) [OF ok i(1)] i(2) by (auto simp: session_ok_def split: if_splits)
  then have "wss_written (srv_heap s ! i) = []" using server_okD(3) [OF ok i(1)] by (simp add: session_ok_def)
  moreover have "posted_to s i = []" using server_okD(5) [OF ok, of i] nw by (auto simp: posted_to_def filter_empty_conv)
  ultimately have s1: "sent_to s1 i = []" "i < length (srv_heap s1)" "wss_is_websocket (srv_heap s1 ! i)" "srv_sessions s1 = srv_sessions s"
    "wss_snapshot_provider (srv_heap s1 ! i)"
    using r(1) snap i(1) by (auto simp: callback_defs sent_to_def posted_to_def nth_upd split: if_splits)
  have ok1: "server_ok s1" using ws_step_ok [OF r(1) ok] .
  note ok2 = ws_run_ok(1) [OF r(2) ok1] and w2 = ws_run_session [OF r(2) ok1 s1(2)]
  have ok3: "server_ok s3" using ws_step_ok [OF r(3) ok2] .
  note w3 = ws_step_session [OF r(3) conjunct1 [OF w2] server_okD(3) [OF ok2 conjunct1 [OF w2]]]
  note w4 = ws_run_session [OF r(4) ok3 conjunct1 [OF w3]]
  have ws: "wss_is_websocket (srv_heap s2 ! i)" "wss_is_websocket (srv_heap s3 ! i)" "is_open s2 i" "is_open s3 i" "wss_snapshot_provider (srv_heap s2 ! i)"
    using w2 w3 w4 s1(3,5) open' by (auto simp: session_change_def is_open_def)
  have busy: "srv_busy s2 = Some i" "srv_busy s3 = None" "sent_to s3 i = sent_to s2 i @ [snap]" "srv_sessions s3 = srv_sessions s2"
    using r(3) ws(5) by (auto simp: callback_defs sent_to_def posted_to_def nth_upd split: if_splits)
  have greet: "\<not> list_ex (greets i) during"
  proof
    assume "list_ex (greets i) during"
    then obtain m d1 d2 where d: "during = d1 @ SnapshotSent i m # d2"
      by (auto simp: list_ex_iff in_set_conv_decomp elim!: greets.elims)
    then obtain t1 t2 where t: "ws_run up s1 d1 = Some t1" "ws_step up t1 (SnapshotSent i m) = Some t2" "ws_run up t2 d2 = Some s2"
      using r(2) by (auto simp: ws_run_append bind_eq_Some_conv)
    note okt = ws_run_ok(1) [OF t(1) ok1] and wt = ws_run_session [OF t(1) ok1 s1(2)]
    have "i < length (srv_heap t2)" "wss_is_websocket (srv_heap t2 ! i)"
      using ws_step_session [OF t(2) conjunct1 [OF wt] server_okD(3) [OF okt conjunct1 [OF wt]]] wt s1(3) by (auto simp: session_change_def)
    moreover have "srv_busy t2 = None" using t(2) by (auto simp: callback_defs split: if_splits)
    ultimately show False using ws_run_greeted [OF t(3) ws_step_ok [OF t(2) okt], of i] busy(1) by simp
  qed
  have post: "\<not> list_ex (greets i) post" using ws_run_greeted [OF r(4) ok3 conjunct1 [OF w3] ws(2)] busy(2) by simp
  note o2 = ws_run_open [OF r(2) ok1 s1(2,3) ws(3) greet] and o4 = ws_run_open [OF r(4) ok3 conjunct1 [OF w3] ws(2) open' post]
  have reg: "i \<in> set (srv_sessions s2) \<longleftrightarrow> i \<in> set (srv_sessions s1)" using o2 by blast
  show "i \<in> set (srv_sessions s) \<Longrightarrow> sent_to s' i = broadcasts during @ snap # broadcasts post"
    "i \<notin> set (srv_sessions s) \<Longrightarrow> sent_to s' i = [snap]" using o2 o4 busy(3,4) s1(1,4) reg by simp_all
  show "server_ok s'" "i < length (srv_heap s')" using ws_run_ok(1) [OF r(4) ok3] w4 by auto
qed

text \<open>C8. What a client that completes the WebSocket handshake is sent. No broadcast during its handshake: first the event batches that are
  broadcast between the moment it counts as open and the moment its snapshot is posted, then the snapshot, then, once each and
  in order, every later batch. A broadcast during its handshake has removed it from the list of sessions: it is sent the snapshot and nothing else.
  What was sent to a client whose stream is open has arrived once the server's thread has worked off its queue.\<close>

theorem broadcast_delivery:
  assumes "ws_run up (started_server root)
      (pre @ Connected False # mid @ HandshakeDone i False # during @ SnapshotSent i snap # post) = Some s"
    "i = accepted pre" "is_open s i"
  shows "sent_to s i = (if broadcasts mid = [] then broadcasts during @ snap # broadcasts post else [snap]) \<and>
    (idle s \<longrightarrow> (\<exists>s'. ws_run up s (replicate (length (srv_posted s)) RunPosted) = Some s' \<and>
       srv_posted s' = [] \<and> wss_written (srv_heap s' ! i) = sent_to s i))"
proof -
  obtain s1 s2 s3 where run: "ws_run up (started_server root) pre = Some s1" "ws_step up s1 (Connected False) = Some s2"
    "ws_run up s2 mid = Some s3" "ws_run up s3 (HandshakeDone i False # during @ SnapshotSent i snap # post) = Some s"
    using assms(1) by (auto simp: ws_run_append bind_eq_Some_conv)
  note ok0 = started_server_ok [of root]
  note r1 = ws_run_ok [OF run(1) ok0(1)]
  have ok2: "server_ok s2" using ws_step_ok [OF run(2) r1(1)] .
  have i1: "length (srv_heap s1) = i" using r1(2) ok0(2) assms(2) by simp
  have s2: "i < length (srv_heap s2)" "i \<in> set (srv_sessions s2)" "wss_snapshot_provider (srv_heap s2 ! i)"
    using run(2) i1 r1(3) ok0(3) by (auto simp: callback_defs ws_session_def split: if_splits)
  note r3 = ws_run_ok [OF run(3) ok2] and w3 = ws_run_session [OF run(3) ok2 s2(1)]
  have "wss_snapshot_provider (srv_heap s3 ! i)" using w3 s2(3) by (simp add: session_change_def)
  note d = greeted_delivery [OF run(4) r3(1) this assms(3)]
  have "i \<in> set (srv_sessions s3) \<longleftrightarrow> broadcasts mid = []"
    using ws_run_waiting [OF run(3) ok2 s2(1) d(1)] s2(2) by simp
  then show ?thesis using d(2,3) client_drained [OF d(4,5) assms(3)] by simp
qed

theorem broadcast_delivery_witness:
  "\<exists>s. ws_run (\<lambda>_. True) (started_server ''web'')
      [Connected False, RequestRead 0 False \<lparr>hr_target = ''/ws'', hr_fields = []\<rparr> [] (\<lambda>_. None), HandshakeDone 0 False,
       Broadcast ''e1'', SnapshotSent 0 ''snap'', Broadcast ''e2''] = Some s \<and>
     is_open s 0 \<and> sent_to s 0 = [''e1'', ''snap'', ''e2'']"
proof -
  let ?mid = "[RequestRead 0 False \<lparr>hr_target = ''/ws'', hr_fields = []\<rparr> [] (\<lambda>_. None)]"
  obtain s where s: "ws_run (\<lambda>_. True) (started_server ''web'')
      ([] @ Connected False # ?mid @ HandshakeDone 0 False # [Broadcast ''e1''] @ SnapshotSent 0 ''snap'' # [Broadcast ''e2'']) = Some s"
    "is_open s 0"
    by (simp add: started_server_def server_run_def set_snapshot_provider_def ws_server_def callback_defs ws_session_def waits_for_def
        broadcast_eq is_open_def)
  show ?thesis using broadcast_delivery [OF s(1) _ s(2)] s by simp
qed

text \<open>A request that is no upgrade is answered once: with status 200, the file's bytes and a type that follows from
  the extension when the path below the web root exists, else with status 404; the length is announced, the connection
  is marked to be closed, and no other session changes.\<close>

lemma http_request_answered:
  assumes "waits_for s i ReadRequest" "\<not> up req"
  shows "\<exists>s' r. ws_step up s (RequestRead i False req rest files) = Some s' \<and> wss_response (srv_heap s' ! i) = Some r \<and>
    (let path = (if hr_target req = ''/'' then ''/index.html'' else hr_target req) in
     case files (wss_web_root (srv_heap s ! i) @ path) of
       Some content \<Rightarrow> hs_status r = 200 \<and> hs_body r = content \<and> map_of (hs_fields r) ''Content-Type'' = Some (mime_type path)
     | None \<Rightarrow> hs_status r = 404 \<and> hs_body r = ''404 Not Found: '' @ path \<and> map_of (hs_fields r) ''Content-Type'' = Some ''text/plain'') \<and>
    hs_content_length r = Some (length (hs_body r)) \<and> \<not> hs_keep_alive r \<and>
    (\<forall>j < length (srv_heap s). j \<noteq> i \<longrightarrow> srv_heap s' ! j = srv_heap s ! j) \<and> srv_posted s' = srv_posted s"
  using assms
  by (auto simp: callback_defs waits_for_def serve_file_def prepare_payload_def set_field_def http_response_def split: option.splits)

text \<open>The target of a request is appended to the web root as it is, so that \<open>..\<close> leads out of the directory.\<close>

lemma serve_file_leaves_root:
  "files (root @ ''/../secret'') = Some content \<Longrightarrow> hs_status (serve_file files root ''/../secret'') = 200 \<and>
     hs_body (serve_file files root ''/../secret'') = content"
  by (simp add: serve_file_def set_field_def http_response_def)

text \<open>A message of a client reaches the command handler that was set when the client connected.\<close>

lemma message_forwarded:
  assumes "waits_for s i ReadMessage" "wss_buffer (srv_heap s ! i) = []" "message \<noteq> []"
  shows "\<exists>s'. ws_step up s (MessageRead i False message) = Some s' \<and> waits_for s' i ReadMessage \<and>
    srv_commands s' = srv_commands s @ (if wss_on_command (srv_heap s ! i) then [message] else [])"
  using assms by (auto simp: callback_defs waits_for_def nth_upd)

lemma accept_error_final:
  "srv_accepting s \<Longrightarrow> idle s \<Longrightarrow> \<exists>s'. ws_step up s (Connected True) = Some s' \<and> ws_step up s' (Connected False) = None"
  by (simp add: callback_defs)

end
