(* ===== verification/Arena_Facade.thy ===== *)
theory Arena_Facade
  imports Arena_Snapshot Ws_Server
begin

text \<open>
  The parts of \<open>VisualizationArena\<close> (\<open>src/src/interface/visualization_arena.cpp\<close>) that reach its server or answer for an
  object whose implementation has been moved away: creation of the server, the two JSON texts, the
  accessors and the installation of a command handler.
\<close>

subsection \<open>The facade\<close>

text \<open>\<open>fa_impl\<close> is the arena behind \<open>impl_\<close>, null after a move; \<open>fa_server\<close> its server, when there is one.\<close>

record facade =
  fa_impl :: "va_state option"
  fa_server :: "WsServer option"

definition create_server :: "ArenaConfig \<Rightarrow> WsServer option" where
  "create_server cfg =
     (if cfg_enable_server cfg then Some (set_snapshot_provider (ws_server (cfg_web_root cfg) False) True) else None)"

definition facade_snapshot_json :: "(json \<Rightarrow> string) \<Rightarrow> raw_words \<Rightarrow> size_t \<Rightarrow> facade \<Rightarrow> string" where
  "facade_snapshot_json dump rw junk f = (case fa_impl f of None \<Rightarrow> ''{}'' | Some s \<Rightarrow> snapshot_json dump rw junk s)"

definition facade_event_log_json :: "(json \<Rightarrow> string) \<Rightarrow> facade \<Rightarrow> (string \<times> facade) option" where
  "facade_event_log_json dump f = (case fa_impl f of
     None \<Rightarrow> Some (''[]'', f)
   | Some s \<Rightarrow> do { (t, s) \<leftarrow> event_log_json dump s; Some (t, f\<lparr>fa_impl := Some s\<rparr>) })"

definition facade_set_command_handler :: "facade \<Rightarrow> facade" where
  "facade_set_command_handler f = (case (fa_impl f, fa_server f) of
     (Some _, Some srv) \<Rightarrow> f\<lparr>fa_server := Some (set_command_handler srv True)\<rparr>
   | _ \<Rightarrow> f)"

definition facade_stat :: "(va_state \<Rightarrow> size_t) \<Rightarrow> facade \<Rightarrow> size_t" where
  "facade_stat g f = (case fa_impl f of None \<Rightarrow> 0 | Some s \<Rightarrow> g s)"

text \<open>The event log of a reachable arena can always be produced, and producing it keeps the live blocks.\<close>

lemma facade_event_log_total:
  assumes "va_reach s H" "fa_impl f = Some s"
  shows "\<exists>t f'. facade_event_log_json dump f = Some (t, f') \<and> (\<exists>s'. fa_impl f' = Some s' \<and> va_reach s' H)"
proof -
  have ok: "ctx_ok s" using va_invD(9) [OF va_reach_inv [OF assms(1)]] .
  obtain ev where "\<forall>c \<in> set (va_active s). lt_holds (tc_tracker (va_contexts s ! c)) (ev c)" using ctx_ok_events [OF ok] by blast
  then obtain s' where "log_collect s (va_active s) = Some s'" using log_collect_ok [OF ok, of ev] by blast
  then have "event_log_json dump s = Some (events_payload dump (va_batch s'), s')" by (simp add: event_log_json_def)
  then show ?thesis using assms va_log [OF assms(1)] by (auto simp: facade_event_log_json_def)
qed

subsection \<open>Commands\<close>

text \<open>The handler in place after the events: that of the last \<open>set_command_handler\<close>.\<close>

fun handler_after :: "bool \<Rightarrow> ws_event list \<Rightarrow> bool" where
  "handler_after h [] = h"
| "handler_after h (e # evs) = handler_after (case e of SetHandler h' \<Rightarrow> h' | _ \<Rightarrow> h) evs"

lemma ws_step_handler:
  assumes "ws_step up s e = Some s'"
  shows "srv_command_handler s' = (case e of SetHandler h \<Rightarrow> h | _ \<Rightarrow> srv_command_handler s)"
    "i < length (srv_heap s) \<Longrightarrow> i < length (srv_heap s') \<and> wss_on_command (srv_heap s' ! i) = wss_on_command (srv_heap s ! i)"
  using assms
  by (cases e; auto simp: callback_defs broadcast_eq nth_append nth_upd split: if_splits list.splits)+

lemma ws_run_handler:
  assumes "ws_run up s evs = Some s'"
  shows "srv_command_handler s' = handler_after (srv_command_handler s) evs"
    "i < length (srv_heap s) \<Longrightarrow> i < length (srv_heap s') \<and> wss_on_command (srv_heap s' ! i) = wss_on_command (srv_heap s ! i)"
proof -
  show "srv_command_handler s' = handler_after (srv_command_handler s) evs"
    using assms
  proof (induction evs arbitrary: s)
    case (Cons e evs)
    then obtain s1 where s1: "ws_step up s e = Some s1" "ws_run up s1 evs = Some s'" by (auto simp: bind_eq_Some_conv)
    then show ?case using Cons.IH ws_step_handler(1) [OF s1(1)] by simp
  qed simp
  show "i < length (srv_heap s) \<Longrightarrow> i < length (srv_heap s') \<and> wss_on_command (srv_heap s' ! i) = wss_on_command (srv_heap s ! i)"
    using assms
  proof (induction evs arbitrary: s)
    case (Cons e evs)
    then obtain s1 where s1: "ws_step up s e = Some s1" "ws_run up s1 evs = Some s'" by (auto simp: bind_eq_Some_conv)
    then show ?case using Cons.IH [of s1] Cons.prems(1) ws_step_handler(2) [OF s1(1), of i] by simp
  qed simp
qed

text \<open>C37. A message of a client reaches the command handler exactly when a handler was installed at the moment the
  connection was accepted. A handler installed later, as the demo program does after its arena has
  started the server, never sees the commands of the clients that were already connected.\<close>

theorem command_handler_fixed_at_connection:
  assumes "ws_run up (started_server web_root) (pre @ Connected False # later) = Some s" "i = accepted pre"
    "ws_step up s (MessageRead i False message) = Some s'" "message \<noteq> []"
  shows "srv_commands s' = srv_commands s @
    (if handler_after False pre then [wss_buffer (srv_heap s ! i) @ message] else [])"
proof -
  obtain s1 s2 where run: "ws_run up (started_server web_root) pre = Some s1" "ws_step up s1 (Connected False) = Some s2"
    "ws_run up s2 later = Some s" using assms(1) by (auto simp: ws_run_append bind_eq_Some_conv)
  note ok0 = started_server_ok [of web_root]
  have i1: "length (srv_heap s1) = i" using ws_run_ok(2) [OF run(1) ok0(1)] ok0(2) assms(2) by simp
  have h1: "srv_command_handler s1 = handler_after False pre"
    using ws_run_handler(1) [OF run(1)] by (simp add: started_server_def server_run_def do_accept_def set_snapshot_provider_def ws_server_def)
  have "i < length (srv_heap s2) \<and> wss_on_command (srv_heap s2 ! i) = handler_after False pre"
    using run(2) i1 h1 by (auto simp: callback_defs ws_session_def split: if_splits)
  then have "wss_on_command (srv_heap s ! i) = handler_after False pre" using ws_run_handler(2) [OF run(3), of i] by simp
  then show ?thesis using assms(3,4) by (auto simp: on_read_def do_read_def upd_session_def Let_def split: if_splits)
qed


theorem command_handler_fixed_at_connection_witness:
  "\<exists>s s'. ws_run (\<lambda>_. True) (started_server ''web'') [Connected False, SetHandler True,
       RequestRead 0 False \<lparr>hr_target = ''/ws'', hr_fields = []\<rparr> [] (\<lambda>_. None), HandshakeDone 0 False, SnapshotSent 0 ''snap''] = Some s \<and>
     ws_step (\<lambda>_. True) s (MessageRead 0 False ''stop'') = Some s' \<and> srv_command_handler s' \<and> srv_commands s' = srv_commands s"
proof -
  let ?later = "[SetHandler True, RequestRead 0 False \<lparr>hr_target = ''/ws'', hr_fields = []\<rparr> [] (\<lambda>_. None), HandshakeDone 0 False, SnapshotSent 0 ''snap'']"
  obtain s where s: "ws_run (\<lambda>_. True) (started_server ''web'') ([] @ Connected False # ?later) = Some s" "waits_for s 0 ReadMessage"
    by (simp add: started_server_def server_run_def set_snapshot_provider_def ws_server_def callback_defs ws_session_def waits_for_def)
  then obtain s' where s': "ws_step (\<lambda>_. True) s (MessageRead 0 False ''stop'') = Some s'" by simp
  have "srv_command_handler s = handler_after (srv_command_handler (started_server ''web'')) ([] @ Connected False # ?later)"
    using ws_run_handler(1) [OF s(1)] .
  then have "srv_command_handler s'" using ws_step_handler(1) [OF s'] by simp
  then show ?thesis using command_handler_fixed_at_connection [OF s(1) _ s'] s s' by simp
qed

end
