(* ===== verification/Spec2Isabelle.thy ===== *)
theory Spec2Isabelle
  imports State_Types Allocator_Benchmarks Arena_Concurrency Arena_Benchmarks Simulation_Main Stress_Tests Arena_Objects Arena_Facade
begin

text \<open>
  A verification library for the memory mapping visualiser of this repository (\<open>src/src\<close>, C++23): a program that serves
  allocations from one mapped region of memory, records every allocation and deallocation, and shows them to browsers that are
  connected by WebSocket, with a simulated server, a demo program and benchmarks (\<open>src/bench\<close>) as its loads.

  \<^bold>\<open>The program and its parts.\<close> \<open>allocator/arena.cpp\<close> maps the memory. \<open>allocator/free_list.cpp\<close> is the allocator: free blocks form a
  red-black tree in the free memory itself, ordered by address and augmented with subtree maxima, with segregated lists for small
  blocks in front of it. \<open>interface/visualization_arena.cpp\<close> divides the memory into 256 shards, gives every thread a shard and a tracker,
  puts a header and a footer around every block, and runs a thread that collects the trackers' events into batches. \<open>tracker/tracker.hpp\<close>
  has the trackers and the lock-free ring buffer under them, \<open>serialization/json_serializer.hpp\<close> the JSON form of events and snapshots,
  \<open>server/ws_server.cpp\<close> the server that broadcasts the batches. \<open>allocator/tracked_resource.cpp\<close> makes an arena a polymorphic memory
  resource. \<open>interface/cache_analyzer.cpp\<close> and \<open>interface/padding_inspector.hpp\<close> report on cache lines and padding. \<open>simulation/\<close> has a simulated
  server, a load generator, their metrics and a command line program; \<open>main.cpp\<close> is the demo program with its stress tests.

  \<^bold>\<open>Modelling.\<close> A \<open>size_t\<close> is a natural number below \<open>2 ^ 64\<close> with the wrap-around written out (\<open>add64\<close>, \<open>sub64\<close>; \<open>Mmap_Prelude\<close> relates
  them to 64-bit words); the debug log keeps its signed 32-bit counter. State is passed explicitly, in records with the members of the
  classes. Memory is typed: a store of tree nodes and list nodes in \<open>fl_state\<close>, headers, footers and user bytes in \<open>va_state\<close>. A
  result of type \<open>option\<close> is \<open>None\<close> where the C++ call does not return normally: an abort, an access to storage that holds no object of the
  expected kind, undefined behaviour, or a loop that does not end. Expected failures are values of a sum type. Random draws, clock readings, the
  outcome of system calls, the rounding of floating point numbers, files, the JSON printer and parser, and the network library's
  completions are arguments, with what is needed of them as hypotheses (\<open>env_ok\<close>, \<open>senv_ok\<close>, \<open>config_ok\<close>).

  \<^bold>\<open>Theories.\<close>
  \<^item> \<open>Mmap_Prelude\<close>: machine arithmetic, rounding, \<open>std::align\<close>, shared lemmas.
  \<^item> \<open>Alloc_Log\<close>: the debug log (\<open>AllocLog\<close>). \<open>Free_Block_Tree\<close>: the tree operations of \<open>free_list.cpp\<close>, field by field.
    \<open>RB_Shape\<close>, \<open>RB_Steps\<close>, \<open>RB_Rebalance\<close>, \<open>RB_Insert\<close>, \<open>RB_Search\<close>, \<open>RB_Delete\<close>: the functional tree a store holds and what the operations do
    to it; \<open>Tree_Store\<close>: the tree as an ordered store of blocks, as the locales \<open>block_store\<close>, \<open>block_search\<close> and \<open>block_growth\<close>.
  \<^item> \<open>Free_List_Allocator\<close>: constructor, \<open>allocate\<close>, \<open>deallocate\<close> and statistics. \<open>Free_List_Spec\<close>: the abstract allocator on lists of regions;
    \<open>Free_List_Refine\<close>: the refinement; \<open>Free_List_Safety\<close> and \<open>Free_List_Props\<close>: invariant and consequences; \<open>Allocator_Theorems\<close>: the theorems;
    \<open>State_Types\<close>: which values the members and nodes of a reachable state have. \<open>Allocator_Benchmarks\<close>: the benchmarks of the allocator.
  \<^item> \<open>Ring_Buffer\<close> (\<open>RingBuffer\<close>, also under interleaving, and the locale \<open>bounded_fifo\<close>), \<open>Event_Tracker\<close> (\<open>LocalTracker\<close> and the event records),
    \<open>Json_Serializer\<close>, \<open>Mmap_Arena\<close> (\<open>Arena\<close>), \<open>Cache_Analyzer\<close>, \<open>Padding_Inspector\<close>, \<open>Request_Metrics\<close>: one component each.
  \<^item> \<open>Visualization_Arena\<close>: the operations of \<open>VisualizationArena\<close>. \<open>Shards\<close>: a row of allocators, from the locale \<open>region_allocator\<close>; \<open>Event_Delivery\<close>:
    what the batcher collects; \<open>Sharded_Arena\<close>: the invariant; \<open>Arena_Theorems\<close>: the state machine \<open>va_reach\<close> of threads that allocate, free, write and
    end, and its theorems. \<open>Arena_Snapshot\<close>: \<open>snapshot_json\<close>. \<open>Arena_Objects\<close>: construction, moves and destruction of arenas with their threads, and
    typed allocation. \<open>Arena_Facade\<close>: the calls that reach the server or answer for a moved-from object. \<open>Arena_Concurrency\<close>: the arena under threads
    that interleave inside \<open>dealloc_raw\<close> and between context registration and allocation, as the step relation \<open>conc_step\<close>.
  \<^item> \<open>Block_Pool\<close>: what clients of an arena rely on, as the locales \<open>block_pool\<close> and \<open>finite_pool\<close>, which the arena and, in \<open>Tracked_Resource\<close>, the memory
    resource interpret. \<open>Server_Sim\<close>, \<open>Request_Generator\<close>, \<open>Simulation_Main\<close>: the simulation. \<open>Stress_Tests\<close>: \<open>main.cpp\<close>.
    \<open>Arena_Benchmarks\<close>: the benchmarks of the arena under any schedule of their threads, and those of the serialisation.
  \<^item> \<open>Ws_Server\<close>: the server as a machine driven by events. This theory: the batcher together with the server.

  \<^bold>\<open>What is shown.\<close> For the allocator: in every state reachable by allocations and frees, \<open>allocate\<close> and \<open>deallocate\<close> return, handed-out
  regions are large enough, aligned, disjoint and untouched, the pointer program refines first fit on lists of regions, failures happen
  exactly when nothing fits, the statistics are exact, and all memory can be recovered; the tree operations keep order, colours and
  maxima, and the tree is shallow. For the arena: live blocks stay intact and disjoint under any threads, their bytes change only by
  their owners, accounting is exact, double frees of small blocks are recognised, no thread outlives what it works on, and
  snapshots have exact totals. For events: the ring buffer is a queue under every interleaving, trackers lose only what the
  documented sampling and capacity drop, and what a round of the batcher collects reaches every registered open client once and in order.
  For the loads: every request is answered without a leak, every traffic pattern and stress test ends (but for a burst size of 0, which is shown to
  diverge), counts are exact and clean-up is complete; the command line round-trips, and
  what the benchmarks leave allocated is computed for every number of iterations. Several theorems state how the code
  misbehaves at its limits or otherwise than intended: sizes that wrap around, the block counter that underflows, clients that are forgotten during their handshake,
  commands of clients that connect before the handler is installed, a scalability benchmark whose tree never grows, and a snapshot walk that stops in the first block.

  \<^bold>\<open>Loops, bounds and fuel.\<close> No definition uses fuel. Loops that run over a tree or may not end are partial functions, and the theorems
  show that they return; all others are functions with a termination proof. The fill loop of the fragmentation storm ends because an arena
  holds at most as many live blocks as it has bytes (\<open>finite_pool\<close>), the loop of the mixed traffic pattern because an empty
  phase is followed by one that sends, also where the phase counter wraps around.

  \<^bold>\<open>Concurrency.\<close> In \<open>va_reach\<close> an operation of an arena is one step of its thread. \<open>Arena_Concurrency\<close> drops this: the check of the header, its
  clearing, and the release under the lock of the shard are separate steps between which any other thread, the batcher included, may run.
  As long as no two threads free the same block, blocks stay disjoint and intact, no step can abort, and no data is overwritten; two threads that do
  free the same block can corrupt a free list, which is also shown. The ring buffer is modelled at the granularity of its atomic accesses.
  Weak memory order and data races are not modelled.

  \<^bold>\<open>Not modelled.\<close> Log lines (the simulation program's own output is modelled) and sleeping, which have no effect on the state; the timing and the choice of
  the iteration count by the benchmark library, which is an argument; the third-party libraries
  (Boost.Asio, Boost.Beast, nlohmann::json), the operating system and the standard library's containers beyond what is stated; \<open>tracker/tracker.cpp\<close>,
  which has no code; the tests and the web frontend.
\<close>

subsection \<open>From allocation to browser\<close>

text \<open>
  One round of the batcher thread with the server it feeds (\<open>VisualizationArena::create\<close> in
  \<open>src/src/interface/visualization_arena.cpp\<close>): drain the trackers, then broadcast the batch.
\<close>

definition batcher_step :: "(json \<Rightarrow> string) \<Rightarrow> va_state \<Rightarrow> WsServer \<Rightarrow> (va_state \<times> WsServer) option" where
  "batcher_step dump s srv = do {
     (out, s) \<leftarrow> batcher_round dump s;
     Some (s, case out of None \<Rightarrow> srv | Some payload \<Rightarrow> broadcast srv payload) }"

lemma broadcast_appends:
  assumes "server_ok srv" "i \<in> set (srv_sessions srv)" "is_open srv i"
  shows "sent_to (broadcast srv m) i = sent_to srv i @ [m]" "server_ok (broadcast srv m)" "is_open (broadcast srv m) i"
    "i < length (srv_heap (broadcast srv m))" "idle (broadcast srv m) = idle srv"
proof -
  have st: "ws_step up srv (Broadcast m) = Some (broadcast srv m)" for up by simp
  show op: "is_open (broadcast srv m) i" "i < length (srv_heap (broadcast srv m))" "idle (broadcast srv m) = idle srv"
    using assms server_okD(2) [OF assms(1,2)] by (auto simp: broadcast_eq is_open_def idle_def)
  show "server_ok (broadcast srv m)" using ws_step_ok [OF st assms(1)] .
  show "sent_to (broadcast srv m) i = sent_to srv i @ [m]"
    using ws_step_open [OF st assms(1) server_okD(2) [OF assms(1,2)] _ op(1)] assms(2,3) by (simp add: is_open_def)
qed

text \<open>C7. Events reach the browser: a round of the batcher queues for every registered client with an open stream one message with exactly
  the events that were pending and those in the trackers of the live threads, thread by thread and in order, after everything
  sent to the client before, or no message when there are none. When the server's thread is running and not inside a handshake
  it works off its queue, and then the client has received all of it. The live blocks of the arena stay as they are and the batch is empty.\<close>

theorem events_reach_clients:
  assumes "va_reach s H"
    "\<forall>c \<in> set (va_active s). tc_alive (va_contexts s ! c) \<longrightarrow> lt_holds (tc_tracker (va_contexts s ! c)) (ev c)"
    "server_ok srv" "i \<in> set (srv_sessions srv)" "is_open srv i"
  defines "evs \<equiv> va_batch s @ collected s ev (va_active s)"
  shows "\<exists>s' srv'. batcher_step dump s srv = Some (s', srv') \<and> va_reach s' H \<and> va_batch s' = [] \<and>
    sent_to srv' i = sent_to srv i @ (if evs = [] then [] else [events_payload dump evs]) \<and>
    (idle srv \<longrightarrow> (\<exists>srv''. ws_run up srv' (replicate (length (srv_posted srv')) RunPosted) = Some srv'' \<and>
       wss_written (srv_heap srv'' ! i) = sent_to srv i @ (if evs = [] then [] else [events_payload dump evs])))"
proof -
  have ok: "ctx_ok s" using va_invD(9) [OF va_reach_inv [OF assms(1)]] .
  obtain s' where s': "batcher_round dump s = Some (if evs = [] then None else Some (events_payload dump evs), s')" "va_batch s' = []"
    using batcher_round_eq [OF ok, of ev dump] assms(2) unfolding evs_def by force
  have reach: "va_reach s' H" using va_batch [OF assms(1) s'(1)] .
  define srv' where "srv' = (if evs = [] then srv else broadcast srv (events_payload dump evs))"
  have step: "batcher_step dump s srv = Some (s', srv')" using s'(1) by (simp add: batcher_step_def srv'_def)
  have srv': "server_ok srv'" "i < length (srv_heap srv')" "is_open srv' i" "idle srv' = idle srv"
    "sent_to srv' i = sent_to srv i @ (if evs = [] then [] else [events_payload dump evs])"
    using broadcast_appends [OF assms(3-5)] assms(3,5) server_okD(2) [OF assms(3,4)] by (simp_all add: srv'_def)
  show ?thesis using client_drained [OF srv'(1-3), of up] srv'(4,5) step reach s'(2) by auto
qed

text \<open>The event of an allocation is in the tracker of its thread.\<close>

lemma alloc_raw_records:
  assumes run: "alloc_raw slots now s th sz al tag = Some (p, s')" "p \<noteq> nullptr"
  defines "u \<equiv> (if needs_context s th then init_tls_context slots s th else s)"
  shows "\<exists>c a meta t. va_tls u th = Context c \<and> record_alloc a (tc_tracker (va_contexts u ! c)) meta = Some t \<and> bm_size meta = sz \<and>
    va_contexts s' = (va_contexts u)[c := (va_contexts u ! c)\<lparr>tc_tracker := t\<rparr>] \<and> va_active s' = va_active u \<and> va_batch s' = va_batch u"
proof (cases "va_tls u th")
  case (Context c)
  let ?i = "tc_shard (va_contexts u ! c)"
  obtain res b where b: "allocate (va_shards u ! ?i) (add64 sz (offset_to_user al)) al = Some (res, b)"
    using run Context unfolding alloc_raw_def u_def [symmetric]
    by (cases "allocate (va_shards u ! ?i) (add64 sz (offset_to_user al)) al") (auto simp: Let_def)
  obtain r where r: "res = Inr r" using run b Context unfolding alloc_raw_def u_def [symmetric] by (cases res) (auto simp: Let_def)
  show ?thesis using run b r Context unfolding alloc_raw_def u_def [symmetric]
    by (auto simp: Let_def bind_eq_Some_conv write_block_def set_tag_def)
      (intro exI conjI, assumption, simp_all, intro exI conjI, assumption, simp_all)
qed (use run in \<open>auto simp: alloc_raw_def u_def [symmetric] Let_def\<close>)

lemma first_event:
  assumes "record_alloc a (local_tracker demo_slots 1) meta = Some t"
  shows "\<exists>e. lt_holds t [e] \<and> ev_type e = Allocate \<and> ev_event_id e = 1 \<and> bm_size (ev_block e) = bm_size meta"
proof -
  let ?t = "local_tracker demo_slots 1" and ?e = "event_of 1 (RecAlloc a meta)"
  have h: "lt_holds ?t []" "lt_room ?t = 4095"
    using fresh_tracker [of demo_slots 1] by (simp_all add: demo_slots_def lt_room_def local_tracker_def ring_init_def ring_room_def kEventSlots_def)
  have "t = lt_push (?t\<lparr>lt_next_event_id := 1\<rparr>) ?e"
    using assms track_step [of ?t "RecAlloc a meta"] by (simp add: local_tracker_def Let_def)
  then have "t = (lt_push ?t ?e)\<lparr>lt_next_event_id := 1\<rparr>" by (simp add: lt_push_id)
  moreover have "lt_holds (lt_push ?t ?e) [?e]" using tracker.enq_law [OF h(1), of ?e] h(2) by simp
  ultimately have "lt_holds t [?e]" by (simp add: lt_holds_def)
  then show ?thesis by (intro exI [of _ ?e]) simp
qed

lemma demo_pending:
  "\<exists>s H e. va_reach s H \<and> length H = 1 \<and> va_active s = [0] \<and> va_batch s = [] \<and> tc_alive (va_contexts s ! 0) \<and>
     lt_holds (tc_tracker (va_contexts s ! 0)) [e] \<and> ev_type e = Allocate \<and> ev_event_id e = 1 \<and> bm_size (ev_block e) = 100"
proof -
  obtain s where s: "va_reach s []" "fresh_arena s" "va_arena s = \<lparr>ar_base = 4096, ar_capacity = 16777216\<rparr>"
    "va_create 4096 demo_mmap 64 (\<lambda>_. 64) zero_log (\<lambda>_. NoContext) 1 demo_cfg = Some (Inr s)" "va_tls s = (\<lambda>_. NoContext)" using demo_arena by blast
  then have e: "va_active s = []" "va_batch s = []" "va_contexts s = []" "va_next_shard_idx s = 0" "va_config s = demo_cfg"
    by (auto simp: va_create_def Let_def bind_eq_Some_conv split: sum.splits)
  have len: "length (va_shards s) = 256" using va_invD(1) [OF va_reach_inv [OF s(1)]] .
  have ok: "request_ok demo_slots 100 16" by (simp add: request_ok_def demo_slots_def align_ok_def)
  have "internal_size_of (100 + 64) = 176" by (simp add: internal_size_eq max_def)
  then obtain p s' where p: "alloc_raw demo_slots 0 s 0 100 16 ''cache'' = Some (p, s')" "p \<noteq> nullptr"
    using fresh_arena_serves [OF va_reach_inv [OF s(1)] s(2) ok, of 0 0 "''cache''"] s(3) by (auto simp: shard_span_def)
  have u: "needs_context s 0" "va_tls (init_tls_context demo_slots s 0) 0 = Context 0" "va_active (init_tls_context demo_slots s 0) = [0]"
    "va_batch (init_tls_context demo_slots s 0) = []" "length (va_contexts (init_tls_context demo_slots s 0)) = 1"
    "tc_tracker (va_contexts (init_tls_context demo_slots s 0) ! 0) = local_tracker demo_slots 1"
    "tc_alive (va_contexts (init_tls_context demo_slots s 0) ! 0)"
    using s(5) e len by (simp_all add: needs_context_def init_tls_context_def Let_def kMaxShards_def demo_cfg_def)
  obtain a meta t where r: "record_alloc a (local_tracker demo_slots 1) meta = Some t" "bm_size meta = 100" "va_active s' = [0]" "va_batch s' = []"
    "va_contexts s' = (va_contexts (init_tls_context demo_slots s 0))[0 := (va_contexts (init_tls_context demo_slots s 0) ! 0)\<lparr>tc_tracker := t\<rparr>]"
    using alloc_raw_records [OF p] u by auto
  have "va_contexts s' ! 0 = (va_contexts (init_tls_context demo_slots s 0) ! 0)\<lparr>tc_tracker := t\<rparr>" using r(5) u(5) by simp
  moreover have "va_reach s' [alloc_block s p 100 16]" using va_alloc [OF s(1) ok p(1)] p(2) by simp
  ultimately show ?thesis using first_event [OF r(1)] r(2-4) u(7)
    by (intro exI [of _ s'] exI [of _ "[alloc_block s p 100 16]"]) auto
qed

theorem events_reach_clients_witness:
  "\<exists>s srv s' srv' srv'' e. batcher_step (\<lambda>_. ''x'') s srv = Some (s', srv') \<and>
     ws_run (\<lambda>_. True) srv' (replicate (length (srv_posted srv')) RunPosted) = Some srv'' \<and>
     ev_type e = Allocate \<and> ev_event_id e = 1 \<and> bm_size (ev_block e) = 100 \<and>
     wss_written (srv_heap srv'' ! 0) = [''snap'', events_payload (\<lambda>_. ''x'') [e]]"
proof -
  obtain s H e where s: "va_reach s H" "va_active s = [0]" "va_batch s = []" "tc_alive (va_contexts s ! 0)"
    "lt_holds (tc_tracker (va_contexts s ! 0)) [e]" "ev_type e = Allocate" "ev_event_id e = 1" "bm_size (ev_block e) = 100"
    using demo_pending by blast
  obtain srv where srv: "ws_run (\<lambda>_. True) (started_server ''web'')
      [Connected False, RequestRead 0 False \<lparr>hr_target = ''/ws'', hr_fields = []\<rparr> [] (\<lambda>_. None), HandshakeDone 0 False,
       SnapshotSent 0 ''snap''] = Some srv"
    "is_open srv 0" "sent_to srv 0 = [''snap'']" "0 \<in> set (srv_sessions srv)" "idle srv"
    by (simp add: started_server_def server_run_def set_snapshot_provider_def ws_server_def callback_defs ws_session_def waits_for_def
        is_open_def sent_to_def posted_to_def idle_def)
  have "server_ok srv" using ws_run_ok(1) [OF srv(1) started_server_ok(1)] .
  moreover have "\<forall>c \<in> set (va_active s). tc_alive (va_contexts s ! c) \<longrightarrow> lt_holds (tc_tracker (va_contexts s ! c)) ((\<lambda>_. [e]) c)"
    using s(2,5) by simp
  ultimately obtain s' srv' srv'' where "batcher_step (\<lambda>_. ''x'') s srv = Some (s', srv')"
    "ws_run (\<lambda>_. True) srv' (replicate (length (srv_posted srv')) RunPosted) = Some srv''"
    "wss_written (srv_heap srv'' ! 0) = [''snap'', events_payload (\<lambda>_. ''x'') [e]]"
    using events_reach_clients [OF s(1), of "\<lambda>_. [e]" srv 0 "\<lambda>_. ''x''" "\<lambda>_. True"] s(2-4) srv(2-5)
    by (auto simp: collected_def)
  then show ?thesis using s(6-8) by blast
qed

end
